theory Spec2Isabelle
  imports Complex_Main "HOL-Library.Multiset" "HOL-Library.Monad_Syntax"
begin

section \<open>Min-heap (src/algo/heap.c)\<close>

text \<open>
  \<^verbatim>\<open>struct heap_el { int key; int idx; }\<close> and
  \<^verbatim>\<open>struct heap { size_t capacity; size_t count; struct heap_el *arr; }\<close>.
  Keys are only copied and compared, never computed with, so a key is an \<open>int\<close>; the
  parser (\<open>str2int\<close> below) is what confines it to the 32-bit range. Indices and counts
  are \<open>nat\<close>. The record fields carry the prefix \<open>h_\<close> because \<open>count\<close> is the
  multiset library's constant.
\<close>

record heap_el =
  key :: int
  idx :: nat

record heap =
  h_capacity :: nat
  h_count :: nat
  h_arr :: "heap_el list"

definition heap_parent :: "nat \<Rightarrow> nat" where
  "heap_parent i = (i - 1) div 2"

definition heap_left :: "nat \<Rightarrow> nat" where
  "heap_left i = (i * 2) + 1"

definition heap_right :: "nat \<Rightarrow> nat" where
  "heap_right i = (i * 2) + 2"

text \<open>\<^verbatim>\<open>tmp = *x; *x = *y; *y = tmp\<close> on two cells of the same array.\<close>

definition heap_swap :: "heap_el list \<Rightarrow> nat \<Rightarrow> nat \<Rightarrow> heap_el list" where
  "heap_swap a x y = (let tmp = a ! x in (a[x := a ! y])[y := tmp])"

function heap_heapify_min :: "heap \<Rightarrow> nat \<Rightarrow> heap" where
  "heap_heapify_min obj i =
     (let l = heap_left i;
          r = heap_right i;
          m1 = (if l < h_count obj \<and> key (h_arr obj ! l) < key (h_arr obj ! i) then l else i);
          m2 = (if r < h_count obj \<and> key (h_arr obj ! r) < key (h_arr obj ! m1) then r else m1)
      in if m2 \<noteq> i
         then heap_heapify_min (obj\<lparr>h_arr := heap_swap (h_arr obj) i m2\<rparr>) m2
         else obj)"
  by pat_completeness auto
termination
  by (relation "measure (\<lambda>(obj, i). h_count obj - i)")
     (auto simp: heap_left_def heap_right_def split: if_splits)

declare heap_heapify_min.simps [simp del]

text \<open>
  \<open>heap_create\<close>: \<^verbatim>\<open>assert(capacity > 0)\<close>, then \<open>count = 0\<close> and a fresh array. The
  cells of a fresh array are indeterminate in C; they are never read before they are
  written, and the model fills them with a fixed element.
\<close>

definition heap_create :: "nat \<Rightarrow> heap option" where
  "heap_create capacity =
     (if capacity > 0
      then Some \<lparr>h_capacity = capacity, h_count = 0,
                 h_arr = replicate capacity \<lparr>key = 0, idx = 0\<rparr>\<rparr>
      else None)"

definition heap_empty :: "heap \<Rightarrow> bool" where
  "heap_empty obj \<longleftrightarrow> h_count obj = 0"

text \<open>The \<^verbatim>\<open>while\<close> loop of \<open>heap_insert\<close> (sift up from cell \<open>i\<close>).\<close>

function heap_sift_up :: "heap_el list \<Rightarrow> nat \<Rightarrow> heap_el list" where
  "heap_sift_up a i =
     (if i \<noteq> 0 \<and> key (a ! heap_parent i) > key (a ! i)
      then heap_sift_up (heap_swap a i (heap_parent i)) (heap_parent i)
      else a)"
  by pat_completeness auto
termination
  by (relation "measure (\<lambda>(a, i). i)") (auto simp: heap_parent_def)

declare heap_sift_up.simps [simp del]

text \<open>
  \<open>heap_insert\<close> and \<open>heap_pop\<close> start with an \<^verbatim>\<open>assert\<close>; a failed assertion ends the
  process, which is the value \<open>None\<close>.
\<close>

definition heap_insert :: "heap \<Rightarrow> heap_el \<Rightarrow> heap option" where
  "heap_insert obj el =
     (if h_count obj < h_capacity obj
      then (let obj1 = obj\<lparr>h_count := h_count obj + 1\<rparr>;
                i = h_count obj1 - 1;
                obj2 = obj1\<lparr>h_arr := (h_arr obj1)[i := el]\<rparr>
            in Some (obj2\<lparr>h_arr := heap_sift_up (h_arr obj2) i\<rparr>))
      else None)"

definition heap_pop :: "heap \<Rightarrow> (heap \<times> heap_el) option" where
  "heap_pop obj =
     (if h_count obj > 0
      then (let el = h_arr obj ! 0;
                obj1 = obj\<lparr>h_arr := (h_arr obj)[0 := h_arr obj ! (h_count obj - 1)]\<rparr>;
                obj2 = obj1\<lparr>h_count := h_count obj1 - 1\<rparr>
            in Some (heap_heapify_min obj2 0, el))
      else None)"

text \<open>
  The heap invariant of the specification, on the first \<open>n\<close> cells of an array, and the
  shape every heap object has: the array has \<open>capacity\<close> cells and \<open>count\<close> does not
  exceed it.
\<close>

definition heap_on :: "heap_el list \<Rightarrow> nat \<Rightarrow> bool" where
  "heap_on a n \<longleftrightarrow> (\<forall>i. 0 < i \<and> i < n \<longrightarrow> key (a ! heap_parent i) \<le> key (a ! i))"

definition heap_inv :: "heap \<Rightarrow> bool" where
  "heap_inv obj \<longleftrightarrow> heap_on (h_arr obj) (h_count obj)"

definition heap_wf :: "heap \<Rightarrow> bool" where
  "heap_wf obj \<longleftrightarrow> length (h_arr obj) = h_capacity obj \<and> h_count obj \<le> h_capacity obj"

text \<open>The elements a heap holds: the first \<open>count\<close> cells of its array.\<close>

definition heap_els :: "heap \<Rightarrow> heap_el list" where
  "heap_els obj = take (h_count obj) (h_arr obj)"

subsection \<open>The heap invariant is kept\<close>

lemma heap_swap_nth:
  "x < length a \<Longrightarrow> y < length a \<Longrightarrow>
   heap_swap a x y ! j = (if j = y then a ! x else if j = x then a ! y else a ! j)"
  by (auto simp: heap_swap_def Let_def nth_list_update)

lemma heap_swap_length [simp]: "length (heap_swap a x y) = length a"
  by (simp add: heap_swap_def Let_def)

lemma heap_swap_mset_take:
  assumes "x < n" "y < n" "n \<le> length a"
  shows "mset (take n (heap_swap a x y)) = mset (take n a)"
proof -
  have "take n (heap_swap a x y) = (take n a)[x := take n a ! y, y := take n a ! x]"
    using assms by (simp add: heap_swap_def Let_def take_update_swap)
  moreover have "mset ((take n a)[x := take n a ! y, y := take n a ! x]) = mset (take n a)"
    using assms by (intro mset_swap) auto
  ultimately show ?thesis by simp
qed

lemma heap_parent_less: "0 < i \<Longrightarrow> heap_parent i < i"
  by (simp add: heap_parent_def)

lemma heap_parent_cases:
  "0 < j \<Longrightarrow> heap_parent j = i \<longleftrightarrow> (j = heap_left i \<or> j = heap_right i)"
  by (auto simp: heap_parent_def heap_left_def heap_right_def)

lemma heap_sift_up_stop:
  "\<not> (i \<noteq> 0 \<and> key (a ! heap_parent i) > key (a ! i)) \<Longrightarrow> heap_sift_up a i = a"
  by (subst heap_sift_up.simps) auto

lemma heap_sift_up_step:
  "i \<noteq> 0 \<and> key (a ! heap_parent i) > key (a ! i) \<Longrightarrow>
   heap_sift_up a i = heap_sift_up (heap_swap a i (heap_parent i)) (heap_parent i)"
  by (subst heap_sift_up.simps) auto

lemma heap_sift_up_length [simp]: "length (heap_sift_up a i) = length a"
proof (induction a i rule: heap_sift_up.induct)
  case (1 a i)
  show ?case
  proof (cases "i \<noteq> 0 \<and> key (a ! heap_parent i) > key (a ! i)")
    case True
    then show ?thesis using 1 by (simp add: heap_sift_up_step)
  next
    case False
    then show ?thesis by (simp add: heap_sift_up_stop)
  qed
qed

lemma heap_sift_up_mset:
  "i < n \<Longrightarrow> n \<le> length a \<Longrightarrow> mset (take n (heap_sift_up a i)) = mset (take n a)"
proof (induction a i rule: heap_sift_up.induct)
  case (1 a i)
  show ?case
  proof (cases "i \<noteq> 0 \<and> key (a ! heap_parent i) > key (a ! i)")
    case True
    then have p: "heap_parent i < i" by (simp add: heap_parent_less)
    have "mset (take n (heap_sift_up (heap_swap a i (heap_parent i)) (heap_parent i)))
          = mset (take n (heap_swap a i (heap_parent i)))"
      using 1 True p by simp
    also have "\<dots> = mset (take n a)"
      using 1 p by (intro heap_swap_mset_take) auto
    finally show ?thesis using True by (simp add: heap_sift_up_step)
  next
    case False
    then show ?thesis by (simp add: heap_sift_up_stop)
  qed
qed

lemma heap_sift_up_on:
  assumes "i < n" "n \<le> length a"
    and "\<forall>j. 0 < j \<and> j < n \<and> j \<noteq> i \<longrightarrow> key (a ! heap_parent j) \<le> key (a ! j)"
    and "\<forall>j. 0 < j \<and> j < n \<and> heap_parent j = i \<and> 0 < i \<longrightarrow> key (a ! heap_parent i) \<le> key (a ! j)"
  shows "heap_on (heap_sift_up a i) n"
  using assms
proof (induction a i rule: heap_sift_up.induct)
  case (1 a i)
  show ?case
  proof (cases "i \<noteq> 0 \<and> key (a ! heap_parent i) > key (a ! i)")
    case False
    have "heap_on a n"
      unfolding heap_on_def
    proof (intro allI impI)
      fix j assume j: "0 < j \<and> j < n"
      show "key (a ! heap_parent j) \<le> key (a ! j)"
        using False j 1(4) by (cases "j = i") auto
    qed
    then show ?thesis using False by (simp add: heap_sift_up_stop)
  next
    case True
    define p where "p = heap_parent i"
    define b where "b = heap_swap a i p"
    have pi: "p < i" using True by (simp add: p_def heap_parent_less)
    have lens: "i < length a" "p < length a" using 1 pi by auto
    have nth: "\<And>j. b ! j = (if j = p then a ! i else if j = i then a ! p else a ! j)"
      unfolding b_def using lens by (simp add: heap_swap_nth)
    have lt: "key (a ! i) < key (a ! p)" using True by (simp add: p_def)
    have A: "\<forall>j. 0 < j \<and> j < n \<and> j \<noteq> p \<longrightarrow> key (b ! heap_parent j) \<le> key (b ! j)"
    proof (intro allI impI)
      fix j assume j: "0 < j \<and> j < n \<and> j \<noteq> p"
      show "key (b ! heap_parent j) \<le> key (b ! j)"
      proof (cases "j = i")
        case True
        then show ?thesis using lt pi by (simp add: nth p_def)
      next
        case ji: False
        have aj: "b ! j = a ! j" using ji j by (simp add: nth)
        have old: "key (a ! heap_parent j) \<le> key (a ! j)" using 1(4) j ji by blast
        consider "heap_parent j = p" | "heap_parent j = i" | "heap_parent j \<noteq> p" "heap_parent j \<noteq> i"
          by blast
        then show ?thesis
        proof cases
          case 1
          then show ?thesis using old lt aj by (simp add: nth)
        next
          case 2
          have "key (a ! heap_parent i) \<le> key (a ! j)"
            using "1.prems"(4) j 2 True by blast
          then show ?thesis using 2 aj pi by (simp add: nth p_def)
        next
          case 3
          then show ?thesis using old aj by (simp add: nth)
        qed
      qed
    qed
    have B: "\<forall>j. 0 < j \<and> j < n \<and> heap_parent j = p \<and> 0 < p \<longrightarrow> key (b ! heap_parent p) \<le> key (b ! j)"
    proof (intro allI impI)
      fix j assume j: "0 < j \<and> j < n \<and> heap_parent j = p \<and> 0 < p"
      have pp: "heap_parent p < p" using j by (simp add: heap_parent_less)
      have "p < n" using pi 1(2) by simp
      then have pa: "key (a ! heap_parent p) \<le> key (a ! p)"
        using 1(4) j pi by auto
      have bp: "b ! heap_parent p = a ! heap_parent p" using pp pi by (simp add: nth)
      have jp: "j \<noteq> p" using j heap_parent_less[of j] by auto
      show "key (b ! heap_parent p) \<le> key (b ! j)"
      proof (cases "j = i")
        case True
        then show ?thesis using bp pa pi by (simp add: nth)
      next
        case False
        then have "key (a ! p) \<le> key (a ! j)" using 1(4) j by auto
        then show ?thesis using bp pa False jp by (simp add: nth)
      qed
    qed
    have "heap_on (heap_sift_up b p) n"
      using "1.IH"[OF True] pi 1(2,3) A B unfolding b_def p_def by auto
    then show ?thesis using True unfolding b_def p_def by (simp add: heap_sift_up_step)
  qed
qed

definition heapify_pick :: "heap \<Rightarrow> nat \<Rightarrow> nat" where
  "heapify_pick obj i =
     (let m1 = (if heap_left i < h_count obj \<and>
                   key (h_arr obj ! heap_left i) < key (h_arr obj ! i) then heap_left i else i)
      in if heap_right i < h_count obj \<and>
            key (h_arr obj ! heap_right i) < key (h_arr obj ! m1) then heap_right i else m1)"

lemma heap_heapify_min_unfold:
  "heap_heapify_min obj i =
     (if heapify_pick obj i \<noteq> i
      then heap_heapify_min (obj\<lparr>h_arr := heap_swap (h_arr obj) i (heapify_pick obj i)\<rparr>)
             (heapify_pick obj i)
      else obj)"
  by (subst heap_heapify_min.simps) (simp add: Let_def heapify_pick_def)

lemma heapify_pick_induct [case_names step]:
  assumes "\<And>obj i. (heapify_pick obj i \<noteq> i \<Longrightarrow>
              P (obj\<lparr>h_arr := heap_swap (h_arr obj) i (heapify_pick obj i)\<rparr>) (heapify_pick obj i))
            \<Longrightarrow> P obj i"
  shows "P obj i"
proof (induction obj i rule: heap_heapify_min.induct)
  case (1 obj i)
  show ?case
    by (rule assms) (use 1 in \<open>simp add: heapify_pick_def Let_def\<close>)
qed

lemma heap_heapify_min_fields [simp]:
  "h_count (heap_heapify_min obj i) = h_count obj \<and>
   h_capacity (heap_heapify_min obj i) = h_capacity obj \<and>
   length (h_arr (heap_heapify_min obj i)) = length (h_arr obj)"
proof (induction obj i rule: heapify_pick_induct)
  case (step obj i)
  show ?case
  proof (cases "heapify_pick obj i \<noteq> i")
    case True
    then show ?thesis using step by (simp add: heap_heapify_min_unfold[of obj i])
  next
    case False
    then show ?thesis by (simp add: heap_heapify_min_unfold[of obj i])
  qed
qed

lemma heapify_pick_cases:
  "heapify_pick obj i = i \<or>
   (heapify_pick obj i = heap_left i \<or> heapify_pick obj i = heap_right i) \<and>
   heapify_pick obj i < h_count obj \<and> i < heapify_pick obj i \<and>
   heap_parent (heapify_pick obj i) = i"
  by (auto simp: heapify_pick_def Let_def heap_left_def heap_right_def heap_parent_def)

lemma heapify_pick_le:
  "key (h_arr obj ! heapify_pick obj i) \<le> key (h_arr obj ! i)"
  "heap_left i < h_count obj \<Longrightarrow>
     key (h_arr obj ! heapify_pick obj i) \<le> key (h_arr obj ! heap_left i)"
  "heap_right i < h_count obj \<Longrightarrow>
     key (h_arr obj ! heapify_pick obj i) \<le> key (h_arr obj ! heap_right i)"
  by (auto simp: heapify_pick_def Let_def)

lemma heap_heapify_min_mset:
  "i < h_count obj \<Longrightarrow> h_count obj \<le> length (h_arr obj) \<Longrightarrow>
   mset (heap_els (heap_heapify_min obj i)) = mset (heap_els obj)"
proof (induction obj i rule: heapify_pick_induct)
  case (step obj i)
  define m where "m = heapify_pick obj i"
  show ?case
  proof (cases "m \<noteq> i")
    case False
    then show ?thesis by (simp add: heap_heapify_min_unfold[of obj i] m_def)
  next
    case True
    have m2n: "m < h_count obj" using True heapify_pick_cases[of obj i] by (auto simp: m_def)
    have "mset (heap_els (heap_heapify_min (obj\<lparr>h_arr := heap_swap (h_arr obj) i m\<rparr>) m))
        = mset (heap_els (obj\<lparr>h_arr := heap_swap (h_arr obj) i m\<rparr>))"
      using step.IH True m2n step.prems by (simp add: m_def)
    also have "\<dots> = mset (heap_els obj)"
      using m2n step.prems by (simp add: heap_els_def heap_swap_mset_take)
    finally show ?thesis using True by (simp add: heap_heapify_min_unfold[of obj i] m_def)
  qed
qed

lemma heap_heapify_min_on:
  assumes "h_count obj \<le> length (h_arr obj)"
    and "\<forall>j. 0 < j \<and> j < h_count obj \<and> heap_parent j \<noteq> i \<longrightarrow>
           key (h_arr obj ! heap_parent j) \<le> key (h_arr obj ! j)"
    and "\<forall>j. 0 < j \<and> j < h_count obj \<and> heap_parent j = i \<and> 0 < i \<longrightarrow>
           key (h_arr obj ! heap_parent i) \<le> key (h_arr obj ! j)"
  shows "heap_inv (heap_heapify_min obj i)"
  using assms
proof (induction obj i rule: heapify_pick_induct)
  case (step obj i)
  define a where "a = h_arr obj"
  define n where "n = h_count obj"
  define l where "l = heap_left i"
  define r where "r = heap_right i"
  define m2 where "m2 = heapify_pick obj i"
  have unf: "heap_heapify_min obj i =
      (if m2 \<noteq> i then heap_heapify_min (obj\<lparr>h_arr := heap_swap a i m2\<rparr>) m2 else obj)"
    by (simp add: heap_heapify_min_unfold[of obj i] m2_def a_def)
  have inv1: "\<And>j. 0 < j \<Longrightarrow> j < n \<Longrightarrow> heap_parent j \<noteq> i \<Longrightarrow> key (a ! heap_parent j) \<le> key (a ! j)"
    using step.prems(2) by (simp add: a_def n_def)
  have inv2: "\<And>j. 0 < j \<Longrightarrow> j < n \<Longrightarrow> heap_parent j = i \<Longrightarrow> 0 < i \<Longrightarrow> key (a ! heap_parent i) \<le> key (a ! j)"
    using step.prems(3) by (simp add: a_def n_def)
  have kids: "\<And>j. 0 < j \<Longrightarrow> heap_parent j = i \<longleftrightarrow> (j = l \<or> j = r)"
    by (simp add: heap_parent_cases l_def r_def)
  have m2le: "l < n \<Longrightarrow> key (a ! m2) \<le> key (a ! l)" "r < n \<Longrightarrow> key (a ! m2) \<le> key (a ! r)"
       "key (a ! m2) \<le> key (a ! i)"
    using heapify_pick_le[where obj=obj and i=i] by (auto simp: m2_def a_def n_def l_def r_def)
  show ?case
  proof (cases "m2 \<noteq> i")
    case False
    have "heap_on a n"
      unfolding heap_on_def
    proof (intro allI impI)
      fix j assume j: "0 < j \<and> j < n"
      show "key (a ! heap_parent j) \<le> key (a ! j)"
      proof (cases "heap_parent j = i")
        case True
        then have "j = l \<or> j = r" using kids j by blast
        then show ?thesis using m2le(1,2) False j True by auto
      next
        case False
        then show ?thesis using inv1 j by blast
      qed
    qed
    then show ?thesis using unf False by (simp add: heap_inv_def a_def n_def)
  next
    case True
    have m2k: "m2 = l \<or> m2 = r" and m2n: "m2 < n" and im: "i < m2" and pm: "heap_parent m2 = i"
      using True heapify_pick_cases[of obj i] by (auto simp: m2_def l_def r_def n_def)
    have lens: "i < length a" "m2 < length a" using m2n im step.prems(1) by (auto simp: a_def n_def)
    define b where "b = heap_swap a i m2"
    have nth: "\<And>j. b ! j = (if j = m2 then a ! i else if j = i then a ! m2 else a ! j)"
      unfolding b_def using lens by (simp add: heap_swap_nth)
    have A: "\<forall>j. 0 < j \<and> j < n \<and> heap_parent j \<noteq> m2 \<longrightarrow> key (b ! heap_parent j) \<le> key (b ! j)"
    proof (intro allI impI)
      fix j assume j: "0 < j \<and> j < n \<and> heap_parent j \<noteq> m2"
      show "key (b ! heap_parent j) \<le> key (b ! j)"
      proof (cases "heap_parent j = i")
        case True
        then have "j = l \<or> j = r" using kids j by blast
        then show ?thesis using m2le j True im by (auto simp: nth)
      next
        case False
        have jm: "j \<noteq> m2" using False pm by auto
        have pj: "b ! heap_parent j = a ! heap_parent j" using False j by (simp add: nth)
        show ?thesis
        proof (cases "j = i")
          case True
          then have "key (a ! heap_parent i) \<le> key (a ! m2)"
            using inv2[of m2] pm m2n im j by auto
          then show ?thesis using True pj im by (simp add: nth)
        next
          case ji: False
          then show ?thesis using inv1[of j] j False pj jm by (simp add: nth)
        qed
      qed
    qed
    have B: "\<forall>j. 0 < j \<and> j < n \<and> heap_parent j = m2 \<and> 0 < m2 \<longrightarrow> key (b ! heap_parent m2) \<le> key (b ! j)"
    proof (intro allI impI)
      fix j assume j: "0 < j \<and> j < n \<and> heap_parent j = m2 \<and> 0 < m2"
      have jgt: "m2 < j" using j heap_parent_less[of j] by auto
      have "key (a ! m2) \<le> key (a ! j)" using inv1[of j] j im by auto
      then show "key (b ! heap_parent m2) \<le> key (b ! j)"
        using pm jgt im by (simp add: nth)
    qed
    have "heap_inv (heap_heapify_min (obj\<lparr>h_arr := heap_swap a i m2\<rparr>) m2)"
      using step.IH True A B step.prems(1)
      by (simp add: m2_def a_def n_def b_def)
    then show ?thesis using unf True by simp
  qed
qed

lemma heap_on_min:
  "heap_on a n \<Longrightarrow> i < n \<Longrightarrow> key (a ! 0) \<le> key (a ! i)"
proof (induction i rule: less_induct)
  case (less i)
  show ?case
  proof (cases "i = 0")
    case True
    then show ?thesis by simp
  next
    case False
    then have p: "heap_parent i < i" by (simp add: heap_parent_less)
    have "key (a ! 0) \<le> key (a ! heap_parent i)"
      using less.IH[OF p] less.prems p by simp
    moreover have "key (a ! heap_parent i) \<le> key (a ! i)"
      using less.prems False by (simp add: heap_on_def)
    ultimately show ?thesis by simp
  qed
qed

lemma heap_insert_props:
  assumes wf: "heap_wf obj" and inv: "heap_inv obj" and ins: "heap_insert obj el = Some obj'"
  shows "heap_wf obj'" "heap_inv obj'" "h_count obj' = h_count obj + 1"
    "h_capacity obj' = h_capacity obj" "mset (heap_els obj') = add_mset el (mset (heap_els obj))"
proof -
  define n where "n = h_count obj"
  define a where "a = (h_arr obj)[n := el]"
  have lt: "n < h_capacity obj" using ins by (auto simp: heap_insert_def n_def split: if_splits)
  have len: "length (h_arr obj) = h_capacity obj" using wf by (simp add: heap_wf_def)
  have obj': "obj' = obj\<lparr>h_count := n + 1, h_arr := heap_sift_up a n\<rparr>"
    using ins lt by (simp add: heap_insert_def n_def a_def Let_def)
  show "heap_wf obj'" using lt len by (simp add: obj' heap_wf_def a_def)
  show "h_count obj' = h_count obj + 1" by (simp add: obj' n_def)
  show "h_capacity obj' = h_capacity obj" by (simp add: obj')
  have old: "\<And>j. 0 < j \<Longrightarrow> j < n \<Longrightarrow> key (h_arr obj ! heap_parent j) \<le> key (h_arr obj ! j)"
    using inv by (simp add: heap_inv_def heap_on_def n_def)
  have A: "\<forall>j. 0 < j \<and> j < n + 1 \<and> j \<noteq> n \<longrightarrow> key (a ! heap_parent j) \<le> key (a ! j)"
  proof (intro allI impI)
    fix j assume j: "0 < j \<and> j < n + 1 \<and> j \<noteq> n"
    then have "j < n" "heap_parent j < n" using heap_parent_less[of j] by auto
    then show "key (a ! heap_parent j) \<le> key (a ! j)"
      using old[of j] j by (simp add: a_def)
  qed
  have B: "\<forall>j. 0 < j \<and> j < n + 1 \<and> heap_parent j = n \<and> 0 < n \<longrightarrow> key (a ! heap_parent n) \<le> key (a ! j)"
  proof (intro allI impI)
    fix j assume j: "0 < j \<and> j < n + 1 \<and> heap_parent j = n \<and> 0 < n"
    then show "key (a ! heap_parent n) \<le> key (a ! j)"
      using heap_parent_less[of j] by auto
  qed
  have "heap_on (heap_sift_up a n) (n + 1)"
    using A B lt len by (intro heap_sift_up_on) (auto simp: a_def)
  then show "heap_inv obj'" by (simp add: obj' heap_inv_def)
  have "mset (take (n + 1) (heap_sift_up a n)) = mset (take (n + 1) a)"
    using lt len by (intro heap_sift_up_mset) (auto simp: a_def)
  also have "take (n + 1) a = take n (h_arr obj) @ [el]"
    using lt len by (simp add: a_def take_Suc_conv_app_nth)
  finally show "mset (heap_els obj') = add_mset el (mset (heap_els obj))"
    by (simp add: obj' heap_els_def n_def)
qed

lemma heap_insert_Some:
  "h_count obj < h_capacity obj \<Longrightarrow> \<exists>obj'. heap_insert obj el = Some obj'"
  by (simp add: heap_insert_def Let_def)

lemma heap_pop_Some:
  "0 < h_count obj \<Longrightarrow> \<exists>obj' el. heap_pop obj = Some (obj', el)"
  by (simp add: heap_pop_def Let_def)

lemma heap_pop_props:
  assumes wf: "heap_wf obj" and inv: "heap_inv obj" and pop: "heap_pop obj = Some (obj', el)"
  shows "heap_wf obj'" "heap_inv obj'" "h_count obj' = h_count obj - 1"
    "h_capacity obj' = h_capacity obj" "mset (heap_els obj) = add_mset el (mset (heap_els obj'))"
    "\<forall>x \<in> set (heap_els obj). key el \<le> key x" "el = h_arr obj ! 0"
proof -
  define n where "n = h_count obj"
  define a where "a = (h_arr obj)[0 := h_arr obj ! (n - 1)]"
  define obj2 where "obj2 = obj\<lparr>h_arr := a, h_count := n - 1\<rparr>"
  have pos: "0 < n" using pop by (auto simp: heap_pop_def n_def split: if_splits)
  have len: "length (h_arr obj) = h_capacity obj" "n \<le> h_capacity obj"
    using wf by (simp_all add: heap_wf_def n_def)
  have res: "obj' = heap_heapify_min obj2 0" "el = h_arr obj ! 0"
    using pop pos by (simp_all add: heap_pop_def n_def a_def obj2_def Let_def)
  show "el = h_arr obj ! 0" by (rule res)
  have f: "h_count obj' = n - 1" "h_capacity obj' = h_capacity obj"
      "length (h_arr obj') = length (h_arr obj)"
    using heap_heapify_min_fields[of obj2 0] by (simp_all add: res obj2_def a_def)
  show "heap_wf obj'" using f len by (simp add: heap_wf_def)
  show "h_count obj' = h_count obj - 1" using f by (simp add: n_def)
  show "h_capacity obj' = h_capacity obj" using f by simp
  have old: "\<And>j. 0 < j \<Longrightarrow> j < n \<Longrightarrow> key (h_arr obj ! heap_parent j) \<le> key (h_arr obj ! j)"
    using inv by (simp add: heap_inv_def heap_on_def n_def)
  have "heap_inv (heap_heapify_min obj2 0)"
  proof (rule heap_heapify_min_on)
    show "h_count obj2 \<le> length (h_arr obj2)" using len by (simp add: obj2_def a_def)
    show "\<forall>j. 0 < j \<and> j < h_count obj2 \<and> heap_parent j \<noteq> 0 \<longrightarrow>
           key (h_arr obj2 ! heap_parent j) \<le> key (h_arr obj2 ! j)"
      using old by (auto simp: obj2_def a_def)
    show "\<forall>j. 0 < j \<and> j < h_count obj2 \<and> heap_parent j = 0 \<and> 0 < (0::nat) \<longrightarrow>
           key (h_arr obj2 ! heap_parent 0) \<le> key (h_arr obj2 ! j)"
      by simp
  qed
  then show "heap_inv obj'" by (simp add: res)
  have els2: "mset (heap_els obj') = mset (heap_els obj2)"
  proof (cases "n - 1 = 0")
    case True
    then show ?thesis using f by (simp add: heap_els_def obj2_def)
  next
    case False
    then show ?thesis unfolding res
      using len by (intro heap_heapify_min_mset) (auto simp: obj2_def a_def)
  qed
  have split: "take n (h_arr obj) = take (n - 1) (h_arr obj) @ [h_arr obj ! (n - 1)]"
    using pos len take_Suc_conv_app_nth[of "n - 1" "h_arr obj"] by simp
  show "mset (heap_els obj) = add_mset el (mset (heap_els obj'))"
  proof (cases "n - 1 = 0")
    case True
    then have "n = 1" using pos by simp
    then show ?thesis using els2 split by (simp add: heap_els_def obj2_def res n_def[symmetric])
  next
    case False
    have "take (n - 1) a = (take (n - 1) (h_arr obj))[0 := h_arr obj ! (n - 1)]"
      by (simp add: a_def take_update_swap)
    moreover have "0 < length (take (n - 1) (h_arr obj))" using False len by simp
    moreover have "take (n - 1) (h_arr obj) ! 0 = h_arr obj ! 0" using False by simp
    ultimately have "mset (take (n - 1) a) =
        add_mset (h_arr obj ! (n - 1)) (mset (take (n - 1) (h_arr obj)) - {#h_arr obj ! 0#})"
      by (simp add: mset_update)
    moreover have "h_arr obj ! 0 \<in># mset (take (n - 1) (h_arr obj))"
      using False len by (metis \<open>0 < length (take (n - 1) (h_arr obj))\<close>
          \<open>take (n - 1) (h_arr obj) ! 0 = h_arr obj ! 0\<close> nth_mem set_mset_mset)
    ultimately show ?thesis
      using els2 split by (simp add: heap_els_def obj2_def res n_def[symmetric])
  qed
  show "\<forall>x \<in> set (heap_els obj). key el \<le> key x"
  proof
    fix x assume "x \<in> set (heap_els obj)"
    then obtain i where i: "i < n" "x = h_arr obj ! i"
      using len by (auto simp: heap_els_def in_set_conv_nth n_def)
    then show "key el \<le> key x"
      using heap_on_min[of "h_arr obj" n i] inv by (simp add: res heap_inv_def n_def)
  qed
qed

text \<open>
  Claim C5. On a well-formed heap that satisfies the min-heap invariant, \<open>heap_insert\<close>
  (when \<open>count < capacity\<close>) and \<open>heap_pop\<close> (when \<open>count > 0\<close>) pass their
  assertion and return a well-formed heap that satisfies the invariant again; the element
  \<open>heap_pop\<close> returns is one of the stored elements and its key is least among the
  keys stored.
\<close>

theorem heap_insert_pop_invariant:
  assumes "heap_wf obj" and "heap_inv obj"
  shows "(h_count obj < h_capacity obj \<longrightarrow>
            (\<exists>obj'. heap_insert obj el = Some obj' \<and> heap_wf obj' \<and> heap_inv obj'))
       \<and> (0 < h_count obj \<longrightarrow>
            (\<exists>obj' e. heap_pop obj = Some (obj', e) \<and> heap_wf obj' \<and> heap_inv obj'
                \<and> e \<in> set (heap_els obj)
                \<and> (\<forall>x \<in> set (heap_els obj). key e \<le> key x)))"
proof (intro conjI impI)
  assume "h_count obj < h_capacity obj"
  then obtain obj' where ins: "heap_insert obj el = Some obj'"
    using heap_insert_Some by blast
  then show "\<exists>obj'. heap_insert obj el = Some obj' \<and> heap_wf obj' \<and> heap_inv obj'"
    using heap_insert_props(1,2)[OF assms ins] by blast
next
  assume pos: "0 < h_count obj"
  then obtain obj' e where pop: "heap_pop obj = Some (obj', e)"
    using heap_pop_Some by blast
  have "e \<in> set (heap_els obj)"
    using heap_pop_props(7)[OF assms pop] pos assms(1)
    by (auto simp: heap_els_def heap_wf_def in_set_conv_nth intro!: exI[of _ 0])
  then show "\<exists>obj' e. heap_pop obj = Some (obj', e) \<and> heap_wf obj' \<and> heap_inv obj'
                \<and> e \<in> set (heap_els obj) \<and> (\<forall>x \<in> set (heap_els obj). key e \<le> key x)"
    using heap_pop_props(1,2,6)[OF assms pop] pop by blast
qed

theorem heap_insert_pop_invariant_witness:
  "heap_wf \<lparr>h_capacity = 3, h_count = 2,
            h_arr = [\<lparr>key = 1, idx = 0\<rparr>, \<lparr>key = 5, idx = 1\<rparr>, \<lparr>key = 0, idx = 0\<rparr>]\<rparr>
   \<and> heap_inv \<lparr>h_capacity = 3, h_count = 2,
            h_arr = [\<lparr>key = 1, idx = 0\<rparr>, \<lparr>key = 5, idx = 1\<rparr>, \<lparr>key = 0, idx = 0\<rparr>]\<rparr>
   \<and> (\<exists>obj'. heap_insert \<lparr>h_capacity = 3, h_count = 2,
            h_arr = [\<lparr>key = 1, idx = 0\<rparr>, \<lparr>key = 5, idx = 1\<rparr>, \<lparr>key = 0, idx = 0\<rparr>]\<rparr>
            \<lparr>key = 0, idx = 2\<rparr> = Some obj' \<and> heap_wf obj' \<and> heap_inv obj')
   \<and> (\<exists>obj' e. heap_pop \<lparr>h_capacity = 3, h_count = 2,
            h_arr = [\<lparr>key = 1, idx = 0\<rparr>, \<lparr>key = 5, idx = 1\<rparr>, \<lparr>key = 0, idx = 0\<rparr>]\<rparr>
            = Some (obj', e) \<and> heap_wf obj' \<and> heap_inv obj' \<and> key e = 1)"
proof -
  define obj where "obj = \<lparr>h_capacity = 3, h_count = 2,
            h_arr = [\<lparr>key = 1, idx = 0\<rparr>, \<lparr>key = 5, idx = 1\<rparr>, \<lparr>key = 0, idx = 0\<rparr>]\<rparr>"
  have wf: "heap_wf obj" by (simp add: obj_def heap_wf_def)
  have inv: "heap_inv obj"
    by (auto simp: obj_def heap_inv_def heap_on_def heap_parent_def less_Suc_eq numeral_2_eq_2)
  have c: "h_count obj < h_capacity obj" "0 < h_count obj" by (simp_all add: obj_def)
  have e: "key e = 1" if "heap_pop obj = Some (obj', e)" for obj' e
    using that by (auto simp: heap_pop_def obj_def Let_def)
  note main = heap_insert_pop_invariant[OF wf inv, of "\<lparr>key = 0, idx = 2\<rparr>"]
  obtain o1 where o1: "heap_insert obj \<lparr>key = 0, idx = 2\<rparr> = Some o1" "heap_wf o1" "heap_inv o1"
    using main c by blast
  obtain o2 e2 where o2: "heap_pop obj = Some (o2, e2)" "heap_wf o2" "heap_inv o2"
    using main c by blast
  have "key e2 = 1" using e o2(1) by simp
  then show ?thesis
    unfolding obj_def[symmetric] using wf inv o1 o2 by blast
qed

section \<open>Parallel merge sort (src/algo/pmsort.c)\<close>

text \<open>
  The array is an \<open>int list\<close> that may be longer than the part being sorted (the caller
  passes the chunk buffer and the number of cells in use). Indices are \<open>size_t\<close> in the
  source and \<open>nat\<close> here. An index outside the array is undefined behaviour in C and the
  value \<open>None\<close> here, as is a failed assertion. Memory for the scratch arrays is taken to
  be available (\<open>xmalloc\<close> ends the process otherwise).

  \<open>pmsort_merge\<close>: the first \<^verbatim>\<open>while\<close> loop picks from \<open>left_array\<close> and \<open>right_array\<close>,
  the two loops after it copy what is left of either.
\<close>

function pmsort_merge_pick ::
  "int list \<Rightarrow> nat \<Rightarrow> int list \<Rightarrow> int list \<Rightarrow> nat \<Rightarrow> nat \<Rightarrow> nat \<Rightarrow> int list \<times> nat \<times> nat \<times> nat" where
  "pmsort_merge_pick arr left left_array right_array i j k =
     (if i < length left_array \<and> j < length right_array
      then (if left_array ! i \<le> right_array ! j
            then pmsort_merge_pick (arr[left + k := left_array ! i]) left left_array right_array
                   (i + 1) j (k + 1)
            else pmsort_merge_pick (arr[left + k := right_array ! j]) left left_array right_array
                   i (j + 1) (k + 1))
      else (arr, i, j, k))"
  by pat_completeness auto
termination
  by (relation "measure (\<lambda>(arr, left, la, ra, i, j, k). (length la - i) + (length ra - j))") auto

declare pmsort_merge_pick.simps [simp del]

function pmsort_merge_rest :: "int list \<Rightarrow> nat \<Rightarrow> int list \<Rightarrow> nat \<Rightarrow> nat \<Rightarrow> int list \<times> nat" where
  "pmsort_merge_rest arr left src i k =
     (if i < length src
      then pmsort_merge_rest (arr[left + k := src ! i]) left src (i + 1) (k + 1)
      else (arr, k))"
  by pat_completeness auto
termination
  by (relation "measure (\<lambda>(arr, left, src, i, k). length src - i)") auto

declare pmsort_merge_rest.simps [simp del]

text \<open>
  \<open>left_length = middle - left + 1\<close> and \<open>right_length = right - middle\<close> are unsigned
  in C. Every caller passes \<open>left \<le> middle \<le> right\<close>; outside of that the subtractions
  wrap and the copies leave the array, so the model answers \<open>None\<close>.
\<close>

definition pmsort_merge :: "int list \<Rightarrow> nat \<Rightarrow> nat \<Rightarrow> nat \<Rightarrow> int list option" where
  "pmsort_merge arr left middle right =
     (if left \<le> middle \<and> middle \<le> right \<and> right < length arr
      then (let left_length = middle - left + 1;
                right_length = right - middle;
                left_array = take left_length (drop left arr);
                right_array = take right_length (drop (middle + 1) arr);
                (arr1, i, j, k) = pmsort_merge_pick arr left left_array right_array 0 0 0;
                (arr2, k2) = pmsort_merge_rest arr1 left left_array i k;
                (arr3, k3) = pmsort_merge_rest arr2 left right_array j k2
            in Some arr3)
      else None)"

function pmsort_merge_sort :: "int list \<Rightarrow> nat \<Rightarrow> nat \<Rightarrow> int list option" where
  "pmsort_merge_sort arr left right =
     (if left < right
      then (let middle = left + (right - left) div 2
            in do {
              arr1 \<leftarrow> pmsort_merge_sort arr left middle;
              arr2 \<leftarrow> pmsort_merge_sort arr1 (middle + 1) right;
              pmsort_merge arr2 left middle right
            })
      else Some arr)"
  by pat_completeness auto
termination
  by (relation "measure (\<lambda>(arr, left, right). right - left)") auto

declare pmsort_merge_sort.simps [simp del]

text \<open>
  \<^verbatim>\<open>struct pmsort\<close>, without the pointer to the array (the array is passed along).
\<close>

record pmsort =
  p_len :: nat
  p_num_threads :: nat
  p_npt :: nat
  p_offset :: nat

text \<open>
  The \<^verbatim>\<open>for\<close> loop of \<open>pmsort_merge_array_sections\<close>, then the function itself. The
  subtractions \<open>\<dots> - 1\<close> are on values that are at least 1 whenever \<open>npt\<close>,
  \<open>aggregation\<close> and \<open>len\<close> are, which \<open>pmsort_sort\<close> ensures.
\<close>

function pmsort_sections_loop :: "pmsort \<Rightarrow> int list \<Rightarrow> nat \<Rightarrow> nat \<Rightarrow> nat \<Rightarrow> int list option" where
  "pmsort_sections_loop obj arr number aggregation i =
     (if i < number
      then (let left = i * (p_npt obj * aggregation);
                right = ((i + 2) * p_npt obj * aggregation) - 1;
                middle = left + (p_npt obj * aggregation) - 1;
                right = (if right \<ge> p_len obj then p_len obj - 1 else right)
            in do {
              arr1 \<leftarrow> pmsort_merge arr left middle right;
              pmsort_sections_loop obj arr1 number aggregation (i + 2)
            })
      else Some arr)"
  by pat_completeness auto
termination
  by (relation "measure (\<lambda>(obj, arr, number, aggregation, i). number - i)") auto

declare pmsort_sections_loop.simps [simp del]

function pmsort_merge_array_sections :: "pmsort \<Rightarrow> int list \<Rightarrow> nat \<Rightarrow> nat \<Rightarrow> int list option" where
  "pmsort_merge_array_sections obj arr number aggregation =
     do {
       arr1 \<leftarrow> pmsort_sections_loop obj arr number aggregation 0;
       if number div 2 \<ge> 1
       then pmsort_merge_array_sections obj arr1 (number div 2) (aggregation * 2)
       else Some arr1
     }"
  by pat_completeness auto
termination
  by (relation "measure (\<lambda>(obj, arr, number, aggregation). number)") auto

declare pmsort_merge_array_sections.simps [simp del]

definition pmsort_thread_merge_sort :: "pmsort \<Rightarrow> int list \<Rightarrow> nat \<Rightarrow> int list option" where
  "pmsort_thread_merge_sort obj arr thread_id =
     (let left = thread_id * p_npt obj;
          right = (thread_id + 1) * p_npt obj - 1;
          right = (if thread_id = p_num_threads obj - 1 then right + p_offset obj else right);
          middle = left + (right - left) div 2
      in if left < right
         then do {
           arr1 \<leftarrow> pmsort_merge_sort arr left right;
           arr2 \<leftarrow> pmsort_merge_sort arr1 (left + 1) right;
           pmsort_merge arr2 left middle right
         }
         else Some arr)"

text \<open>
  The workers are created for the thread ids \<open>0, \<dots>, num_threads - 1\<close> and joined before
  the cascade starts. Worker \<open>i\<close> reads and writes the cells from \<open>i * npt\<close> to
  \<open>(i + 1) * npt - 1\<close> (the last one \<open>offset\<close> cells more) and no others, so running them
  one after the other gives the array the joined threads leave.
\<close>

fun pmsort_run_threads :: "pmsort \<Rightarrow> int list \<Rightarrow> nat list \<Rightarrow> int list option" where
  "pmsort_run_threads obj arr [] = Some arr"
| "pmsort_run_threads obj arr (thread_id # ids) =
     do {
       arr1 \<leftarrow> pmsort_thread_merge_sort obj arr thread_id;
       pmsort_run_threads obj arr1 ids
     }"

definition pmsort_sort :: "int list \<Rightarrow> nat \<Rightarrow> nat \<Rightarrow> int list option" where
  "pmsort_sort arr len num_threads =
     (if \<not> (len > 0 \<and> num_threads > 0) then None
      else if len = 1 then Some arr
      else (let num_threads = (if num_threads > len then len else num_threads);
                obj = \<lparr>p_len = len, p_num_threads = num_threads,
                       p_npt = len div num_threads, p_offset = len mod num_threads\<rparr>
            in do {
              arr1 \<leftarrow> (if num_threads = 1 then pmsort_thread_merge_sort obj arr 0
                       else pmsort_run_threads obj arr [0..<num_threads]);
              pmsort_merge_array_sections obj arr1 num_threads 1
            }))"

subsection \<open>The cascade can leave the tail out\<close>

text \<open>
  Claim C3 says that \<open>pmsort_sort\<close> leaves \<open>buf[0..len)\<close> sorted for every \<open>len \<ge> 1\<close> and
  every thread count \<open>\<ge> 1\<close>. With \<open>len = 5\<close> and three threads, \<open>npt = 1\<close> and
  \<open>offset = 2\<close>: the third worker sorts cells 2 to 4, the first pass of the cascade merges
  cells 0 to 1 and cells 2 to 3 (its right boundary 3 is below \<open>len\<close>, so it is not
  clamped), the second and last pass merges cells 0 to 3, and cell 4 is never merged with
  the rest. The run below ends with an array that is not sorted.
\<close>

theorem pmsort_sort_three_threads_unsorted:
  "pmsort_sort [5, 4, 3, 2, 1] 5 3 = Some [1, 2, 4, 5, 3] \<and> \<not> sorted [1, 2, 4, 5, 3 :: int]"
  by (rule conjI, code_simp, simp)

section \<open>K-way merge of files (src/algo/kmerge.c)\<close>

subsection \<open>Stage arithmetic\<close>

text \<open>
  \<^verbatim>\<open>#define NMERGE 16UL\<close>. \<open>logn\<close> is in src/tools.c: \<^verbatim>\<open>log(x) / log(base)\<close>.

  Both functions compute in \<^verbatim>\<open>double\<close>. The model computes in the reals. For
  \<open>kmerge_calc_stage_files\<close> that is exact as long as \<open>fcount\<close> is below \<open>2^53\<close>: the
  conversion of \<open>fcount\<close>, the power of 16 and the division by a power of two are exact
  in binary floating point. For \<open>kmerge_calc_stages\<close> the rounding of the C library's
  \<^verbatim>\<open>log\<close> is outside the model.
\<close>

definition NMERGE :: nat where
  "NMERGE = 16"

definition logn :: "real \<Rightarrow> real \<Rightarrow> real" where
  "logn x base = ln x / ln base"

definition kmerge_calc_stages :: "nat \<Rightarrow> nat" where
  "kmerge_calc_stages fcount = nat \<lceil>logn (real fcount) (real NMERGE)\<rceil>"

definition kmerge_calc_stage_files :: "nat \<Rightarrow> nat \<Rightarrow> nat" where
  "kmerge_calc_stage_files fcount stage =
     (if stage = 0 then fcount
      else nat \<lceil>real fcount / (real NMERGE) ^ stage\<rceil>)"

text \<open>Division of naturals rounded up, to state \<open>\<lceil>F / K\<rceil>\<close> without the reals.\<close>

definition ceil_div :: "nat \<Rightarrow> nat \<Rightarrow> nat" where
  "ceil_div a b = (a + b - 1) div b"

subsection \<open>Stage arithmetic: the numbers of files and of stages\<close>

lemma ceil_div_le_iff: "0 < b \<Longrightarrow> ceil_div a b \<le> k \<longleftrightarrow> a \<le> k * b"
proof -
  assume b: "0 < b"
  have "ceil_div a b \<le> k \<longleftrightarrow> (a + b - 1) div b < Suc k" by (auto simp: ceil_div_def less_Suc_eq_le)
  also have "\<dots> \<longleftrightarrow> a + b - 1 < Suc k * b" using b by (simp only: div_less_iff_less_mult)
  also have "\<dots> \<longleftrightarrow> a \<le> k * b" using b by auto
  finally show ?thesis .
qed

lemma ceil_div_ceiling:
  assumes "0 < b"
  shows "int (ceil_div a b) = \<lceil>real a / real b\<rceil>"
proof -
  define q where "q = ceil_div a b"
  have up: "a \<le> q * b" using ceil_div_le_iff[OF assms, of a q] by (simp add: q_def)
  have lo: "q * b < a + b"
  proof (cases q)
    case 0
    then show ?thesis using assms by simp
  next
    case (Suc k)
    then have "\<not> ceil_div a b \<le> k" by (simp add: q_def)
    then have "k * b < a" using ceil_div_le_iff[OF assms, of a k] by simp
    then show ?thesis using Suc by simp
  qed
  have "\<lceil>real a / real b\<rceil> = int q"
  proof (rule ceiling_unique)
    have "real (q * b) < real (a + b)" using lo by (simp only: of_nat_less_iff)
    then have "(real q - 1) * real b < real a" by (simp add: algebra_simps)
    then show "of_int (int q) - 1 < real a / real b"
      using assms by (simp add: pos_less_divide_eq)
    have "real a \<le> real (q * b)" using up by (simp only: of_nat_le_iff)
    then show "real a / real b \<le> of_int (int q)"
      using assms by (simp add: pos_divide_le_eq)
  qed
  then show ?thesis by (simp add: q_def)
qed

lemma ceil_div_ceil_div:
  assumes "0 < b" "0 < c"
  shows "ceil_div (ceil_div a b) c = ceil_div a (b * c)"
proof (rule antisym)
  have "a \<le> ceil_div a (b * c) * (b * c)"
    using ceil_div_le_iff[of "b * c" a "ceil_div a (b * c)"] assms by simp
  then have "ceil_div a b \<le> ceil_div a (b * c) * c"
    using ceil_div_le_iff[OF assms(1), of a "ceil_div a (b * c) * c"] by (simp add: ac_simps)
  then show "ceil_div (ceil_div a b) c \<le> ceil_div a (b * c)"
    using ceil_div_le_iff[OF assms(2)] by simp
next
  have "ceil_div a b \<le> ceil_div (ceil_div a b) c * c"
    using ceil_div_le_iff[OF assms(2), of "ceil_div a b" "ceil_div (ceil_div a b) c"] by simp
  then have "a \<le> ceil_div (ceil_div a b) c * c * b"
    using ceil_div_le_iff[OF assms(1), of a "ceil_div (ceil_div a b) c * c"] by simp
  then show "ceil_div a (b * c) \<le> ceil_div (ceil_div a b) c"
    using ceil_div_le_iff[of "b * c" a "ceil_div (ceil_div a b) c"] assms by (simp add: ac_simps)
qed

lemma kmerge_calc_stage_files_ceil_div:
  "kmerge_calc_stage_files fcount stage = ceil_div fcount (NMERGE ^ stage)"
proof (cases "stage = 0")
  case True
  then show ?thesis by (simp add: kmerge_calc_stage_files_def ceil_div_def)
next
  case False
  have "int (ceil_div fcount (NMERGE ^ stage)) = \<lceil>real fcount / real (NMERGE ^ stage)\<rceil>"
    by (rule ceil_div_ceiling) (simp add: NMERGE_def)
  then show ?thesis using False by (simp add: kmerge_calc_stage_files_def)
qed

lemma kmerge_calc_stages_log:
  "kmerge_calc_stages fcount = nat \<lceil>log 16 (real fcount)\<rceil>"
  by (simp add: kmerge_calc_stages_def logn_def NMERGE_def log_def)

lemma kmerge_calc_stages_upper:
  "fcount \<le> NMERGE ^ kmerge_calc_stages fcount"
proof -
  have "real fcount \<le> 16 ^ nat \<lceil>log 16 (real fcount)\<rceil>"
    by (rule power_of_nat_log_ge) simp
  then have "real fcount \<le> real (16 ^ kmerge_calc_stages fcount)"
    by (simp add: kmerge_calc_stages_log)
  then show ?thesis by (simp only: of_nat_le_iff NMERGE_def)
qed

lemma kmerge_calc_stages_lower:
  assumes "1 \<le> fcount" "s < kmerge_calc_stages fcount"
  shows "NMERGE ^ s < fcount"
proof -
  have "int s < \<lceil>log 16 (real fcount)\<rceil>"
    using assms(2) by (simp add: kmerge_calc_stages_log)
  then have "real s < log 16 (real fcount)" by (simp add: less_ceiling_iff)
  then have "16 powr (real s) < real fcount"
    using assms(1) by (simp add: less_log_iff)
  then have "real (16 ^ s) < real fcount" by (simp add: powr_realpow)
  then show ?thesis by (simp only: of_nat_less_iff NMERGE_def)
qed

lemma kmerge_last_stage_one_file:
  assumes "1 \<le> fcount"
  shows "kmerge_calc_stage_files fcount (kmerge_calc_stages fcount) = 1"
proof -
  have pos: "0 < NMERGE ^ kmerge_calc_stages fcount" by (simp add: NMERGE_def)
  have "ceil_div fcount (NMERGE ^ kmerge_calc_stages fcount) \<le> 1"
    using ceil_div_le_iff[OF pos, of fcount 1] kmerge_calc_stages_upper by simp
  moreover have "\<not> ceil_div fcount (NMERGE ^ kmerge_calc_stages fcount) \<le> 0"
    using ceil_div_le_iff[OF pos, of fcount 0] assms by simp
  ultimately show ?thesis by (simp add: kmerge_calc_stage_files_ceil_div)
qed

lemma kmerge_calc_stage_files_Suc:
  "kmerge_calc_stage_files fcount (Suc stage) =
     ceil_div (kmerge_calc_stage_files fcount stage) NMERGE"
  by (simp add: kmerge_calc_stage_files_ceil_div ceil_div_ceil_div NMERGE_def mult.commute)



subsection \<open>Stage arithmetic, executable\<close>

text \<open>
  The stage count without logarithms, for evaluation: one stage more than for a
  sixteenth of the files.
\<close>

lemma kmerge_calc_stages_least:
  assumes "1 \<le> fcount" "fcount \<le> NMERGE ^ S" "\<And>t. t < S \<Longrightarrow> NMERGE ^ t < fcount"
  shows "kmerge_calc_stages fcount = S"
proof (rule antisym)
  show "kmerge_calc_stages fcount \<le> S"
  proof (rule ccontr)
    assume "\<not> kmerge_calc_stages fcount \<le> S"
    then have "S < kmerge_calc_stages fcount" by simp
    then have "NMERGE ^ S < fcount" by (rule kmerge_calc_stages_lower[OF assms(1)])
    then show False using assms(2) by simp
  qed
  show "S \<le> kmerge_calc_stages fcount"
  proof (rule ccontr)
    assume "\<not> S \<le> kmerge_calc_stages fcount"
    then have "NMERGE ^ kmerge_calc_stages fcount < fcount" using assms(3) by simp
    then show False using kmerge_calc_stages_upper[of fcount] by simp
  qed
qed

lemma kmerge_calc_stages_code [code]:
  "kmerge_calc_stages fcount =
     (if fcount \<le> 1 then 0 else Suc (kmerge_calc_stages (ceil_div fcount NMERGE)))"
proof (cases "fcount \<le> 1")
  case True
  then have "fcount = 0 \<or> fcount = 1" by auto
  then show ?thesis by (auto simp: kmerge_calc_stages_def logn_def)
next
  case False
  define g where "g = ceil_div fcount NMERGE"
  define T where "T = kmerge_calc_stages g"
  have N: "0 < NMERGE" by (simp add: NMERGE_def)
  have g1: "1 \<le> g"
  proof -
    have "\<not> g \<le> 0" using ceil_div_le_iff[OF N, of fcount 0] False by (simp add: g_def)
    then show ?thesis by simp
  qed
  have up: "g \<le> NMERGE ^ T" unfolding T_def by (rule kmerge_calc_stages_upper)
  have lo: "\<And>t. t < T \<Longrightarrow> NMERGE ^ t < g"
    unfolding T_def by (rule kmerge_calc_stages_lower[OF g1])
  have "kmerge_calc_stages fcount = Suc T"
  proof (rule kmerge_calc_stages_least)
    show "1 \<le> fcount" using False by simp
    show "fcount \<le> NMERGE ^ Suc T"
      using ceil_div_le_iff[OF N, of fcount "NMERGE ^ T"] up by (simp add: g_def mult.commute)
    fix t assume t: "t < Suc T"
    show "NMERGE ^ t < fcount"
    proof (cases t)
      case 0
      then show ?thesis using False by simp
    next
      case (Suc u)
      then have "NMERGE ^ u < g" using lo t by simp
      then have "\<not> ceil_div fcount NMERGE \<le> NMERGE ^ u" by (simp add: g_def)
      then have "\<not> fcount \<le> NMERGE ^ u * NMERGE" using ceil_div_le_iff[OF N] by simp
      then show ?thesis using Suc by (simp add: mult.commute)
    qed
  qed
  then show ?thesis using False by (simp add: T_def g_def)
qed

declare kmerge_calc_stage_files_ceil_div [code]

subsection \<open>Files, streams and the shared buffer\<close>

text \<open>
  A temporary file \<^verbatim>\<open>{tmpdir}/{stage}_{num}\<close> is named by the pair \<open>(stage, num)\<close> and holds
  a sequence of \<^verbatim>\<open>int32_t\<close>. The temporary directory is a partial map from names to
  contents, together with the number of items its device still accepts: an \<^verbatim>\<open>fwrite\<close>
  of more items than that writes only as many (a short write). Reading never fails
  other than by reaching the end of the file. A file open for reading is the list of
  items not read yet; a file open for writing is the list of items written so far, put
  into the directory when the file is closed.

  The buffer shared by all blocks is one \<open>int list\<close>; a block records where it starts
  in that buffer. \<open>fread\<close> and \<open>fwrite\<close> move items between a stream and a range of the
  buffer; a range that leaves the buffer is undefined behaviour (\<open>None\<close>).
\<close>

record disk =
  d_files :: "nat \<times> nat \<Rightarrow> int list option"
  d_room :: nat

definition fread :: "int list \<Rightarrow> nat \<Rightarrow> nat \<Rightarrow> int list \<Rightarrow> (nat \<times> int list \<times> int list) option" where
  "fread buf off nmemb stream =
     (let items = take nmemb stream;
          n = length items
      in if off + n \<le> length buf
         then Some (n, take off buf @ items @ drop (off + n) buf, drop nmemb stream)
         else None)"

definition fwrite :: "int list \<Rightarrow> nat \<Rightarrow> nat \<Rightarrow> int list \<Rightarrow> nat \<Rightarrow> (nat \<times> int list \<times> nat) option" where
  "fwrite buf off nmemb file room =
     (if off + nmemb \<le> length buf
      then (let n = min nmemb room
            in Some (n, file @ take n (drop off buf), room - n))
      else None)"

text \<open>
  \<^verbatim>\<open>struct merge_block\<close>: \<open>b_buf\<close> is the start of the block in the shared buffer
  (\<^verbatim>\<open>obj.buf + i * bs\<close> in the source).
\<close>

record merge_block =
  b_buf :: nat
  b_size :: nat
  b_count :: nat
  b_pos :: nat

text \<open>
  \<^verbatim>\<open>struct merge\<close> (the singleton \<open>obj\<close>), without the two path names: the directory is
  the \<open>disk\<close>, and the name of the merged file is what \<open>kmerge_merge\<close> returns.
\<close>

record merge =
  m_fcount :: nat
  m_buf :: "int list"
  m_buf_nmemb :: nat
  m_queue :: heap

text \<open>
  What \<open>kmerge_merge_blocks\<close> works on: the queue and the buffer of \<open>obj\<close>, the
  \<open>NMERGE + 1\<close> blocks, the input streams \<open>fs\<close>, the output stream \<open>fout\<close> and the room
  left on the device.
\<close>

record mstate =
  ms_queue :: heap
  ms_buf :: "int list"
  ms_blocks :: "merge_block list"
  ms_fs :: "int list list"
  ms_fout :: "int list"
  ms_room :: nat

subsection \<open>Merging the blocks of one group\<close>

text \<open>\<^verbatim>\<open>out->buf[out->pos++] = el.key\<close>, with \<open>out = &blocks[NMERGE]\<close>.\<close>

definition merge_out_put :: "mstate \<Rightarrow> int \<Rightarrow> mstate option" where
  "merge_out_put st k =
     (if NMERGE < length (ms_blocks st)
      then (let out = ms_blocks st ! NMERGE
            in if b_buf out + b_pos out < length (ms_buf st)
               then Some (st\<lparr>ms_buf := (ms_buf st)[b_buf out + b_pos out := k],
                              ms_blocks := (ms_blocks st)[NMERGE := out\<lparr>b_pos := b_pos out + 1\<rparr>]\<rparr>)
               else None)
      else None)"

text \<open>
  \<^verbatim>\<open>nwrite = fwrite(out->buf, sizeof(int32_t), out->pos, fout); if (nwrite != out->pos)
  return false; out->pos = 0\<close>: the result \<open>False\<close> is the early \<^verbatim>\<open>return false\<close>.
\<close>

definition merge_out_flush :: "mstate \<Rightarrow> (bool \<times> mstate) option" where
  "merge_out_flush st =
     (if NMERGE < length (ms_blocks st)
      then (let out = ms_blocks st ! NMERGE
            in do {
              (nwrite, file, room) \<leftarrow> fwrite (ms_buf st) (b_buf out) (b_pos out) (ms_fout st) (ms_room st);
              let st1 = st\<lparr>ms_fout := file, ms_room := room\<rparr>
              in if nwrite \<noteq> b_pos out
                 then Some (False, st1)
                 else Some (True, st1\<lparr>ms_blocks := (ms_blocks st1)[NMERGE := out\<lparr>b_pos := 0\<rparr>]\<rparr>)
            })
      else None)"

text \<open>
  \<^verbatim>\<open>b = &blocks[el.idx]\<close> and the three cases after it: the file is read to its end, the
  block has another item, or the block is used up and the next one is read.
\<close>

definition merge_next :: "mstate \<Rightarrow> heap_el \<Rightarrow> mstate option" where
  "merge_next st el =
     (if idx el < length (ms_blocks st)
      then (let b = ms_blocks st ! idx el
            in if b_count b = 0 then Some st
               else if b_pos b < b_count b
               then (if b_buf b + b_pos b < length (ms_buf st)
                     then do {
                       q \<leftarrow> heap_insert (ms_queue st) (el\<lparr>key := ms_buf st ! (b_buf b + b_pos b)\<rparr>);
                       Some (st\<lparr>ms_queue := q,
                                ms_blocks := (ms_blocks st)[idx el := b\<lparr>b_pos := b_pos b + 1\<rparr>]\<rparr>)
                     }
                     else None)
               else (if idx el < length (ms_fs st)
                     then do {
                       (n, buf, f) \<leftarrow> fread (ms_buf st) (b_buf b) (b_size b) (ms_fs st ! idx el);
                       let b1 = b\<lparr>b_count := n, b_pos := 0\<rparr>;
                           st1 = st\<lparr>ms_buf := buf, ms_fs := (ms_fs st)[idx el := f]\<rparr>
                       in if b_count b1 > 0
                          then (if b_buf b1 + b_pos b1 < length buf
                                then do {
                                  q \<leftarrow> heap_insert (ms_queue st1) (el\<lparr>key := buf ! (b_buf b1 + b_pos b1)\<rparr>);
                                  Some (st1\<lparr>ms_queue := q,
                                            ms_blocks := (ms_blocks st1)[idx el := b1\<lparr>b_pos := b_pos b1 + 1\<rparr>]\<rparr>)
                                }
                                else None)
                          else Some (st1\<lparr>ms_blocks := (ms_blocks st1)[idx el := b1]\<rparr>)
                     }
                     else None))
      else None)"

text \<open>
  One round of the \<^verbatim>\<open>while (!heap_empty(obj.queue))\<close> loop of \<open>kmerge_merge_blocks\<close>:
  pop, store the key in the output block, write the output block when it is full, push
  the next item of the block the key came from. The result \<open>False\<close> is the
  \<^verbatim>\<open>return false\<close> after a short write.
\<close>

definition kmerge_merge_round :: "mstate \<Rightarrow> (bool \<times> mstate) option" where
  "kmerge_merge_round st =
     do {
       (q, el) \<leftarrow> heap_pop (ms_queue st);
       st1 \<leftarrow> merge_out_put (st\<lparr>ms_queue := q\<rparr>) (key el);
       (ok, st2) \<leftarrow> (if b_pos (ms_blocks st1 ! NMERGE) = b_size (ms_blocks st1 ! NMERGE)
                      then merge_out_flush st1 else Some (True, st1));
       if \<not> ok then Some (False, st2)
       else do {
         st3 \<leftarrow> merge_next st2 el;
         Some (True, st3)
       }
     }"

text \<open>
  The loop. Nothing in the loop itself bounds the number of rounds, so it is a partial
  function: not returning is the value \<open>None\<close>.
\<close>

partial_function (option) kmerge_merge_blocks_loop :: "mstate \<Rightarrow> (bool \<times> mstate) option" where
  "kmerge_merge_blocks_loop st =
     (if \<not> heap_empty (ms_queue st)
      then do {
        (ok, st1) \<leftarrow> kmerge_merge_round st;
        if \<not> ok then Some (False, st1)
        else kmerge_merge_blocks_loop st1
      }
      else Some (True, st))"

declare kmerge_merge_blocks_loop.simps [code]

definition kmerge_merge_blocks :: "mstate \<Rightarrow> (bool \<times> mstate) option" where
  "kmerge_merge_blocks st =
     do {
       (ok, st1) \<leftarrow> kmerge_merge_blocks_loop st;
       if \<not> ok then Some (False, st1)
       else if NMERGE < length (ms_blocks st1) \<and> b_pos (ms_blocks st1 ! NMERGE) \<noteq> 0
       then merge_out_flush st1
       else Some (True, st1)
     }"

text \<open>
  \<open>kmerge_copy\<close>: the whole buffer is the I/O block. The loop ends with the first read
  that returns nothing.
\<close>

function kmerge_copy ::
  "int list \<Rightarrow> nat \<Rightarrow> int list \<Rightarrow> int list \<Rightarrow> nat \<Rightarrow> (bool \<times> int list \<times> int list \<times> nat) option" where
  "kmerge_copy buf buf_nmemb from to room =
     do {
       (nread, buf1, from1) \<leftarrow> fread buf 0 buf_nmemb from;
       if nread = 0 then Some (True, buf1, to, room)
       else do {
         (nwrite, to1, room1) \<leftarrow> fwrite buf1 0 nread to room;
         if nwrite \<noteq> nread then Some (False, buf1, to1, room1)
         else kmerge_copy buf1 buf_nmemb from1 to1 room1
       }
     }"
  by pat_completeness auto
termination
  by (relation "measure (\<lambda>(buf, buf_nmemb, from, to, room). length from)")
     (auto simp: fread_def Let_def split: if_splits)

declare kmerge_copy.simps [simp del]

subsection \<open>Merging the files of one group\<close>

text \<open>
  The second \<^verbatim>\<open>for\<close> loop of \<open>kmerge_merge_files\<close>, over the inputs \<open>i = 0, \<dots>, fn - 1\<close>:
  read the first block of input \<open>i\<close> and push its first cell, whatever \<open>fread\<close>
  returned.
\<close>

fun kmerge_prime :: "nat \<Rightarrow> mstate \<Rightarrow> nat list \<Rightarrow> mstate option" where
  "kmerge_prime bs st [] = Some st"
| "kmerge_prime bs st (i # rest) =
     (if i < length (ms_blocks st) \<and> i < length (ms_fs st)
      then (let b = ms_blocks st ! i
            in do {
              (n, buf, f) \<leftarrow> fread (ms_buf st) (b_buf b) bs (ms_fs st ! i);
              let b1 = b\<lparr>b_count := n, b_pos := 0\<rparr>
              in if b_buf b1 + b_pos b1 < length buf
                 then do {
                   q \<leftarrow> heap_insert (ms_queue st) \<lparr>key = buf ! (b_buf b1 + b_pos b1), idx = i\<rparr>;
                   kmerge_prime bs
                     (st\<lparr>ms_queue := q, ms_buf := buf, ms_fs := (ms_fs st)[i := f],
                         ms_blocks := (ms_blocks st)[i := b1\<lparr>b_pos := b_pos b1 + 1\<rparr>]\<rparr>) rest
                 }
                 else None
            })
      else None)"

text \<open>
  \<open>kmerge_merge_files\<close>. The array \<open>fs\<close> and the count \<open>fn\<close> of the source are the list
  \<open>fs\<close> and its length. \<open>kmerge_blocks_init\<close> is the state after the \<^verbatim>\<open>memset\<close> and the
  first \<^verbatim>\<open>for\<close> loop (every block gets its part of the buffer). The output file
  \<open>(stage + 1, outn)\<close> is created empty, written by \<open>kmerge_merge_blocks\<close> and closed,
  whether the merge succeeded or not.
\<close>

definition kmerge_blocks_init :: "merge \<Rightarrow> disk \<Rightarrow> int list list \<Rightarrow> mstate" where
  "kmerge_blocks_init obj d fs =
     (let bs = m_buf_nmemb obj div (NMERGE + 1);
          blocks = map (\<lambda>i. \<lparr>b_buf = i * bs, b_size = bs, b_count = 0, b_pos = 0\<rparr>) [0..<NMERGE + 1]
      in \<lparr>ms_queue = m_queue obj, ms_buf = m_buf obj, ms_blocks = blocks, ms_fs = fs,
          ms_fout = [], ms_room = d_room d\<rparr>)"

definition kmerge_merge_files ::
  "merge \<Rightarrow> disk \<Rightarrow> int list list \<Rightarrow> nat \<Rightarrow> nat \<Rightarrow> (bool \<times> merge \<times> disk) option" where
  "kmerge_merge_files obj d fs stage outn =
     (let bs = m_buf_nmemb obj div (NMERGE + 1)
      in do {
        st1 \<leftarrow> kmerge_prime bs (kmerge_blocks_init obj d fs) [0..<length fs];
        (ret, st2) \<leftarrow> kmerge_merge_blocks st1;
        Some (ret, obj\<lparr>m_queue := ms_queue st2, m_buf := ms_buf st2\<rparr>,
              d\<lparr>d_files := (d_files d)((stage + 1, outn) \<mapsto> ms_fout st2), d_room := ms_room st2\<rparr>)
      })"

subsection \<open>Stages\<close>

text \<open>
  The \<^verbatim>\<open>for\<close> loop of \<open>kmerge_merge_stage\<close>: \<open>xfopen\<close> ends the process when the file
  does not exist (\<open>None\<close>). The result carries the streams still open when the loop
  ends; \<open>False\<close> is the early \<^verbatim>\<open>return false\<close>.
\<close>

function kmerge_merge_stage_loop ::
  "merge \<Rightarrow> disk \<Rightarrow> nat \<Rightarrow> nat \<Rightarrow> nat \<Rightarrow> int list list \<Rightarrow> (bool \<times> merge \<times> disk \<times> int list list) option" where
  "kmerge_merge_stage_loop obj d stage fcount i fs =
     (if i < fcount
      then (case d_files d (stage, i) of
              None \<Rightarrow> None
            | Some content \<Rightarrow>
                (let fs1 = fs @ [content]
                 in if length fs1 = NMERGE
                    then do {
                      (ret, obj1, d1) \<leftarrow> kmerge_merge_files obj d fs1 stage (i div NMERGE);
                      if \<not> ret then Some (False, obj1, d1, fs1)
                      else kmerge_merge_stage_loop obj1 d1 stage fcount (i + 1) []
                    }
                    else kmerge_merge_stage_loop obj d stage fcount (i + 1) fs1))
      else Some (True, obj, d, fs))"
  by pat_completeness auto
termination
  by (relation "measure (\<lambda>(obj, d, stage, fcount, i, fs). fcount - i)") auto

declare kmerge_merge_stage_loop.simps [simp del]

definition kmerge_merge_stage :: "merge \<Rightarrow> disk \<Rightarrow> nat \<Rightarrow> nat \<Rightarrow> (bool \<times> merge \<times> disk) option" where
  "kmerge_merge_stage obj d stage fcount =
     do {
       (ret, obj1, d1, fs) \<leftarrow> kmerge_merge_stage_loop obj d stage fcount 0 [];
       if \<not> ret then Some (False, obj1, d1)
       else if length fs = 1
       then do {
         (ret, buf, to, room) \<leftarrow> kmerge_copy (m_buf obj1) (m_buf_nmemb obj1) (fs ! 0) [] (d_room d1);
         Some (ret, obj1\<lparr>m_buf := buf\<rparr>,
               d1\<lparr>d_files := (d_files d1)((stage + 1, fcount div NMERGE) \<mapsto> to), d_room := room\<rparr>)
       }
       else if length fs \<noteq> 0
       then kmerge_merge_files obj1 d1 fs stage (fcount div NMERGE)
       else Some (True, obj1, d1)
     }"

function kmerge_merge_all_loop :: "merge \<Rightarrow> disk \<Rightarrow> nat \<Rightarrow> nat \<Rightarrow> (bool \<times> merge \<times> disk) option" where
  "kmerge_merge_all_loop obj d stages i =
     (if i < stages
      then do {
        (res, obj1, d1) \<leftarrow> kmerge_merge_stage obj d i (kmerge_calc_stage_files (m_fcount obj) i);
        if \<not> res then Some (False, obj1, d1)
        else kmerge_merge_all_loop obj1 d1 stages (i + 1)
      }
      else Some (True, obj, d))"
  by pat_completeness auto
termination
  by (relation "measure (\<lambda>(obj, d, stages, i). stages - i)") auto

declare kmerge_merge_all_loop.simps [simp del]

text \<open>
  \<open>kmerge_merge_all\<close> also returns the name of the merged file, \<^verbatim>\<open>{stages}_0\<close>, which
  the source formats into \<open>obj.out\<close> before the loop.
\<close>

definition kmerge_merge_all :: "merge \<Rightarrow> disk \<Rightarrow> (bool \<times> (nat \<times> nat) \<times> merge \<times> disk) option" where
  "kmerge_merge_all obj d =
     (let stages = kmerge_calc_stages (m_fcount obj)
      in do {
        (res, obj1, d1) \<leftarrow> kmerge_merge_all_loop obj d stages 0;
        Some (res, (stages, 0), obj1, d1)
      })"

text \<open>
  \<open>kmerge_merge\<close>: the assertions on \<open>fcount\<close> and \<open>buf_nmemb\<close>, the queue of capacity
  \<open>NMERGE\<close>, the stages. It returns the result, the name of the merged file, the buffer
  and the directory. Memory for the queue is taken to be available.
\<close>

definition kmerge_merge ::
  "disk \<Rightarrow> nat \<Rightarrow> int list \<Rightarrow> nat \<Rightarrow> (bool \<times> (nat \<times> nat) \<times> int list \<times> disk) option" where
  "kmerge_merge d fcount buf buf_nmemb =
     (if fcount > 0 \<and> buf_nmemb > NMERGE
      then do {
        queue \<leftarrow> heap_create NMERGE;
        (res, out, obj1, d1) \<leftarrow>
          kmerge_merge_all \<lparr>m_fcount = fcount, m_buf = buf, m_buf_nmemb = buf_nmemb, m_queue = queue\<rparr> d;
        Some (res, out, m_buf obj1, d1)
      }
      else None)"

subsection \<open>One round of the merge loop\<close>

text \<open>A range of the buffer: \<open>n\<close> cells from cell \<open>a\<close> on.\<close>

definition slice :: "'a list \<Rightarrow> nat \<Rightarrow> nat \<Rightarrow> 'a list" where
  "slice xs a n = take n (drop a xs)"

lemma slice_length [simp]: "a + n \<le> length xs \<Longrightarrow> length (slice xs a n) = n"
  by (simp add: slice_def)

lemma slice_nth: "i < n \<Longrightarrow> a + n \<le> length xs \<Longrightarrow> slice xs a n ! i = xs ! (a + i)"
  by (simp add: slice_def)

lemma slice_eqI:
  assumes "length xs = length ys" "a + n \<le> length xs"
    and "\<And>i. a \<le> i \<Longrightarrow> i < a + n \<Longrightarrow> xs ! i = ys ! i"
  shows "slice xs a n = slice ys a n"
proof (rule nth_equalityI)
  show "length (slice xs a n) = length (slice ys a n)" using assms by simp
  fix i assume "i < length (slice xs a n)"
  then have "i < n" using assms by simp
  then show "slice xs a n ! i = slice ys a n ! i"
    using assms by (simp add: slice_nth)
qed

lemma slice_update_outside:
  "a + n \<le> length xs \<Longrightarrow> p < a \<or> a + n \<le> p \<Longrightarrow> slice (xs[p := v]) a n = slice xs a n"
  by (rule slice_eqI) auto

lemma slice_update_end:
  "a + n < length xs \<Longrightarrow> slice (xs[a + n := v]) a (Suc n) = slice xs a n @ [v]"
proof -
  assume l: "a + n < length xs"
  have "drop a (xs[a + n := v]) = (drop a xs)[n := v]" by (simp add: drop_update_swap)
  moreover have "take (Suc n) ((drop a xs)[n := v]) = take n (drop a xs) @ [v]"
    using l by (simp add: take_Suc_conv_app_nth)
  ultimately show ?thesis by (simp add: slice_def)
qed

lemma slice_Suc_front:
  "a + n \<le> length xs \<Longrightarrow> 0 < n \<Longrightarrow> slice xs a n = xs ! a # slice xs (Suc a) (n - 1)"
  by (cases n) (simp_all add: slice_def Cons_nth_drop_Suc[symmetric])

text \<open>What \<open>fread\<close> leaves in the buffer.\<close>

lemma fread_Some:
  assumes "fread buf off nmemb stream = Some (n, buf', stream')"
  shows "n = min nmemb (length stream)" "length buf' = length buf" "stream' = drop nmemb stream"
    "off + n \<le> length buf" "slice buf' off n = take nmemb stream"
    "\<And>a k. a + k \<le> length buf \<Longrightarrow> a + k \<le> off \<or> off + n \<le> a \<Longrightarrow> slice buf' a k = slice buf a k"
proof -
  define items where "items = take nmemb stream"
  have g: "off + length items \<le> length buf" and n: "n = length items"
    and b: "buf' = take off buf @ items @ drop (off + length items) buf"
    and s: "stream' = drop nmemb stream"
    using assms by (auto simp: fread_def Let_def items_def split: if_splits)
  show "n = min nmemb (length stream)" by (simp add: n items_def)
  show len: "length buf' = length buf" using g by (simp add: b)
  show "stream' = drop nmemb stream" by (rule s)
  show "off + n \<le> length buf" using g n by simp
  show "slice buf' off n = take nmemb stream"
    using g by (auto simp: slice_def b n items_def min_def)
  fix a k assume ak: "a + k \<le> length buf" "a + k \<le> off \<or> off + n \<le> a"
  show "slice buf' a k = slice buf a k"
  proof (rule slice_eqI)
    show "length buf' = length buf" by (rule len)
    show "a + k \<le> length buf'" using ak len by simp
    fix i assume i: "a \<le> i" "i < a + k"
    show "buf' ! i = buf ! i"
    proof (cases "i < off")
      case True
      then show ?thesis using g by (simp add: b nth_append)
    next
      case False
      then have ge: "off + length items \<le> i" using ak i n by auto
      have "buf' ! i = (items @ drop (off + length items) buf) ! (i - off)"
        using False g by (simp add: b nth_append)
      also have "\<dots> = drop (off + length items) buf ! (i - off - length items)"
      proof -
        have "\<not> i - off < length items" using ge by arith
        then show ?thesis by (simp only: nth_append if_False)
      qed
      also have "\<dots> = buf ! i" using ge g ak i by simp
      finally show ?thesis .
    qed
  qed
qed

lemma fread_ok:
  "off + min nmemb (length stream) \<le> length buf \<Longrightarrow>
   \<exists>buf'. fread buf off nmemb stream = Some (min nmemb (length stream), buf', drop nmemb stream)"
  by (auto simp: fread_def Let_def min_def)

lemma fwrite_Some:
  assumes "fwrite buf off nmemb file room = Some (n, file', room')"
  shows "n = min nmemb room" "file' = file @ slice buf off n" "room' = room - n"
    "off + nmemb \<le> length buf"
  using assms by (auto simp: fwrite_def Let_def slice_def split: if_splits)

lemma fwrite_ok:
  "off + nmemb \<le> length buf \<Longrightarrow> \<exists>r. fwrite buf off nmemb file room = Some r"
  by (simp add: fwrite_def Let_def)

text \<open>
  The unread part of the block of input \<open>i\<close>, what input \<open>i\<close> still has to deliver after
  the item it has in the queue, and what has been sent to the output so far.
\<close>

definition window :: "mstate \<Rightarrow> nat \<Rightarrow> int list" where
  "window st i =
     (let b = ms_blocks st ! i
      in slice (ms_buf st) (b_buf b + b_pos b) (b_count b - b_pos b))"

definition pend :: "mstate \<Rightarrow> nat \<Rightarrow> int list" where
  "pend st i = window st i @ ms_fs st ! i"

definition emitted :: "mstate \<Rightarrow> int list" where
  "emitted st =
     (let out = ms_blocks st ! NMERGE
      in ms_fout st @ slice (ms_buf st) (b_buf out) (b_pos out))"

text \<open>
  The shape of the state between two rounds of the loop, for \<open>m\<close> inputs and blocks of
  \<open>bs\<close> cells: the queue is a heap of capacity \<open>NMERGE\<close> whose elements come from
  different inputs, the blocks lie one after the other in the buffer, and the output
  block is not full.
\<close>

definition merge_shape :: "nat \<Rightarrow> nat \<Rightarrow> mstate \<Rightarrow> bool" where
  "merge_shape bs m st \<longleftrightarrow>
     heap_wf (ms_queue st) \<and> heap_inv (ms_queue st) \<and> h_capacity (ms_queue st) = NMERGE
   \<and> distinct (map idx (heap_els (ms_queue st)))
   \<and> (\<forall>e \<in> set (heap_els (ms_queue st)). idx e < m)
   \<and> m \<le> NMERGE \<and> length (ms_fs st) = m \<and> length (ms_blocks st) = NMERGE + 1
   \<and> 0 < bs \<and> (NMERGE + 1) * bs \<le> length (ms_buf st)
   \<and> (\<forall>i \<le> NMERGE. b_buf (ms_blocks st ! i) = i * bs \<and> b_size (ms_blocks st ! i) = bs)
   \<and> (\<forall>i < NMERGE. b_count (ms_blocks st ! i) \<le> bs)
   \<and> b_pos (ms_blocks st ! NMERGE) < bs"

lemma heap_els_length: "heap_wf q \<Longrightarrow> length (heap_els q) = h_count q"
  by (simp add: heap_els_def heap_wf_def)

lemma distinct_idx_count:
  assumes "distinct (map idx els)" "\<forall>e \<in> set els. idx e < m"
  shows "length els \<le> m"
proof -
  have "length els = card (set (map idx els))"
    using assms(1) by (metis distinct_card length_map)
  also have "\<dots> \<le> card {..<m}"
    using assms(2) by (intro card_mono) auto
  finally show ?thesis by simp
qed

lemma merge_shape_count: "merge_shape bs m st \<Longrightarrow> h_count (ms_queue st) \<le> m"
  using distinct_idx_count[of "heap_els (ms_queue st)" m]
  by (simp add: merge_shape_def heap_els_length)

lemma heap_pop_shape:
  assumes wf: "heap_wf q" and inv: "heap_inv q" and d: "distinct (map idx (heap_els q))"
    and b: "\<forall>e \<in> set (heap_els q). idx e < m" and ne: "\<not> heap_empty q"
  obtains q1 el where "heap_pop q = Some (q1, el)" "heap_wf q1" "heap_inv q1"
    "h_capacity q1 = h_capacity q" "mset (heap_els q) = add_mset el (mset (heap_els q1))"
    "distinct (map idx (heap_els q1))" "\<forall>e \<in> set (heap_els q1). idx e < m"
    "idx el < m" "idx el \<notin> idx ` set (heap_els q1)" "h_count q1 < m"
    "\<forall>e \<in> set (heap_els q1). key el \<le> key e" "h_count q = Suc (h_count q1)"
proof -
  have pos: "0 < h_count q" using ne by (simp add: heap_empty_def)
  obtain q1 el where pop: "heap_pop q = Some (q1, el)" using heap_pop_Some[OF pos] by blast
  note p = heap_pop_props[OF wf inv pop]
  have ms: "mset (heap_els q) = add_mset el (mset (heap_els q1))" by (rule p(5))
  have "mset (map idx (heap_els q)) = image_mset idx (mset (heap_els q))" by simp
  also have "\<dots> = image_mset idx (add_mset el (mset (heap_els q1)))" by (simp only: ms)
  finally have "mset (map idx (heap_els q)) = mset (idx el # map idx (heap_els q1))" by simp
  then have dd: "distinct (idx el # map idx (heap_els q1))"
    using d mset_eq_imp_distinct_iff by blast
  have sub: "set (heap_els q) = insert el (set (heap_els q1))"
    using ms by (metis set_mset_add_mset_insert set_mset_mset)
  have c: "h_count q = Suc (h_count q1)" using p(3) pos by simp
  have "length (heap_els q1) \<le> m - 1"
  proof -
    have "length (heap_els q) \<le> m" using distinct_idx_count[OF d b] .
    then show ?thesis using c wf p(1) by (simp add: heap_els_length)
  qed
  moreover have "0 < m" using b sub by auto
  ultimately have lt: "h_count q1 < m" using p(1) by (simp add: heap_els_length)
  show ?thesis
  proof (rule that[OF pop p(1) p(2) p(4) ms])
    show "distinct (map idx (heap_els q1))" using dd by simp
    show "\<forall>e \<in> set (heap_els q1). idx e < m" using b sub by simp
    show "idx el < m" using b sub by simp
    show "idx el \<notin> idx ` set (heap_els q1)" using dd by simp
    show "h_count q1 < m" by (rule lt)
    show "\<forall>e \<in> set (heap_els q1). key el \<le> key e" using p(6) sub by simp
    show "h_count q = Suc (h_count q1)" by (rule c)
  qed
qed

lemma heap_insert_shape:
  assumes wf: "heap_wf q" and inv: "heap_inv q" and c: "h_count q < h_capacity q"
  obtains q' where "heap_insert q e = Some q'" "heap_wf q'" "heap_inv q'"
    "h_capacity q' = h_capacity q" "mset (heap_els q') = add_mset e (mset (heap_els q))"
    "h_count q' = Suc (h_count q)"
proof -
  obtain q' where ins: "heap_insert q e = Some q'" using heap_insert_Some[OF c] by blast
  note p = heap_insert_props[OF wf inv ins]
  show ?thesis using that[OF ins p(1) p(2) p(4) p(5)] p(3) by simp
qed

lemma merge_emit_effect:
  assumes len: "length (ms_blocks st) = NMERGE + 1"
    and ob: "b_buf (ms_blocks st ! NMERGE) = NMERGE * bs" "b_size (ms_blocks st ! NMERGE) = bs"
      "b_pos (ms_blocks st ! NMERGE) < bs"
    and buf: "(NMERGE + 1) * bs \<le> length (ms_buf st)"
  obtains st1 ok st2 where "merge_out_put st k = Some st1"
    "(if b_pos (ms_blocks st1 ! NMERGE) = b_size (ms_blocks st1 ! NMERGE)
      then merge_out_flush st1 else Some (True, st1)) = Some (ok, st2)"
    "ok \<longrightarrow> ms_queue st2 = ms_queue st \<and> ms_fs st2 = ms_fs st
        \<and> length (ms_buf st2) = length (ms_buf st) \<and> length (ms_blocks st2) = NMERGE + 1
        \<and> (\<forall>i < NMERGE. ms_blocks st2 ! i = ms_blocks st ! i)
        \<and> b_buf (ms_blocks st2 ! NMERGE) = NMERGE * bs \<and> b_size (ms_blocks st2 ! NMERGE) = bs
        \<and> b_pos (ms_blocks st2 ! NMERGE) < bs
        \<and> emitted st2 = emitted st @ [k]
        \<and> (\<forall>a n. a + n \<le> NMERGE * bs \<longrightarrow> slice (ms_buf st2) a n = slice (ms_buf st) a n)
        \<and> (\<forall>j < NMERGE * bs. ms_buf st2 ! j = ms_buf st ! j)"
proof -
  define out where "out = ms_blocks st ! NMERGE"
  define p where "p = b_pos out"
  define buf1 where "buf1 = (ms_buf st)[NMERGE * bs + p := k]"
  define out1 where "out1 = out\<lparr>b_pos := p + 1\<rparr>"
  define st1 where "st1 = st\<lparr>ms_buf := buf1, ms_blocks := (ms_blocks st)[NMERGE := out1]\<rparr>"
  have o: "b_buf out = NMERGE * bs" "b_size out = bs" "p < bs"
    using ob by (simp_all add: out_def p_def)
  have inb: "NMERGE * bs + p < length (ms_buf st)" using o buf by simp
  have put: "merge_out_put st k = Some st1"
    using len inb o
    by (simp add: merge_out_put_def Let_def st1_def buf1_def out1_def out_def[symmetric] p_def[symmetric])
  have b1: "ms_blocks st1 ! NMERGE = out1" using len by (simp add: st1_def)
  have lb1: "length buf1 = length (ms_buf st)" by (simp add: buf1_def)
  have fr: "slice buf1 a n = slice (ms_buf st) a n" if "a + n \<le> NMERGE * bs" for a n
    unfolding buf1_def using that inb by (intro slice_update_outside) auto
  have nthfr: "buf1 ! j = ms_buf st ! j" if "j < NMERGE * bs" for j
    using that by (simp add: buf1_def)
  have sl: "slice buf1 (NMERGE * bs) (Suc p) = slice (ms_buf st) (NMERGE * bs) p @ [k]"
    unfolding buf1_def using inb by (rule slice_update_end)
  have em1: "emitted st1 = emitted st @ [k]"
    using len sl o by (simp add: emitted_def st1_def out1_def out_def[symmetric] p_def[symmetric])
  show ?thesis
  proof (cases "p + 1 = bs")
    case False
    have cond: "\<not> b_pos (ms_blocks st1 ! NMERGE) = b_size (ms_blocks st1 ! NMERGE)"
      using False o by (simp add: b1 out1_def)
    show ?thesis
    proof (rule that[OF put, of True st1])
      show "(if b_pos (ms_blocks st1 ! NMERGE) = b_size (ms_blocks st1 ! NMERGE)
             then merge_out_flush st1 else Some (True, st1)) = Some (True, st1)"
        using cond by simp
      show "True \<longrightarrow> ms_queue st1 = ms_queue st \<and> ms_fs st1 = ms_fs st
        \<and> length (ms_buf st1) = length (ms_buf st) \<and> length (ms_blocks st1) = NMERGE + 1
        \<and> (\<forall>i < NMERGE. ms_blocks st1 ! i = ms_blocks st ! i)
        \<and> b_buf (ms_blocks st1 ! NMERGE) = NMERGE * bs \<and> b_size (ms_blocks st1 ! NMERGE) = bs
        \<and> b_pos (ms_blocks st1 ! NMERGE) < bs
        \<and> emitted st1 = emitted st @ [k]
        \<and> (\<forall>a n. a + n \<le> NMERGE * bs \<longrightarrow> slice (ms_buf st1) a n = slice (ms_buf st) a n)
        \<and> (\<forall>j < NMERGE * bs. ms_buf st1 ! j = ms_buf st ! j)"
        using False o em1 fr nthfr b1 lb1 len
        by (simp add: st1_def out1_def)
    qed
  next
    case True
    have cond: "b_pos (ms_blocks st1 ! NMERGE) = b_size (ms_blocks st1 ! NMERGE)"
      using True o by (simp add: b1 out1_def)
    have g: "b_buf out1 + b_pos out1 \<le> length (ms_buf st1)"
      using True o buf lb1 by (simp add: out1_def st1_def)
    obtain n wfile room where w: "fwrite (ms_buf st1) (b_buf out1) (b_pos out1) (ms_fout st1) (ms_room st1)
        = Some (n, wfile, room)"
      using fwrite_ok[OF g] by (metis prod_cases3)
    note wp = fwrite_Some[OF w]
    define st1' where "st1' = st1\<lparr>ms_fout := wfile, ms_room := room\<rparr>"
    define st2 where "st2 = st1'\<lparr>ms_blocks := (ms_blocks st1')[NMERGE := out1\<lparr>b_pos := 0\<rparr>]\<rparr>"
    have lenb1: "NMERGE < length (ms_blocks st1)" using len by (simp add: st1_def)
    have fl: "merge_out_flush st1 = Some (if n \<noteq> b_pos out1 then (False, st1') else (True, st2))"
      using lenb1 w by (simp add: merge_out_flush_def Let_def b1 st1'_def st2_def)
    show ?thesis
    proof (rule that[OF put, of "n = b_pos out1" "if n \<noteq> b_pos out1 then st1' else st2"])
      show "(if b_pos (ms_blocks st1 ! NMERGE) = b_size (ms_blocks st1 ! NMERGE)
             then merge_out_flush st1 else Some (True, st1))
           = Some (n = b_pos out1, if n \<noteq> b_pos out1 then st1' else st2)"
        using cond fl by simp
      have "emitted st2 = emitted st @ [k]" if "n = b_pos out1"
      proof -
        have "wfile = ms_fout st1 @ slice (ms_buf st1) (b_buf out1) (b_pos out1)"
          using wp(2) that by simp
        then show ?thesis
          using em1 len by (simp add: emitted_def st2_def st1'_def st1_def out1_def slice_def)
      qed
      then show "n = b_pos out1 \<longrightarrow>
          ms_queue (if n \<noteq> b_pos out1 then st1' else st2) = ms_queue st
        \<and> ms_fs (if n \<noteq> b_pos out1 then st1' else st2) = ms_fs st
        \<and> length (ms_buf (if n \<noteq> b_pos out1 then st1' else st2)) = length (ms_buf st)
        \<and> length (ms_blocks (if n \<noteq> b_pos out1 then st1' else st2)) = NMERGE + 1
        \<and> (\<forall>i < NMERGE. ms_blocks (if n \<noteq> b_pos out1 then st1' else st2) ! i = ms_blocks st ! i)
        \<and> b_buf (ms_blocks (if n \<noteq> b_pos out1 then st1' else st2) ! NMERGE) = NMERGE * bs
        \<and> b_size (ms_blocks (if n \<noteq> b_pos out1 then st1' else st2) ! NMERGE) = bs
        \<and> b_pos (ms_blocks (if n \<noteq> b_pos out1 then st1' else st2) ! NMERGE) < bs
        \<and> emitted (if n \<noteq> b_pos out1 then st1' else st2) = emitted st @ [k]
        \<and> (\<forall>a n'. a + n' \<le> NMERGE * bs \<longrightarrow>
              slice (ms_buf (if n \<noteq> b_pos out1 then st1' else st2)) a n' = slice (ms_buf st) a n')
        \<and> (\<forall>j < NMERGE * bs. ms_buf (if n \<noteq> b_pos out1 then st1' else st2) ! j = ms_buf st ! j)"
        using o fr nthfr lb1 len
        by (simp add: st2_def st1'_def st1_def out1_def)
    qed
  qed
qed

text \<open>
  What \<open>merge_next\<close> does to the state, in terms of the unread items: nothing changes
  for the other inputs; the input the popped element came from hands over its next
  item to the queue, if it has one.
\<close>

definition next_rel :: "nat \<Rightarrow> nat \<Rightarrow> heap_el \<Rightarrow> mstate \<Rightarrow> mstate \<Rightarrow> bool" where
  "next_rel bs m el st st3 \<longleftrightarrow>
     length (ms_blocks st3) = NMERGE + 1 \<and> length (ms_fs st3) = m
   \<and> length (ms_buf st3) = length (ms_buf st)
   \<and> (\<forall>i \<le> NMERGE. b_buf (ms_blocks st3 ! i) = i * bs \<and> b_size (ms_blocks st3 ! i) = bs)
   \<and> (\<forall>i < NMERGE. b_count (ms_blocks st3 ! i) \<le> bs)
   \<and> ms_blocks st3 ! NMERGE = ms_blocks st ! NMERGE
   \<and> emitted st3 = emitted st \<and> ms_room st3 = ms_room st
   \<and> heap_wf (ms_queue st3) \<and> heap_inv (ms_queue st3)
   \<and> h_capacity (ms_queue st3) = h_capacity (ms_queue st)
   \<and> (\<forall>i < m. i \<noteq> idx el \<longrightarrow>
         pend st3 i = pend st i \<and> b_count (ms_blocks st3 ! i) = b_count (ms_blocks st ! i))
   \<and> (if b_count (ms_blocks st ! idx el) = 0
       then ms_queue st3 = ms_queue st \<and> pend st3 (idx el) = pend st (idx el)
            \<and> b_count (ms_blocks st3 ! idx el) = 0
       else if pend st (idx el) = []
       then ms_queue st3 = ms_queue st \<and> pend st3 (idx el) = []
            \<and> b_count (ms_blocks st3 ! idx el) = 0
       else mset (heap_els (ms_queue st3))
              = add_mset \<lparr>key = hd (pend st (idx el)), idx = idx el\<rparr> (mset (heap_els (ms_queue st)))
            \<and> h_count (ms_queue st3) = Suc (h_count (ms_queue st))
            \<and> pend st3 (idx el) = tl (pend st (idx el))
            \<and> b_count (ms_blocks st3 ! idx el) \<noteq> 0)"

lemma block_le: "i < j \<Longrightarrow> (i + 1) * bs \<le> j * (bs::nat)"
  using mult_le_mono1[of "Suc i" j bs] by simp

lemma heap_el_key_update: "(el::heap_el)\<lparr>key := x\<rparr> = \<lparr>key = x, idx = idx el\<rparr>"
  by (cases el) simp

lemma merge_next_effect:
  assumes i: "idx el < m" "m \<le> NMERGE"
    and len: "length (ms_blocks st) = NMERGE + 1" "length (ms_fs st) = m"
    and bl: "\<forall>i \<le> NMERGE. b_buf (ms_blocks st ! i) = i * bs \<and> b_size (ms_blocks st ! i) = bs"
    and cnt: "\<forall>i < NMERGE. b_count (ms_blocks st ! i) \<le> bs"
    and po: "b_pos (ms_blocks st ! NMERGE) \<le> bs"
    and bs: "0 < bs" "(NMERGE + 1) * bs \<le> length (ms_buf st)"
    and q: "heap_wf (ms_queue st)" "heap_inv (ms_queue st)"
      "h_count (ms_queue st) < h_capacity (ms_queue st)"
  shows "\<exists>st3. merge_next st el = Some st3 \<and> next_rel bs m el st st3"
proof -
  define j where "j = idx el"
  define b where "b = ms_blocks st ! j"
  define off where "off = j * bs"
  define c where "c = b_count b"
  define p where "p = b_pos b"
  define buf where "buf = ms_buf st"
  have j16: "j < NMERGE" "j < length (ms_blocks st)" "j < length (ms_fs st)"
    using i len by (simp_all add: j_def)
  have bb: "b_buf b = off" "b_size b = bs" "c \<le> bs"
    using bl cnt j16 by (simp_all add: b_def off_def c_def)
  have blk: "off + bs \<le> NMERGE * bs" using block_le[of j NMERGE bs] j16 by (simp add: off_def)
  have tot: "NMERGE * bs + bs \<le> length buf" using bs by (simp add: buf_def)
  have win: "window st j = slice buf (off + p) (c - p)"
    by (simp add: window_def b_def[symmetric] Let_def bb p_def c_def buf_def)
  have other_win: "window st' k = window st k"
    if "k < m" "k \<noteq> j" "ms_blocks st' ! k = ms_blocks st ! k" "length (ms_buf st') = length buf"
      "\<And>a n. a + n \<le> length buf \<Longrightarrow> a + n \<le> off \<or> off + bs \<le> a \<Longrightarrow>
          slice (ms_buf st') a n = slice buf a n" for st' k
  proof (cases "b_count (ms_blocks st ! k) - b_pos (ms_blocks st ! k) = 0")
    case True
    then show ?thesis using that(3) by (simp add: window_def Let_def slice_def)
  next
    case False
    define ck where "ck = b_count (ms_blocks st ! k)"
    define pk where "pk = b_pos (ms_blocks st ! k)"
    have k16: "k < NMERGE" using that(1) i by simp
    have ckb: "ck \<le> bs" "pk < ck" using cnt k16 False by (simp_all add: ck_def pk_def)
    have bk: "b_buf (ms_blocks st ! k) = k * bs" using bl k16 by simp
    have top: "k * bs + bs \<le> NMERGE * bs" using block_le[of k NMERGE bs] k16 by simp
    have "slice (ms_buf st') (k * bs + pk) (ck - pk) = slice buf (k * bs + pk) (ck - pk)"
    proof (rule that(5))
      show "k * bs + pk + (ck - pk) \<le> length buf" using ckb top tot by simp
      show "k * bs + pk + (ck - pk) \<le> off \<or> off + bs \<le> k * bs + pk"
      proof (cases "k < j")
        case True
        then have "(k + 1) * bs \<le> off" unfolding off_def by (rule block_le)
        then show ?thesis using ckb by simp
      next
        case False
        then have "j < k" using that(2) by simp
        then have "(j + 1) * bs \<le> k * bs" by (rule block_le)
        then show ?thesis by (simp add: off_def)
      qed
    qed
    then show ?thesis
      using that(3) by (simp add: window_def Let_def bk ck_def pk_def buf_def)
  qed
  show ?thesis
  proof (cases "c = 0")
    case True
    have "merge_next st el = Some st"
      using j16 True by (simp add: merge_next_def Let_def j_def[symmetric] b_def[symmetric] c_def)
    moreover have "next_rel bs m el st st"
      using True len bl cnt q by (simp add: next_rel_def j_def[symmetric] b_def[symmetric] c_def)
    ultimately show ?thesis by blast
  next
    case cpos: False
    show ?thesis
    proof (cases "p < c")
      case True
      define x where "x = buf ! (off + p)"
      have inb: "off + p < length buf" using True bb blk tot by simp
      obtain q' where ins: "heap_insert (ms_queue st) (el\<lparr>key := x\<rparr>) = Some q'"
        and q': "heap_wf q'" "heap_inv q'" "h_capacity q' = h_capacity (ms_queue st)"
          "mset (heap_els q') = add_mset (el\<lparr>key := x\<rparr>) (mset (heap_els (ms_queue st)))"
          "h_count q' = Suc (h_count (ms_queue st))"
        using heap_insert_shape[OF q] by metis
      define st3 where "st3 = st\<lparr>ms_queue := q', ms_blocks := (ms_blocks st)[j := b\<lparr>b_pos := p + 1\<rparr>]\<rparr>"
      have res: "merge_next st el = Some st3"
        using j16 cpos True inb ins
        by (simp add: merge_next_def Let_def j_def[symmetric] b_def[symmetric] c_def[symmetric]
            p_def[symmetric] bb buf_def[symmetric] x_def[symmetric] st3_def)
      have w0: "window st j = x # window st3 j"
      proof -
        have "slice buf (off + p) (c - p) = buf ! (off + p) # slice buf (Suc (off + p)) (c - p - 1)"
          using True bb blk tot by (intro slice_Suc_front) auto
        moreover have "window st3 j = slice buf (Suc (off + p)) (c - p - 1)"
          using j16 by (simp add: window_def Let_def st3_def bb c_def[symmetric] buf_def)
        ultimately show ?thesis by (simp add: win x_def)
      qed
      have pj: "pend st j = x # pend st3 j"
        using w0 by (simp add: pend_def st3_def)
      have oth: "pend st3 k = pend st k \<and> b_count (ms_blocks st3 ! k) = b_count (ms_blocks st ! k)"
        if "k < m" "k \<noteq> j" for k
      proof -
        have "window st3 k = window st k"
          using that by (intro other_win) (simp_all add: st3_def buf_def)
        then show ?thesis using that by (simp add: pend_def st3_def)
      qed
      have em: "emitted st3 = emitted st"
        using j16 by (simp add: emitted_def st3_def)
      have shape: "\<forall>i \<le> NMERGE. b_buf (ms_blocks st3 ! i) = i * bs \<and> b_size (ms_blocks st3 ! i) = bs"
        using bl bb j16 by (auto simp: st3_def nth_list_update off_def)
      have cnts: "\<forall>i < NMERGE. b_count (ms_blocks st3 ! i) \<le> bs"
        using cnt bb j16 by (auto simp: st3_def nth_list_update c_def)
      have "next_rel bs m el st st3"
        unfolding next_rel_def j_def[symmetric]
        using cpos pj oth em shape cnts q' len j16
        by (simp add: b_def[symmetric] c_def[symmetric] heap_el_key_update j_def)
           (simp add: st3_def b_def[symmetric] c_def[symmetric] j_def[symmetric])
      then show ?thesis using res by blast
    next
      case False
      define s where "s = ms_fs st ! j"
      define n where "n = min bs (length s)"
      have wemp: "window st j = []" using False by (simp add: win slice_def)
      have pst: "pend st j = s" by (simp add: pend_def wemp s_def)
      have g: "off + min bs (length s) \<le> length buf" using blk tot by simp
      obtain buf' where rd: "fread buf off bs s = Some (n, buf', drop bs s)"
        using fread_ok[OF g] by (auto simp: n_def)
      note rp = fread_Some[OF rd]
      define b1 where "b1 = b\<lparr>b_count := n, b_pos := 0\<rparr>"
      define st1 where "st1 = st\<lparr>ms_buf := buf', ms_fs := (ms_fs st)[j := drop bs s]\<rparr>"
      have nle: "n \<le> bs" by (simp add: n_def)
      have fr: "slice buf' a k = slice buf a k"
        if "a + k \<le> length buf" "a + k \<le> off \<or> off + bs \<le> a" for a k
        using rp(6)[OF that(1)] that(2) nle by auto
      have em_gen: "emitted st' = emitted st"
        if "ms_buf st' = buf'" "ms_fout st' = ms_fout st" "ms_blocks st' ! NMERGE = ms_blocks st ! NMERGE" for st'
      proof -
        have "slice buf' (NMERGE * bs) (b_pos (ms_blocks st ! NMERGE))
            = slice buf (NMERGE * bs) (b_pos (ms_blocks st ! NMERGE))"
          using po tot blk by (intro fr) auto
        then show ?thesis using that bl by (simp add: emitted_def buf_def)
      qed
      show ?thesis
      proof (cases "n > 0")
        case True
        then have sne: "s \<noteq> []" by (auto simp: n_def)
        define x where "x = buf' ! off"
        have inb: "off < length buf'" using blk tot bs rp(2) by simp
        obtain q' where ins: "heap_insert (ms_queue st) (el\<lparr>key := x\<rparr>) = Some q'"
          and q': "heap_wf q'" "heap_inv q'" "h_capacity q' = h_capacity (ms_queue st)"
            "mset (heap_els q') = add_mset (el\<lparr>key := x\<rparr>) (mset (heap_els (ms_queue st)))"
            "h_count q' = Suc (h_count (ms_queue st))"
          using heap_insert_shape[OF q] by metis
        define st3 where "st3 = st1\<lparr>ms_queue := q', ms_blocks := (ms_blocks st1)[j := b1\<lparr>b_pos := 1\<rparr>]\<rparr>"
        have res: "merge_next st el = Some st3"
          using j16 cpos False rd True inb ins
          by (simp add: merge_next_def Let_def j_def[symmetric] b_def[symmetric] c_def[symmetric]
              p_def[symmetric] bb buf_def[symmetric] s_def[symmetric] b1_def st1_def x_def[symmetric] st3_def)
        have sl: "slice buf' off n = take bs s" by (rule rp(5))
        have front: "slice buf' off n = buf' ! off # slice buf' (Suc off) (n - 1)"
          using True nle blk tot rp(2) by (intro slice_Suc_front) auto
        have xhd: "x = hd s"
        proof -
          have "take bs s = x # slice buf' (Suc off) (n - 1)" using sl front by (simp add: x_def)
          then have "hd (take bs s) = x" by simp
          then show ?thesis using bs by (simp add: hd_take)
        qed
        have w3: "window st3 j = tl (take bs s)"
        proof -
          have "window st3 j = slice buf' (Suc off) (n - 1)"
            using j16 by (simp add: window_def Let_def st3_def st1_def b1_def bb)
          moreover have "take bs s = buf' ! off # slice buf' (Suc off) (n - 1)"
            using sl front by simp
          ultimately show ?thesis by simp
        qed
        have p3: "pend st3 j = tl s"
        proof -
          have "tl (take bs s) @ drop bs s = tl s"
            using sne bs by (cases s; cases bs) auto
          then show ?thesis using j16 w3 by (simp add: pend_def st3_def st1_def)
        qed
        have oth: "pend st3 k = pend st k \<and> b_count (ms_blocks st3 ! k) = b_count (ms_blocks st ! k)"
          if "k < m" "k \<noteq> j" for k
        proof -
          have "window st3 k = window st k"
            using that rp(2) fr by (intro other_win) (simp_all add: st3_def st1_def)
          then show ?thesis using that by (simp add: pend_def st3_def st1_def)
        qed
        have em: "emitted st3 = emitted st"
          using j16 by (intro em_gen) (simp_all add: st3_def st1_def)
        have shape: "\<forall>i \<le> NMERGE. b_buf (ms_blocks st3 ! i) = i * bs \<and> b_size (ms_blocks st3 ! i) = bs"
          using bl bb j16 by (auto simp: st3_def st1_def b1_def nth_list_update off_def)
        have cnts: "\<forall>i < NMERGE. b_count (ms_blocks st3 ! i) \<le> bs"
          using cnt nle j16 by (auto simp: st3_def st1_def b1_def nth_list_update)
        have c3: "b_count (ms_blocks st3 ! j) \<noteq> 0"
          using True j16 by (simp add: st3_def st1_def b1_def)
        have "next_rel bs m el st st3"
          unfolding next_rel_def j_def[symmetric]
          using cpos pst sne xhd p3 oth em shape cnts q' len j16 rp(2) c3
          by (simp add: b_def[symmetric] c_def[symmetric] heap_el_key_update j_def)
             (simp add: st3_def st1_def buf_def b_def[symmetric] c_def[symmetric] j_def[symmetric])
        then show ?thesis using res by blast
      next
        case n0: False
        then have se: "s = []" using bs by (auto simp: n_def min_def split: if_splits)
        define st3 where "st3 = st1\<lparr>ms_blocks := (ms_blocks st1)[j := b1]\<rparr>"
        have res: "merge_next st el = Some st3"
          using j16 cpos False rd n0
          by (simp add: merge_next_def Let_def j_def[symmetric] b_def[symmetric] c_def[symmetric]
              p_def[symmetric] bb buf_def[symmetric] s_def[symmetric] b1_def st1_def st3_def)
        have p3: "pend st3 j = []"
          using j16 n0 se by (simp add: pend_def window_def Let_def st3_def st1_def b1_def slice_def)
        have oth: "pend st3 k = pend st k \<and> b_count (ms_blocks st3 ! k) = b_count (ms_blocks st ! k)"
          if "k < m" "k \<noteq> j" for k
        proof -
          have "window st3 k = window st k"
            using that rp(2) fr by (intro other_win) (simp_all add: st3_def st1_def)
          then show ?thesis using that by (simp add: pend_def st3_def st1_def)
        qed
        have em: "emitted st3 = emitted st"
          using j16 by (intro em_gen) (simp_all add: st3_def st1_def)
        have shape: "\<forall>i \<le> NMERGE. b_buf (ms_blocks st3 ! i) = i * bs \<and> b_size (ms_blocks st3 ! i) = bs"
          using bl bb j16 by (auto simp: st3_def st1_def b1_def nth_list_update off_def)
        have cnts: "\<forall>i < NMERGE. b_count (ms_blocks st3 ! i) \<le> bs"
          using cnt nle j16 by (auto simp: st3_def st1_def b1_def nth_list_update)
        have c3: "b_count (ms_blocks st3 ! j) = 0"
          using n0 j16 by (simp add: st3_def st1_def b1_def)
        have "next_rel bs m el st st3"
          unfolding next_rel_def j_def[symmetric]
          using cpos pst se p3 oth em shape cnts q len j16 rp(2) c3
          by (simp add: b_def[symmetric] c_def[symmetric] j_def)
             (simp add: st3_def st1_def buf_def b_def[symmetric] c_def[symmetric] j_def[symmetric])
        then show ?thesis using res by blast
      qed
    qed
  qed
qed

text \<open>
  One successful round, in terms of the queue, the unread items and the output: the
  popped element \<open>el\<close> is a least element of the queue, its key goes to the output, and
  the input it came from hands over its next item, if it has one.
\<close>

definition round_rel :: "nat \<Rightarrow> nat \<Rightarrow> mstate \<Rightarrow> heap_el \<Rightarrow> mstate \<Rightarrow> bool" where
  "round_rel bs m st el st' \<longleftrightarrow>
     merge_shape bs m st' \<and> length (ms_buf st') = length (ms_buf st)
   \<and> emitted st' = emitted st @ [key el]
   \<and> el \<in> set (heap_els (ms_queue st)) \<and> idx el < m
   \<and> (\<forall>e \<in> set (heap_els (ms_queue st)). key el \<le> key e)
   \<and> (\<forall>e \<in># mset (heap_els (ms_queue st)) - {#el#}. idx e \<noteq> idx el)
   \<and> (\<forall>i < m. i \<noteq> idx el \<longrightarrow>
         pend st' i = pend st i \<and> b_count (ms_blocks st' ! i) = b_count (ms_blocks st ! i))
   \<and> (if b_count (ms_blocks st ! idx el) = 0
       then mset (heap_els (ms_queue st')) = mset (heap_els (ms_queue st)) - {#el#}
            \<and> pend st' (idx el) = pend st (idx el)
            \<and> b_count (ms_blocks st' ! idx el) = 0
       else if pend st (idx el) = []
       then mset (heap_els (ms_queue st')) = mset (heap_els (ms_queue st)) - {#el#}
            \<and> pend st' (idx el) = []
            \<and> b_count (ms_blocks st' ! idx el) = 0
       else mset (heap_els (ms_queue st'))
              = add_mset \<lparr>key = hd (pend st (idx el)), idx = idx el\<rparr>
                  (mset (heap_els (ms_queue st)) - {#el#})
            \<and> pend st' (idx el) = tl (pend st (idx el))
            \<and> b_count (ms_blocks st' ! idx el) \<noteq> 0)"

lemma kmerge_merge_round_effect:
  assumes sh: "merge_shape bs m st" and ne: "\<not> heap_empty (ms_queue st)"
  shows "\<exists>ok st'. kmerge_merge_round st = Some (ok, st') \<and> (ok \<longrightarrow> (\<exists>el. round_rel bs m st el st'))"
proof -
  have q: "heap_wf (ms_queue st)" "heap_inv (ms_queue st)" "h_capacity (ms_queue st) = NMERGE"
      "distinct (map idx (heap_els (ms_queue st)))" "\<forall>e \<in> set (heap_els (ms_queue st)). idx e < m"
    and m: "m \<le> NMERGE" "length (ms_fs st) = m" and lb: "length (ms_blocks st) = NMERGE + 1"
    and bs: "0 < bs" "(NMERGE + 1) * bs \<le> length (ms_buf st)"
    and bl: "\<forall>i \<le> NMERGE. b_buf (ms_blocks st ! i) = i * bs \<and> b_size (ms_blocks st ! i) = bs"
    and cnt: "\<forall>i < NMERGE. b_count (ms_blocks st ! i) \<le> bs"
    and po: "b_pos (ms_blocks st ! NMERGE) < bs"
    using sh by (simp_all add: merge_shape_def)
  obtain q1 el where pop: "heap_pop (ms_queue st) = Some (q1, el)"
    and q1: "heap_wf q1" "heap_inv q1" "h_capacity q1 = h_capacity (ms_queue st)"
    and ms: "mset (heap_els (ms_queue st)) = add_mset el (mset (heap_els q1))"
    and d1: "distinct (map idx (heap_els q1))" "\<forall>e \<in> set (heap_els q1). idx e < m"
    and el: "idx el < m" "idx el \<notin> idx ` set (heap_els q1)" "h_count q1 < m"
    and mn: "\<forall>e \<in> set (heap_els q1). key el \<le> key e"
    using heap_pop_shape[OF q(1,2,4,5) ne] by metis
  define st0 where "st0 = st\<lparr>ms_queue := q1\<rparr>"
  have ob: "b_buf (ms_blocks st0 ! NMERGE) = NMERGE * bs" "b_size (ms_blocks st0 ! NMERGE) = bs"
      "b_pos (ms_blocks st0 ! NMERGE) < bs"
    using bl po by (simp_all add: st0_def)
  obtain st1 ok st2 where put: "merge_out_put st0 (key el) = Some st1"
    and fl: "(if b_pos (ms_blocks st1 ! NMERGE) = b_size (ms_blocks st1 ! NMERGE)
              then merge_out_flush st1 else Some (True, st1)) = Some (ok, st2)"
    and e2: "ok \<longrightarrow> ms_queue st2 = ms_queue st0 \<and> ms_fs st2 = ms_fs st0
        \<and> length (ms_buf st2) = length (ms_buf st0) \<and> length (ms_blocks st2) = NMERGE + 1
        \<and> (\<forall>i < NMERGE. ms_blocks st2 ! i = ms_blocks st0 ! i)
        \<and> b_buf (ms_blocks st2 ! NMERGE) = NMERGE * bs \<and> b_size (ms_blocks st2 ! NMERGE) = bs
        \<and> b_pos (ms_blocks st2 ! NMERGE) < bs
        \<and> emitted st2 = emitted st0 @ [key el]
        \<and> (\<forall>a n. a + n \<le> NMERGE * bs \<longrightarrow> slice (ms_buf st2) a n = slice (ms_buf st0) a n)
        \<and> (\<forall>j < NMERGE * bs. ms_buf st2 ! j = ms_buf st0 ! j)"
    using merge_emit_effect[of st0 bs "key el"] lb ob bs by (auto simp: st0_def)
  show ?thesis
  proof (cases ok)
    case False
    have "kmerge_merge_round st = Some (False, st2)"
      using pop put fl False by (simp add: kmerge_merge_round_def st0_def[symmetric])
    then show ?thesis by blast
  next
    case True
    have f2: "ms_queue st2 = q1" "ms_fs st2 = ms_fs st" "length (ms_buf st2) = length (ms_buf st)"
        "length (ms_blocks st2) = NMERGE + 1" "\<forall>i < NMERGE. ms_blocks st2 ! i = ms_blocks st ! i"
        "b_buf (ms_blocks st2 ! NMERGE) = NMERGE * bs" "b_size (ms_blocks st2 ! NMERGE) = bs"
        "b_pos (ms_blocks st2 ! NMERGE) < bs" "emitted st2 = emitted st @ [key el]"
        "\<forall>a n. a + n \<le> NMERGE * bs \<longrightarrow> slice (ms_buf st2) a n = slice (ms_buf st) a n"
      using e2 True by (simp_all add: st0_def emitted_def)
    have bl2: "\<forall>i \<le> NMERGE. b_buf (ms_blocks st2 ! i) = i * bs \<and> b_size (ms_blocks st2 ! i) = bs"
    proof (intro allI impI)
      fix i assume "i \<le> NMERGE"
      then show "b_buf (ms_blocks st2 ! i) = i * bs \<and> b_size (ms_blocks st2 ! i) = bs"
        using f2(5,6,7) bl by (cases "i = NMERGE") auto
    qed
    have cnt2: "\<forall>i < NMERGE. b_count (ms_blocks st2 ! i) \<le> bs" using f2(5) cnt by simp
    have pend2: "pend st2 i = pend st i" if "i < m" for i
    proof -
      have i16: "i < NMERGE" using that m by simp
      define c where "c = b_count (ms_blocks st ! i)"
      define p where "p = b_pos (ms_blocks st ! i)"
      have "slice (ms_buf st2) (i * bs + p) (c - p) = slice (ms_buf st) (i * bs + p) (c - p)"
      proof (cases "c - p = 0")
        case True
        then show ?thesis by (simp add: slice_def)
      next
        case False
        have "c \<le> bs" using cnt i16 by (simp add: c_def)
        moreover have "(i + 1) * bs \<le> NMERGE * bs" using i16 by (rule block_le)
        ultimately have "i * bs + p + (c - p) \<le> NMERGE * bs" using False by simp
        then show ?thesis using f2(10) by blast
      qed
      then show ?thesis
        using f2(2,5) i16 bl by (simp add: pend_def window_def Let_def c_def p_def)
    qed
    have qq: "heap_wf (ms_queue st2)" "heap_inv (ms_queue st2)"
        "h_count (ms_queue st2) < h_capacity (ms_queue st2)"
      using q1 el(3) m q(3) by (simp_all add: f2(1))
    obtain st3 where nx: "merge_next st2 el = Some st3" and nr: "next_rel bs m el st2 st3"
      using merge_next_effect[OF el(1) m(1) f2(4) _ bl2 cnt2 _ bs(1) _ qq, of ]
        f2(2,3,8) m(2) bs(2) by (auto simp: less_imp_le)
    have res: "kmerge_merge_round st = Some (True, st3)"
      using pop put fl True nx by (simp add: kmerge_merge_round_def st0_def[symmetric])
    note n = nr[unfolded next_rel_def]
    have c2: "b_count (ms_blocks st2 ! i) = b_count (ms_blocks st ! i)" if "i < m" for i
      using that m f2(5) by simp
    have H: "mset (heap_els (ms_queue st)) - {#el#} = mset (heap_els q1)" by (simp add: ms)
    have elin: "el \<in> set (heap_els (ms_queue st))"
      using ms by (metis set_mset_mset union_single_eq_member)
    have mnall: "\<forall>e \<in> set (heap_els (ms_queue st)). key el \<le> key e"
    proof
      fix e assume "e \<in> set (heap_els (ms_queue st))"
      then have "e \<in># add_mset el (mset (heap_els q1))" using ms by (metis set_mset_mset)
      then show "key el \<le> key e" using mn by auto
    qed
    have last: "(if b_count (ms_blocks st ! idx el) = 0
       then mset (heap_els (ms_queue st3)) = mset (heap_els q1)
            \<and> pend st3 (idx el) = pend st (idx el) \<and> b_count (ms_blocks st3 ! idx el) = 0
       else if pend st (idx el) = []
       then mset (heap_els (ms_queue st3)) = mset (heap_els q1)
            \<and> pend st3 (idx el) = [] \<and> b_count (ms_blocks st3 ! idx el) = 0
       else mset (heap_els (ms_queue st3))
              = add_mset \<lparr>key = hd (pend st (idx el)), idx = idx el\<rparr> (mset (heap_els q1))
            \<and> pend st3 (idx el) = tl (pend st (idx el))
            \<and> b_count (ms_blocks st3 ! idx el) \<noteq> 0)"
      using n pend2[OF el(1)] c2[OF el(1)] f2(1) by (auto split: if_splits)
    have dist3: "distinct (map idx (heap_els (ms_queue st3)))
        \<and> (\<forall>e \<in> set (heap_els (ms_queue st3)). idx e < m)"
    proof (cases "mset (heap_els (ms_queue st3)) = mset (heap_els q1)")
      case True
      then have "mset (map idx (heap_els (ms_queue st3))) = mset (map idx (heap_els q1))"
        by (metis mset_map)
      then have "distinct (map idx (heap_els (ms_queue st3)))"
        using d1(1) mset_eq_imp_distinct_iff by blast
      moreover have "set (heap_els (ms_queue st3)) = set (heap_els q1)"
        using True by (metis set_mset_mset)
      ultimately show ?thesis using d1(2) by simp
    next
      case False
      then have a: "mset (heap_els (ms_queue st3))
          = add_mset \<lparr>key = hd (pend st (idx el)), idx = idx el\<rparr> (mset (heap_els q1))"
        using last by (auto split: if_splits)
      have "mset (map idx (heap_els (ms_queue st3))) = image_mset idx (mset (heap_els (ms_queue st3)))"
        by simp
      also have "\<dots> = mset (idx el # map idx (heap_els q1))" by (simp only: a) simp
      finally have "distinct (map idx (heap_els (ms_queue st3))) = distinct (idx el # map idx (heap_els q1))"
        by (rule mset_eq_imp_distinct_iff)
      then have "distinct (map idx (heap_els (ms_queue st3)))" using d1(1) el(2) by simp
      moreover have "set (heap_els (ms_queue st3))
          = insert \<lparr>key = hd (pend st (idx el)), idx = idx el\<rparr> (set (heap_els q1))"
        using a by (metis set_mset_add_mset_insert set_mset_mset)
      ultimately show ?thesis using d1(2) el(1) by simp
    qed
    have shape3: "merge_shape bs m st3"
      unfolding merge_shape_def
      using n dist3 m bs f2(1,3,8) q1 q(3) by simp
    have oth: "\<forall>i < m. i \<noteq> idx el \<longrightarrow>
         pend st3 i = pend st i \<and> b_count (ms_blocks st3 ! i) = b_count (ms_blocks st ! i)"
      using n pend2 c2 by simp
    have others: "\<forall>e \<in># mset (heap_els q1). idx e \<noteq> idx el"
      using el(2) by (metis imageI set_mset_mset)
    have "round_rel bs m st el st3"
      unfolding round_rel_def H
      using shape3 n f2(3,9) elin el(1) mnall oth last others by simp
    then show ?thesis using res by blast
  qed
qed

text \<open>
  Everything the merge still has to deliver or has delivered: the output so far, the
  keys in the queue and the unread items. A round moves one key from the queue to the
  output and one item from the unread ones to the queue, so this multiset stays the
  same.
\<close>

definition mass :: "nat \<Rightarrow> mstate \<Rightarrow> int multiset" where
  "mass m st =
     mset (emitted st) + image_mset key (mset (heap_els (ms_queue st)))
     + (\<Sum>i<m. mset (pend st i))"

lemma sum_update_one:
  fixes f g :: "nat \<Rightarrow> 'a::comm_monoid_add"
  assumes "j < m" "\<And>i. i < m \<Longrightarrow> i \<noteq> j \<Longrightarrow> g i = f i"
  shows "(\<Sum>i<m. g i) + f j = (\<Sum>i<m. f i) + g j"
proof -
  have "(\<Sum>i<m. g i) = g j + sum g ({..<m} - {j})"
    using assms(1) by (intro sum.remove) auto
  moreover have "(\<Sum>i<m. f i) = f j + sum f ({..<m} - {j})"
    using assms(1) by (intro sum.remove) auto
  moreover have "sum g ({..<m} - {j}) = sum f ({..<m} - {j})"
    using assms(2) by (intro sum.cong) auto
  ultimately show ?thesis by (simp add: ac_simps)
qed

lemma mass_round:
  assumes "round_rel bs m st el st'"
  shows "mass m st' = mass m st"
proof -
  note r = assms[unfolded round_rel_def]
  define j where "j = idx el"
  define H where "H = mset (heap_els (ms_queue st))"
  have jm: "j < m" using r by (simp add: j_def)
  have elH: "el \<in># H" using r by (simp add: H_def)
  have Hk: "image_mset key H = add_mset (key el) (image_mset key (H - {#el#}))"
    using elH by (metis image_mset_add_mset insert_DiffM)
  have oth: "\<And>i. i < m \<Longrightarrow> i \<noteq> j \<Longrightarrow> mset (pend st' i) = mset (pend st i)"
    using r by (simp add: j_def)
  have em: "mset (emitted st') = add_mset (key el) (mset (emitted st))" using r by simp
  show ?thesis
  proof (cases "b_count (ms_blocks st ! j) \<noteq> 0 \<and> pend st j \<noteq> []")
    case False
    then have h: "mset (heap_els (ms_queue st')) = H - {#el#}" and p: "pend st' j = pend st j"
      using r by (auto simp: j_def H_def split: if_splits)
    have "(\<Sum>i<m. mset (pend st' i)) = (\<Sum>i<m. mset (pend st i))"
      using oth p by (intro sum.cong) (auto, metis)
    then show ?thesis
      unfolding mass_def em h H_def[symmetric] Hk by simp
  next
    case True
    then have h: "mset (heap_els (ms_queue st')) = add_mset \<lparr>key = hd (pend st j), idx = j\<rparr> (H - {#el#})"
      and p: "pend st' j = tl (pend st j)"
      using r by (auto simp: j_def H_def split: if_splits)
    have pj: "mset (pend st j) = add_mset (hd (pend st j)) (mset (pend st' j))"
      using True p by (cases "pend st j") auto
    have "(\<Sum>i<m. mset (pend st' i)) + mset (pend st j) = (\<Sum>i<m. mset (pend st i)) + mset (pend st' j)"
      using jm oth by (rule sum_update_one)
    then have "add_mset (hd (pend st j)) (\<Sum>i<m. mset (pend st' i)) = (\<Sum>i<m. mset (pend st i))"
      unfolding pj by simp
    then show ?thesis
      unfolding mass_def em h H_def[symmetric] Hk by (simp flip: add_mset_add_single)
  qed
qed

lemma emitted_le_mass: "length (emitted st) \<le> size (mass m st)"
  by (simp add: mass_def)

text \<open>
  The loop returns, for any property \<open>I\<close> of the state that every successful round keeps:
  each round makes the output longer by one item, and the output is never longer than
  what there is to deliver.
\<close>

lemma kmerge_merge_blocks_loop_total:
  assumes step: "\<And>s el s'. merge_shape bs m s \<Longrightarrow> I s \<Longrightarrow> round_rel bs m s el s' \<Longrightarrow> I s'"
  shows "merge_shape bs m st \<Longrightarrow> I st \<Longrightarrow>
    \<exists>ok st'. kmerge_merge_blocks_loop st = Some (ok, st') \<and>
      (ok \<longrightarrow> merge_shape bs m st' \<and> I st' \<and> heap_empty (ms_queue st')
            \<and> length (ms_buf st') = length (ms_buf st) \<and> mass m st' = mass m st)"
proof (induction "size (mass m st) - length (emitted st)" arbitrary: st rule: less_induct)
  case less
  show ?case
  proof (cases "heap_empty (ms_queue st)")
    case True
    then have "kmerge_merge_blocks_loop st = Some (True, st)"
      by (subst kmerge_merge_blocks_loop.simps) simp
    then show ?thesis using less.prems True
      by (intro exI[of _ True] exI[of _ st]) simp
  next
    case False
    obtain ok st1 where rd: "kmerge_merge_round st = Some (ok, st1)"
      and rr: "ok \<longrightarrow> (\<exists>el. round_rel bs m st el st1)"
      using kmerge_merge_round_effect[OF less.prems(1) False] by blast
    show ?thesis
    proof (cases ok)
      case False
      then have "kmerge_merge_blocks_loop st = Some (False, st1)"
        using rd \<open>\<not> heap_empty (ms_queue st)\<close> by (subst kmerge_merge_blocks_loop.simps) simp
      then show ?thesis by (intro exI[of _ False] exI[of _ st1]) simp
    next
      case True
      then obtain el where r: "round_rel bs m st el st1" using rr by blast
      have sh1: "merge_shape bs m st1" and lb: "length (ms_buf st1) = length (ms_buf st)"
        and em: "emitted st1 = emitted st @ [key el]"
        using r by (simp_all add: round_rel_def)
      have I1: "I st1" using step[OF less.prems r] .
      have ms1: "mass m st1 = mass m st" using r by (rule mass_round)
      have "length (emitted st1) \<le> size (mass m st1)" by (rule emitted_le_mass)
      then have dec: "size (mass m st1) - length (emitted st1) < size (mass m st) - length (emitted st)"
        using em ms1 by simp
      obtain ok' st' where lp: "kmerge_merge_blocks_loop st1 = Some (ok', st')"
        and post: "ok' \<longrightarrow> merge_shape bs m st' \<and> I st' \<and> heap_empty (ms_queue st')
            \<and> length (ms_buf st') = length (ms_buf st1) \<and> mass m st' = mass m st1"
        using less.hyps[OF dec sh1 I1] by blast
      have "kmerge_merge_blocks_loop st = Some (ok', st')"
        using rd True lp \<open>\<not> heap_empty (ms_queue st)\<close>
        by (subst kmerge_merge_blocks_loop.simps) simp
      then show ?thesis using post lb ms1 by (intro exI[of _ ok'] exI[of _ st']) simp
    qed
  qed
qed

subsection \<open>Why the output of a group is sorted\<close>

text \<open>
  What makes the output sorted, between two rounds: every input's unread items are
  sorted and not below the item the input has in the queue; an input with nothing in
  the queue, or whose block says the file is read to its end, has no unread items; the
  output is sorted and not above any key in the queue.
\<close>

definition merge_content :: "nat \<Rightarrow> mstate \<Rightarrow> bool" where
  "merge_content m st \<longleftrightarrow>
     (\<forall>i < m. sorted (pend st i))
   \<and> (\<forall>e \<in> set (heap_els (ms_queue st)). \<forall>x \<in> set (pend st (idx e)). key e \<le> x)
   \<and> (\<forall>i < m. i \<notin> idx ` set (heap_els (ms_queue st)) \<longrightarrow> pend st i = [])
   \<and> (\<forall>i < m. b_count (ms_blocks st ! i) = 0 \<longrightarrow> pend st i = [])
   \<and> sorted (emitted st)
   \<and> (\<forall>x \<in> set (emitted st). \<forall>e \<in> set (heap_els (ms_queue st)). x \<le> key e)"

lemma merge_content_round:
  assumes sh: "merge_shape bs m st" and c: "merge_content m st" and r: "round_rel bs m st el st'"
  shows "merge_content m st'"
proof -
  note rr = r[unfolded round_rel_def]
  note cc = c[unfolded merge_content_def]
  define j where "j = idx el"
  define E where "E = set (heap_els (ms_queue st))"
  define E' where "E' = set (heap_els (ms_queue st'))"
  define R where "R = set_mset (mset (heap_els (ms_queue st)) - {#el#})"
  have jm: "j < m" and elE: "el \<in> E" and mn: "\<forall>e \<in> E. key el \<le> key e"
    and Rj: "\<forall>e \<in> R. idx e \<noteq> j"
    and em: "emitted st' = emitted st @ [key el]"
    and oth: "\<And>i. i < m \<Longrightarrow> i \<noteq> j \<Longrightarrow> pend st' i = pend st i
          \<and> b_count (ms_blocks st' ! i) = b_count (ms_blocks st ! i)"
    using rr by (simp_all add: j_def E_def R_def)
  have RE: "R \<subseteq> E" unfolding R_def E_def by (metis in_diffD set_mset_mset subsetI)
  have ER: "E = insert el R"
    unfolding R_def E_def using elE[unfolded E_def]
    by (metis insert_DiffM set_mset_add_mset_insert set_mset_mset)
  have Em: "\<forall>e \<in> E. idx e < m" using sh by (simp add: merge_shape_def E_def)
  have sj: "sorted (pend st j)" using cc jm by simp
  have elp: "\<forall>x \<in> set (pend st j). key el \<le> x" using cc elE by (simp add: E_def j_def)
  consider (stop) "E' = R" "pend st' j = []" "pend st j = []"
    | (more) "E' = insert \<lparr>key = hd (pend st j), idx = j\<rparr> R" "pend st' j = tl (pend st j)"
        "pend st j \<noteq> []" "b_count (ms_blocks st' ! j) \<noteq> 0"
  proof (cases "b_count (ms_blocks st ! j) \<noteq> 0 \<and> pend st j \<noteq> []")
    case True
    then have "mset (heap_els (ms_queue st'))
        = add_mset \<lparr>key = hd (pend st j), idx = j\<rparr> (mset (heap_els (ms_queue st)) - {#el#})"
      and "pend st' j = tl (pend st j)" "b_count (ms_blocks st' ! j) \<noteq> 0"
      using rr by (auto simp: j_def split: if_splits)
    then show ?thesis using more True
      unfolding E'_def R_def by (metis set_mset_add_mset_insert set_mset_mset)
  next
    case False
    then have a: "mset (heap_els (ms_queue st')) = mset (heap_els (ms_queue st)) - {#el#}"
      and b: "pend st' j = pend st j \<or> pend st' j = []"
      using rr by (auto simp: j_def split: if_splits)
    have "pend st j = []" using False cc jm by auto
    then show ?thesis using stop a b unfolding E'_def R_def by (metis set_mset_mset)
  qed
  then show ?thesis
  proof cases
    case stop
    show ?thesis
      unfolding merge_content_def E'_def[symmetric] em
    proof (intro conjI)
      show "\<forall>i<m. sorted (pend st' i)"
        using cc oth stop by (metis sorted_wrt.simps(1))
      show "\<forall>e\<in>E'. \<forall>x\<in>set (pend st' (idx e)). key e \<le> x"
      proof (intro ballI)
        fix e x assume e: "e \<in> E'" and x: "x \<in> set (pend st' (idx e))"
        have "e \<in> E" "idx e \<noteq> j" "idx e < m" using e stop RE Rj Em by auto
        then show "key e \<le> x" using cc oth x by (simp add: E_def)
      qed
      show "\<forall>i<m. i \<notin> idx ` E' \<longrightarrow> pend st' i = []"
      proof (intro allI impI)
        fix i assume i: "i < m" "i \<notin> idx ` E'"
        show "pend st' i = []"
        proof (cases "i = j")
          case True then show ?thesis using stop by simp
        next
          case False
          have "i \<notin> idx ` E"
          proof
            assume "i \<in> idx ` E"
            then obtain e where "e \<in> E" "idx e = i" by auto
            then have "e \<in> R" using ER False by (auto simp: j_def)
            then show False using i stop \<open>idx e = i\<close> by auto
          qed
          then show ?thesis using cc oth i False by (simp add: E_def)
        qed
      qed
      show "\<forall>i<m. b_count (ms_blocks st' ! i) = 0 \<longrightarrow> pend st' i = []"
        using cc oth stop by metis
      show "sorted (emitted st @ [key el])"
        using cc elE by (simp add: sorted_append E_def)
      show "\<forall>x\<in>set (emitted st @ [key el]). \<forall>e\<in>E'. x \<le> key e"
        using cc mn stop RE by (auto simp: E_def)
    qed
  next
    case more
    define x0 where "x0 = hd (pend st j)"
    have pj: "pend st j = x0 # pend st' j" using more by (simp add: x0_def)
    have le0: "key el \<le> x0" using elp pj by simp
    show ?thesis
      unfolding merge_content_def E'_def[symmetric] em
    proof (intro conjI)
      show "\<forall>i<m. sorted (pend st' i)"
      proof (intro allI impI)
        fix i assume "i < m"
        then show "sorted (pend st' i)"
          using cc oth sj pj by (cases "i = j") auto
      qed
      show "\<forall>e\<in>E'. \<forall>x\<in>set (pend st' (idx e)). key e \<le> x"
      proof (intro ballI)
        fix e x assume e: "e \<in> E'" and x: "x \<in> set (pend st' (idx e))"
        show "key e \<le> x"
        proof (cases "e \<in> R")
          case True
          then have "e \<in> E" "idx e \<noteq> j" "idx e < m" using RE Rj Em by auto
          then show ?thesis using cc oth x by (simp add: E_def)
        next
          case False
          then have "e = \<lparr>key = x0, idx = j\<rparr>" using e more by (simp add: x0_def)
          then show ?thesis using x sj pj by auto
        qed
      qed
      show "\<forall>i<m. i \<notin> idx ` E' \<longrightarrow> pend st' i = []"
      proof (intro allI impI)
        fix i assume i: "i < m" "i \<notin> idx ` E'"
        have ij: "i \<noteq> j" using i more by auto
        have "i \<notin> idx ` E"
        proof
          assume "i \<in> idx ` E"
          then obtain e where "e \<in> E" "idx e = i" by auto
          then have "e \<in> R" using ER ij by (auto simp: j_def)
          then show False using i more \<open>idx e = i\<close> by auto
        qed
        then show "pend st' i = []" using cc oth i ij by (simp add: E_def)
      qed
      show "\<forall>i<m. b_count (ms_blocks st' ! i) = 0 \<longrightarrow> pend st' i = []"
        using cc oth more by metis
      show "sorted (emitted st @ [key el])"
        using cc elE by (simp add: sorted_append E_def)
      show "\<forall>x\<in>set (emitted st @ [key el]). \<forall>e\<in>E'. x \<le> key e"
      proof (intro ballI)
        fix x e assume x: "x \<in> set (emitted st @ [key el])" and e: "e \<in> E'"
        have xe: "x \<le> key el" using x cc elE by (auto simp: E_def)
        show "x \<le> key e"
        proof (cases "e \<in> R")
          case True
          then show ?thesis using x cc mn RE by (auto simp: E_def)
        next
          case False
          then have "key e = x0" using e more by (auto simp: x0_def)
          then show ?thesis using xe le0 by simp
        qed
      qed
    qed
  qed
qed

lemma merge_content_done:
  assumes "merge_content m st" "heap_empty (ms_queue st)" "heap_wf (ms_queue st)"
  shows "sorted (emitted st)" "mass m st = mset (emitted st)"
proof -
  have e: "heap_els (ms_queue st) = []"
    using assms(2,3) by (simp add: heap_empty_def heap_els_def)
  show "sorted (emitted st)" using assms(1) by (simp add: merge_content_def)
  have "\<forall>i<m. pend st i = []" using assms(1) e by (simp add: merge_content_def)
  then show "mass m st = mset (emitted st)" by (simp add: mass_def e)
qed

text \<open>
  What makes the output complete, whether the inputs are sorted or not: an input with
  nothing in the queue, or whose block says the file is read to its end, has no unread
  items.
\<close>

definition merge_flow :: "nat \<Rightarrow> mstate \<Rightarrow> bool" where
  "merge_flow m st \<longleftrightarrow>
     (\<forall>i < m. i \<notin> idx ` set (heap_els (ms_queue st)) \<longrightarrow> pend st i = [])
   \<and> (\<forall>i < m. b_count (ms_blocks st ! i) = 0 \<longrightarrow> pend st i = [])"

lemma merge_content_flow: "merge_content m st \<Longrightarrow> merge_flow m st"
  by (simp add: merge_content_def merge_flow_def)

lemma merge_flow_round:
  assumes sh: "merge_shape bs m st" and c: "merge_flow m st" and r: "round_rel bs m st el st'"
  shows "merge_flow m st'"
proof -
  note rr = r[unfolded round_rel_def]
  note cc = c[unfolded merge_flow_def]
  define j where "j = idx el"
  define E where "E = set (heap_els (ms_queue st))"
  define E' where "E' = set (heap_els (ms_queue st'))"
  define R where "R = set_mset (mset (heap_els (ms_queue st)) - {#el#})"
  have jm: "j < m" and elE: "el \<in> E"
    and oth: "\<And>i. i < m \<Longrightarrow> i \<noteq> j \<Longrightarrow> pend st' i = pend st i
          \<and> b_count (ms_blocks st' ! i) = b_count (ms_blocks st ! i)"
    using rr by (simp_all add: j_def E_def)
  have ER: "E = insert el R"
    unfolding R_def E_def using elE[unfolded E_def]
    by (metis insert_DiffM set_mset_add_mset_insert set_mset_mset)
  have sub: "R \<subseteq> E'"
  proof -
    have "mset (heap_els (ms_queue st')) = mset (heap_els (ms_queue st)) - {#el#}
        \<or> mset (heap_els (ms_queue st'))
            = add_mset \<lparr>key = hd (pend st j), idx = j\<rparr> (mset (heap_els (ms_queue st)) - {#el#})"
      using rr by (auto simp: j_def split: if_splits)
    then show ?thesis
      unfolding R_def E'_def by (metis set_mset_add_mset_insert set_mset_mset subset_insertI subset_refl)
  qed
  have jcase: "pend st' j = [] \<or> (j \<in> idx ` E' \<and> b_count (ms_blocks st' ! j) \<noteq> 0)"
  proof (cases "b_count (ms_blocks st ! j) \<noteq> 0 \<and> pend st j \<noteq> []")
    case True
    then have "mset (heap_els (ms_queue st'))
        = add_mset \<lparr>key = hd (pend st j), idx = j\<rparr> (mset (heap_els (ms_queue st)) - {#el#})"
      and "b_count (ms_blocks st' ! j) \<noteq> 0"
      using rr by (auto simp: j_def split: if_splits)
    then have "\<lparr>key = hd (pend st j), idx = j\<rparr> \<in> E'" "b_count (ms_blocks st' ! j) \<noteq> 0"
      unfolding E'_def by (metis set_mset_mset union_single_eq_member, simp)
    then show ?thesis by force
  next
    case False
    then have b: "pend st' j = pend st j \<or> pend st' j = []"
      using rr by (auto simp: j_def split: if_splits)
    have "pend st j = []" using False cc jm by auto
    then show ?thesis using b by auto
  qed
  show ?thesis
    unfolding merge_flow_def E'_def[symmetric]
  proof (intro conjI allI impI)
    fix i assume i: "i < m" "i \<notin> idx ` E'"
    show "pend st' i = []"
    proof (cases "i = j")
      case True then show ?thesis using jcase i by auto
    next
      case False
      have "i \<notin> idx ` E"
      proof
        assume "i \<in> idx ` E"
        then obtain e where "e \<in> E" "idx e = i" by auto
        then have "e \<in> R" using ER False by (auto simp: j_def)
        then show False using i sub \<open>idx e = i\<close> by auto
      qed
      then show ?thesis using cc oth i False by (simp add: E_def)
    qed
  next
    fix i assume i: "i < m" "b_count (ms_blocks st' ! i) = 0"
    show "pend st' i = []"
    proof (cases "i = j")
      case True then show ?thesis using jcase i by auto
    next
      case False then show ?thesis using cc oth i by simp
    qed
  qed
qed

lemma merge_flow_done:
  assumes "merge_flow m st" "heap_empty (ms_queue st)" "heap_wf (ms_queue st)"
  shows "mass m st = mset (emitted st)"
proof -
  have e: "heap_els (ms_queue st) = []"
    using assms(2,3) by (simp add: heap_empty_def heap_els_def)
  have "\<forall>i<m. pend st i = []" using assms(1) e by (simp add: merge_flow_def)
  then show "mass m st = mset (emitted st)" by (simp add: mass_def e)
qed

subsection \<open>Priming the queue\<close>

lemma window_frame:
  assumes ij: "i < NMERGE" "j < NMERGE" "i \<noteq> j"
    and b: "b_buf (ms_blocks st ! i) = i * bs" "b_count (ms_blocks st ! i) \<le> bs"
    and same: "ms_blocks st' ! i = ms_blocks st ! i"
    and tot: "(NMERGE + 1) * bs \<le> length (ms_buf st)"
    and fr: "\<And>a n. a + n \<le> length (ms_buf st) \<Longrightarrow> a + n \<le> j * bs \<or> j * bs + bs \<le> a \<Longrightarrow>
          slice (ms_buf st') a n = slice (ms_buf st) a n"
  shows "window st' i = window st i"
proof (cases "b_count (ms_blocks st ! i) - b_pos (ms_blocks st ! i) = 0")
  case True
  then show ?thesis using same by (simp add: window_def Let_def slice_def)
next
  case False
  define c where "c = b_count (ms_blocks st ! i)"
  define p where "p = b_pos (ms_blocks st ! i)"
  have cb: "c \<le> bs" "p < c" using b False by (simp_all add: c_def p_def)
  have top: "i * bs + bs \<le> NMERGE * bs" using block_le[of i NMERGE bs] ij by simp
  have "slice (ms_buf st') (i * bs + p) (c - p) = slice (ms_buf st) (i * bs + p) (c - p)"
  proof (rule fr)
    show "i * bs + p + (c - p) \<le> length (ms_buf st)" using cb top tot by simp
    show "i * bs + p + (c - p) \<le> j * bs \<or> j * bs + bs \<le> i * bs + p"
    proof (cases "i < j")
      case True
      then have "(i + 1) * bs \<le> j * bs" by (rule block_le)
      then show ?thesis using cb by simp
    next
      case False
      then have "j < i" using ij by simp
      then have "(j + 1) * bs \<le> i * bs" by (rule block_le)
      then show ?thesis by simp
    qed
  qed
  then show ?thesis using same b by (simp add: window_def Let_def c_def p_def)
qed

text \<open>
  The shape of the state while the queue is primed, when the inputs \<open>0, \<dots>, k - 1\<close> of
  the files \<open>F\<close> have been read: the shape of the loop, \<open>k\<close> elements in the queue,
  nothing written yet, and the other inputs still unread.
\<close>

definition prime_shape :: "nat \<Rightarrow> nat \<Rightarrow> int list list \<Rightarrow> nat \<Rightarrow> mstate \<Rightarrow> bool" where
  "prime_shape bs m F k st \<longleftrightarrow>
     merge_shape bs m st \<and> h_count (ms_queue st) = k \<and> k \<le> m
   \<and> (\<forall>e \<in> set (heap_els (ms_queue st)). idx e < k)
   \<and> b_pos (ms_blocks st ! NMERGE) = 0 \<and> ms_fout st = []
   \<and> (\<forall>i. k \<le> i \<and> i < m \<longrightarrow> ms_fs st ! i = F ! i)"

definition prime_rel :: "nat \<Rightarrow> nat \<Rightarrow> int list list \<Rightarrow> nat \<Rightarrow> mstate \<Rightarrow> mstate \<Rightarrow> bool" where
  "prime_rel bs m F k st st1 \<longleftrightarrow>
     prime_shape bs m F (Suc k) st1 \<and> length (ms_buf st1) = length (ms_buf st)
   \<and> ms_room st1 = ms_room st
   \<and> (\<exists>x. mset (heap_els (ms_queue st1)) = add_mset \<lparr>key = x, idx = k\<rparr> (mset (heap_els (ms_queue st)))
          \<and> (F ! k \<noteq> [] \<longrightarrow> x = hd (F ! k)))
   \<and> (\<forall>i < k. pend st1 i = pend st i
          \<and> b_count (ms_blocks st1 ! i) = b_count (ms_blocks st ! i))
   \<and> pend st1 k = tl (F ! k)
   \<and> (F ! k \<noteq> [] \<longrightarrow> b_count (ms_blocks st1 ! k) \<noteq> 0)"

lemma kmerge_prime_step:
  assumes ps: "prime_shape bs m F k st" and km: "k < m"
  shows "\<exists>st1. prime_rel bs m F k st st1
           \<and> (\<forall>rest. kmerge_prime bs st (k # rest) = kmerge_prime bs st1 rest)"
proof -
  have sh: "merge_shape bs m st" and hc: "h_count (ms_queue st) = k"
    and ek: "\<forall>e \<in> set (heap_els (ms_queue st)). idx e < k"
    and po: "b_pos (ms_blocks st ! NMERGE) = 0" and fo: "ms_fout st = []"
    and fs: "\<forall>i. k \<le> i \<and> i < m \<longrightarrow> ms_fs st ! i = F ! i"
    using ps by (simp_all add: prime_shape_def)
  have q: "heap_wf (ms_queue st)" "heap_inv (ms_queue st)" "h_capacity (ms_queue st) = NMERGE"
      "distinct (map idx (heap_els (ms_queue st)))"
    and m: "m \<le> NMERGE" "length (ms_fs st) = m" and lb: "length (ms_blocks st) = NMERGE + 1"
    and bs: "0 < bs" "(NMERGE + 1) * bs \<le> length (ms_buf st)"
    and bl: "\<forall>i \<le> NMERGE. b_buf (ms_blocks st ! i) = i * bs \<and> b_size (ms_blocks st ! i) = bs"
    and cnt: "\<forall>i < NMERGE. b_count (ms_blocks st ! i) \<le> bs"
    using sh by (simp_all add: merge_shape_def)
  define b where "b = ms_blocks st ! k"
  define off where "off = k * bs"
  define buf where "buf = ms_buf st"
  define s where "s = F ! k"
  define n where "n = min bs (length s)"
  have k16: "k < NMERGE" "k < length (ms_blocks st)" "k < length (ms_fs st)"
    using km m lb by simp_all
  have bb: "b_buf b = off" using bl k16 by (simp add: b_def off_def)
  have fsk: "ms_fs st ! k = s" using fs km by (simp add: s_def)
  have blk: "off + bs \<le> NMERGE * bs" using block_le[of k NMERGE bs] k16 by (simp add: off_def)
  have tot: "NMERGE * bs + bs \<le> length buf" using bs by (simp add: buf_def)
  have g: "off + min bs (length s) \<le> length buf" using blk tot by simp
  obtain buf' where rd: "fread buf off bs s = Some (n, buf', drop bs s)"
    using fread_ok[OF g] by (auto simp: n_def)
  note rp = fread_Some[OF rd]
  have nle: "n \<le> bs" by (simp add: n_def)
  define x where "x = buf' ! off"
  define b1 where "b1 = b\<lparr>b_count := n, b_pos := 0\<rparr>"
  have inb: "off < length buf'" using blk tot bs rp(2) by simp
  have c: "h_count (ms_queue st) < h_capacity (ms_queue st)" using hc km m q(3) by simp
  obtain q' where ins: "heap_insert (ms_queue st) \<lparr>key = x, idx = k\<rparr> = Some q'"
    and q': "heap_wf q'" "heap_inv q'" "h_capacity q' = h_capacity (ms_queue st)"
      "mset (heap_els q') = add_mset \<lparr>key = x, idx = k\<rparr> (mset (heap_els (ms_queue st)))"
      "h_count q' = Suc (h_count (ms_queue st))"
    using heap_insert_shape[OF q(1,2) c] by metis
  define st1 where "st1 = st\<lparr>ms_queue := q', ms_buf := buf', ms_fs := (ms_fs st)[k := drop bs s],
      ms_blocks := (ms_blocks st)[k := b1\<lparr>b_pos := 1\<rparr>]\<rparr>"
  have unf: "kmerge_prime bs st (k # rest) = kmerge_prime bs st1 rest" for rest
    using k16 rd inb ins
    by (simp add: Let_def b_def[symmetric] bb buf_def[symmetric] fsk b1_def x_def[symmetric] st1_def)
  have fr: "slice buf' a l = slice buf a l"
    if "a + l \<le> length buf" "a + l \<le> off \<or> off + bs \<le> a" for a l
    using rp(6)[OF that(1)] that(2) nle by auto
  have set1: "set (heap_els q') = insert \<lparr>key = x, idx = k\<rparr> (set (heap_els (ms_queue st)))"
    using q'(4) by (metis set_mset_add_mset_insert set_mset_mset)
  have dist1: "distinct (map idx (heap_els q'))"
  proof -
    have "mset (map idx (heap_els q')) = image_mset idx (mset (heap_els q'))" by simp
    also have "\<dots> = mset (k # map idx (heap_els (ms_queue st)))" by (simp only: q'(4)) simp
    finally have "distinct (map idx (heap_els q')) = distinct (k # map idx (heap_els (ms_queue st)))"
      by (rule mset_eq_imp_distinct_iff)
    moreover have "k \<notin> set (map idx (heap_els (ms_queue st)))" using ek by auto
    ultimately show ?thesis using q(4) by simp
  qed
  have shape1: "merge_shape bs m st1"
    unfolding merge_shape_def
  proof (intro conjI)
    show "heap_wf (ms_queue st1)" "heap_inv (ms_queue st1)" using q' by (simp_all add: st1_def)
    show "h_capacity (ms_queue st1) = NMERGE" using q' q(3) by (simp add: st1_def)
    show "distinct (map idx (heap_els (ms_queue st1)))" using dist1 by (simp add: st1_def)
    show "\<forall>e\<in>set (heap_els (ms_queue st1)). idx e < m"
      using set1 ek km by (auto simp: st1_def)
    show "m \<le> NMERGE" "0 < bs" by fact+
    show "length (ms_fs st1) = m" using m by (simp add: st1_def)
    show "length (ms_blocks st1) = NMERGE + 1" using lb by (simp add: st1_def)
    show "(NMERGE + 1) * bs \<le> length (ms_buf st1)" using bs rp(2) by (simp add: st1_def buf_def)
    show "\<forall>i\<le>NMERGE. b_buf (ms_blocks st1 ! i) = i * bs \<and> b_size (ms_blocks st1 ! i) = bs"
      using bl k16 by (auto simp: st1_def b1_def b_def nth_list_update)
    show "\<forall>i<NMERGE. b_count (ms_blocks st1 ! i) \<le> bs"
      using cnt nle k16 by (auto simp: st1_def b1_def nth_list_update)
    show "b_pos (ms_blocks st1 ! NMERGE) < bs" using po bs k16 by (simp add: st1_def)
  qed
  have ps1: "prime_shape bs m F (Suc k) st1"
    unfolding prime_shape_def
    using shape1 q'(5) hc km set1 ek po fo fs k16
    by (auto simp: st1_def less_Suc_eq)
  have oth: "pend st1 i = pend st i \<and> b_count (ms_blocks st1 ! i) = b_count (ms_blocks st ! i)"
    if "i < k" for i
  proof -
    have i16: "i < NMERGE" "i \<noteq> k" using that k16 by simp_all
    have "window st1 i = window st i"
    proof (rule window_frame[OF i16(1) k16(1) i16(2)])
      show "b_buf (ms_blocks st ! i) = i * bs" "b_count (ms_blocks st ! i) \<le> bs"
        using bl cnt i16 by simp_all
      show "ms_blocks st1 ! i = ms_blocks st ! i" using i16 by (simp add: st1_def)
      show "(NMERGE + 1) * bs \<le> length (ms_buf st)" by fact
      show "slice (ms_buf st1) a l = slice (ms_buf st) a l"
        if "a + l \<le> length (ms_buf st)" "a + l \<le> k * bs \<or> k * bs + bs \<le> a" for a l
        using fr[of a l] that by (simp add: st1_def buf_def off_def)
    qed
    then show ?thesis using i16 by (simp add: pend_def st1_def)
  qed
  have w1: "window st1 k = slice buf' (Suc off) (n - 1)"
    using k16 by (simp add: window_def Let_def st1_def b1_def bb)
  have pk: "pend st1 k = tl s"
  proof (cases "s = []")
    case True
    then show ?thesis using w1 k16 by (simp add: pend_def st1_def n_def slice_def)
  next
    case False
    then have npos: "0 < n" using bs by (simp add: n_def)
    have front: "slice buf' off n = buf' ! off # slice buf' (Suc off) (n - 1)"
      using npos nle blk tot rp(2) by (intro slice_Suc_front) auto
    have "take bs s = buf' ! off # slice buf' (Suc off) (n - 1)" using rp(5) front by simp
    then have "window st1 k = tl (take bs s)" using w1 by simp
    moreover have "tl (take bs s) @ drop bs s = tl s"
      using False bs by (cases s; cases bs) auto
    ultimately show ?thesis using k16 by (simp add: pend_def st1_def)
  qed
  have xh: "x = hd s" if "s \<noteq> []"
  proof -
    have npos: "0 < n" using that bs by (simp add: n_def)
    have front: "slice buf' off n = buf' ! off # slice buf' (Suc off) (n - 1)"
      using npos nle blk tot rp(2) by (intro slice_Suc_front) auto
    have "take bs s = x # slice buf' (Suc off) (n - 1)" using rp(5) front by (simp add: x_def)
    then have "hd (take bs s) = x" by simp
    then show ?thesis using bs by (simp add: hd_take)
  qed
  have ck: "b_count (ms_blocks st1 ! k) \<noteq> 0" if "s \<noteq> []"
    using that bs k16 by (simp add: st1_def b1_def n_def)
  have "prime_rel bs m F k st st1"
    unfolding prime_rel_def
  proof (intro conjI)
    show "prime_shape bs m F (Suc k) st1" by (rule ps1)
    show "length (ms_buf st1) = length (ms_buf st)" using rp(2) by (simp add: st1_def buf_def)
    show "ms_room st1 = ms_room st" by (simp add: st1_def)
    show "\<exists>x. mset (heap_els (ms_queue st1)) = add_mset \<lparr>key = x, idx = k\<rparr> (mset (heap_els (ms_queue st)))
          \<and> (F ! k \<noteq> [] \<longrightarrow> x = hd (F ! k))"
      using q'(4) xh by (intro exI[of _ x]) (simp add: st1_def s_def)
    show "\<forall>i < k. pend st1 i = pend st i \<and> b_count (ms_blocks st1 ! i) = b_count (ms_blocks st ! i)"
      using oth by simp
    show "pend st1 k = tl (F ! k)" using pk by (simp add: s_def)
    show "F ! k \<noteq> [] \<longrightarrow> b_count (ms_blocks st1 ! k) \<noteq> 0" using ck by (simp add: s_def)
  qed
  then show ?thesis using unf by blast
qed

lemma kmerge_prime_total:
  assumes step: "\<And>k s s1. prime_shape bs m F k s \<Longrightarrow> J k s \<Longrightarrow> prime_rel bs m F k s s1 \<Longrightarrow> J (Suc k) s1"
  shows "prime_shape bs m F k st \<Longrightarrow> J k st \<Longrightarrow>
    \<exists>st'. kmerge_prime bs st [k..<m] = Some st' \<and> prime_shape bs m F m st' \<and> J m st'
        \<and> length (ms_buf st') = length (ms_buf st) \<and> ms_room st' = ms_room st"
proof (induction "m - k" arbitrary: k st)
  case 0
  then have "k = m" by (simp add: prime_shape_def)
  then show ?case using 0 by simp
next
  case (Suc d)
  then have km: "k < m" by simp
  obtain st1 where r: "prime_rel bs m F k st st1"
    and u: "\<And>rest. kmerge_prime bs st (k # rest) = kmerge_prime bs st1 rest"
    using kmerge_prime_step[OF Suc.prems(1) km] by blast
  have ps1: "prime_shape bs m F (Suc k) st1" and l: "length (ms_buf st1) = length (ms_buf st)"
    and ro: "ms_room st1 = ms_room st"
    using r by (simp_all add: prime_rel_def)
  have J1: "J (Suc k) st1" using step[OF Suc.prems r] .
  have d: "d = m - Suc k" using Suc.hyps(2) by simp
  obtain st' where "kmerge_prime bs st1 [Suc k..<m] = Some st'" "prime_shape bs m F m st'" "J m st'"
      "length (ms_buf st') = length (ms_buf st1)" "ms_room st' = ms_room st1"
    using Suc.hyps(1)[OF d ps1 J1] by blast
  then show ?case using u[of "[Suc k..<m]"] km l ro by (simp add: upt_conv_Cons)
qed

subsection \<open>A whole group\<close>

lemma sum_nth_concat: "(\<Sum>i<length F. mset (F ! i)) = mset (concat F)"
proof (induction F rule: rev_induct)
  case Nil
  then show ?case by simp
next
  case (snoc f F)
  have "(\<Sum>i<length F. mset ((F @ [f]) ! i)) = (\<Sum>i<length F. mset (F ! i))"
    by (intro sum.cong) (auto simp: nth_append)
  then show ?case using snoc by (simp add: nth_append)
qed

text \<open>
  What priming has put into the queue and left unread after the inputs \<open>0, \<dots>, k - 1\<close>,
  when none of the files is empty: the first item of each file is in the queue and the
  rest of the file is unread.
\<close>

definition prime_content :: "int list list \<Rightarrow> nat \<Rightarrow> mstate \<Rightarrow> bool" where
  "prime_content F k st \<longleftrightarrow>
     (\<forall>e \<in> set (heap_els (ms_queue st)). key e = hd (F ! idx e))
   \<and> (\<forall>i < k. pend st i = tl (F ! i) \<and> b_count (ms_blocks st ! i) \<noteq> 0
          \<and> i \<in> idx ` set (heap_els (ms_queue st)))
   \<and> image_mset key (mset (heap_els (ms_queue st))) + (\<Sum>i<k. mset (pend st i))
       = (\<Sum>i<k. mset (F ! i))"

lemma prime_content_step:
  assumes ne: "\<forall>i < m. F ! i \<noteq> []" and ps: "prime_shape bs m F k st"
    and pc: "prime_content F k st" and r: "prime_rel bs m F k st st1"
  shows "prime_content F (Suc k) st1"
proof -
  note rr = r[unfolded prime_rel_def]
  note cc = pc[unfolded prime_content_def]
  have cc3: "image_mset key (mset (heap_els (ms_queue st))) + (\<Sum>i<k. mset (pend st i))
       = (\<Sum>i<k. mset (F ! i))"
    using cc by blast
  have km: "k < m" using rr by (simp add: prime_shape_def)
  have fk: "F ! k \<noteq> []" using ne km by simp
  obtain x where h: "mset (heap_els (ms_queue st1))
      = add_mset \<lparr>key = x, idx = k\<rparr> (mset (heap_els (ms_queue st)))" and x: "x = hd (F ! k)"
    using rr fk by blast
  have set1: "set (heap_els (ms_queue st1)) = insert \<lparr>key = x, idx = k\<rparr> (set (heap_els (ms_queue st)))"
    using h by (metis set_mset_add_mset_insert set_mset_mset)
  have pk: "pend st1 k = tl (F ! k)" and ck: "b_count (ms_blocks st1 ! k) \<noteq> 0"
    and oth: "\<And>i. i < k \<Longrightarrow> pend st1 i = pend st i
        \<and> b_count (ms_blocks st1 ! i) = b_count (ms_blocks st ! i)"
    using rr fk by simp_all
  have s1: "(\<Sum>i<k. mset (pend st1 i)) = (\<Sum>i<k. mset (pend st i))"
    using oth by (intro sum.cong) auto
  have fkm: "mset (F ! k) = add_mset x (mset (tl (F ! k)))"
    using fk x by (cases "F ! k") auto
  show ?thesis
    unfolding prime_content_def
  proof (intro conjI)
    show "\<forall>e\<in>set (heap_els (ms_queue st1)). key e = hd (F ! idx e)"
      using cc set1 x by auto
    show "\<forall>i<Suc k. pend st1 i = tl (F ! i) \<and> b_count (ms_blocks st1 ! i) \<noteq> 0
          \<and> i \<in> idx ` set (heap_els (ms_queue st1))"
    proof (intro allI impI)
      fix i assume "i < Suc k"
      then consider "i < k" | "i = k" by linarith
      then show "pend st1 i = tl (F ! i) \<and> b_count (ms_blocks st1 ! i) \<noteq> 0
          \<and> i \<in> idx ` set (heap_els (ms_queue st1))"
      proof cases
        case 1
        then show ?thesis using cc oth set1 by auto
      next
        case 2
        then show ?thesis using pk ck set1 by force
      qed
    qed
    have "image_mset key (mset (heap_els (ms_queue st1))) + (\<Sum>i<Suc k. mset (pend st1 i))
        = add_mset x (image_mset key (mset (heap_els (ms_queue st))) + (\<Sum>i<k. mset (pend st i)))
          + mset (tl (F ! k))"
      by (simp add: h s1 pk)
    also have "\<dots> = (\<Sum>i<k. mset (F ! i)) + mset (F ! k)"
      by (simp only: cc3 fkm) simp
    finally show "image_mset key (mset (heap_els (ms_queue st1))) + (\<Sum>i<Suc k. mset (pend st1 i))
        = (\<Sum>i<Suc k. mset (F ! i))"
      by simp
  qed
qed

lemma prime_content_flow:
  assumes ps: "prime_shape bs m F m st" and pc: "prime_content F m st"
  shows "merge_flow m st" "mass m st = (\<Sum>i<m. mset (F ! i))"
proof -
  note cc = pc[unfolded prime_content_def]
  have em: "emitted st = []" using ps by (simp add: prime_shape_def emitted_def Let_def slice_def)
  have cc3: "image_mset key (mset (heap_els (ms_queue st))) + (\<Sum>i<m. mset (pend st i))
       = (\<Sum>i<m. mset (F ! i))"
    using cc by blast
  show "mass m st = (\<Sum>i<m. mset (F ! i))" using cc3 by (simp add: mass_def em)
  show "merge_flow m st"
    unfolding merge_flow_def using cc by force
qed

lemma prime_content_done:
  assumes ps: "prime_shape bs m F m st" and pc: "prime_content F m st"
    and so: "\<forall>i < m. sorted (F ! i)" and ne: "\<forall>i < m. F ! i \<noteq> []"
  shows "merge_content m st"
proof -
  note cc = pc[unfolded prime_content_def]
  have em: "emitted st = []" using ps by (simp add: prime_shape_def emitted_def Let_def slice_def)
  have im: "\<forall>e \<in> set (heap_els (ms_queue st)). idx e < m" using ps by (simp add: prime_shape_def)
  show "merge_content m st"
    unfolding merge_content_def em
  proof (intro conjI)
    show "\<forall>i<m. sorted (pend st i)"
      using cc so by (metis sorted_tl)
    show "\<forall>e\<in>set (heap_els (ms_queue st)). \<forall>x\<in>set (pend st (idx e)). key e \<le> x"
    proof (intro ballI)
      fix e x assume e: "e \<in> set (heap_els (ms_queue st))" and x: "x \<in> set (pend st (idx e))"
      define f where "f = F ! idx e"
      have "sorted f" "f \<noteq> []" "key e = hd f" "x \<in> set (tl f)"
        using e x im cc so ne by (auto simp: f_def)
      then show "key e \<le> x" by (cases f) auto
    qed
    show "\<forall>i<m. i \<notin> idx ` set (heap_els (ms_queue st)) \<longrightarrow> pend st i = []" using cc by simp
    show "\<forall>i<m. b_count (ms_blocks st ! i) = 0 \<longrightarrow> pend st i = []" using cc by force
    show "sorted ([]::int list)" by simp
    show "\<forall>x\<in>set ([]::int list). \<forall>e\<in>set (heap_els (ms_queue st)). x \<le> key e" by simp
  qed
qed

text \<open>
  The state \<open>kmerge_merge\<close> sets up and every group leaves behind: an empty queue of
  capacity \<open>NMERGE\<close> and a buffer of \<open>buf_nmemb > NMERGE\<close> cells.
\<close>

definition merge_ready :: "merge \<Rightarrow> bool" where
  "merge_ready obj \<longleftrightarrow>
     heap_wf (m_queue obj) \<and> h_count (m_queue obj) = 0 \<and> h_capacity (m_queue obj) = NMERGE
   \<and> NMERGE < m_buf_nmemb obj \<and> length (m_buf obj) = m_buf_nmemb obj"

lemma kmerge_blocks_init_shape:
  assumes "merge_ready obj" "length fs \<le> NMERGE"
  shows "prime_shape (m_buf_nmemb obj div (NMERGE + 1)) (length fs) fs 0 (kmerge_blocks_init obj d fs)"
proof -
  define bs where "bs = m_buf_nmemb obj div (NMERGE + 1)"
  define st where "st = kmerge_blocks_init obj d fs"
  have r: "heap_wf (m_queue obj)" "h_count (m_queue obj) = 0" "h_capacity (m_queue obj) = NMERGE"
      "NMERGE < m_buf_nmemb obj" "length (m_buf obj) = m_buf_nmemb obj"
    using assms(1) by (simp_all add: merge_ready_def)
  have f: "ms_queue st = m_queue obj" "ms_buf st = m_buf obj" "ms_fs st = fs" "ms_fout st = []"
      "ms_room st = d_room d"
      "ms_blocks st = map (\<lambda>i. \<lparr>b_buf = i * bs, b_size = bs, b_count = 0, b_pos = 0\<rparr>) [0..<NMERGE + 1]"
    by (simp_all add: st_def kmerge_blocks_init_def Let_def bs_def)
  have blk: "ms_blocks st ! i = \<lparr>b_buf = i * bs, b_size = bs, b_count = 0, b_pos = 0\<rparr>"
    if "i \<le> NMERGE" for i
    using that unfolding f(6) by (simp add: nth_map_upt del: upt_Suc)
  have els: "heap_els (ms_queue st) = []" using r by (simp add: heap_els_def f)
  have bpos: "0 < bs" using r(4) by (simp add: bs_def NMERGE_def)
  have "(NMERGE + 1) * bs \<le> m_buf_nmemb obj"
    unfolding bs_def by (rule times_div_less_eq_dividend)
  then have fit: "(NMERGE + 1) * bs \<le> length (ms_buf st)"
    using r(5) by (simp only: f)
  have "merge_shape bs (length fs) st"
    unfolding merge_shape_def
    using r assms(2) els bpos fit blk
    by (simp add: f(1,2,3) heap_inv_def heap_on_def) (simp add: f(6))
  then show ?thesis
    unfolding prime_shape_def bs_def[symmetric] st_def[symmetric]
    using r els blk by (simp add: f(1,3,4))
qed

lemma merge_out_flush_effect:
  assumes len: "length (ms_blocks st) = NMERGE + 1"
    and ob: "b_buf (ms_blocks st ! NMERGE) = NMERGE * bs" "b_pos (ms_blocks st ! NMERGE) \<le> bs"
    and buf: "(NMERGE + 1) * bs \<le> length (ms_buf st)"
  shows "\<exists>ok st2. merge_out_flush st = Some (ok, st2) \<and> ms_queue st2 = ms_queue st
      \<and> ms_buf st2 = ms_buf st \<and> (ok \<longrightarrow> ms_fout st2 = emitted st)"
proof -
  define out where "out = ms_blocks st ! NMERGE"
  have g: "b_buf out + b_pos out \<le> length (ms_buf st)" using ob buf by (simp add: out_def)
  obtain n wfile room where w: "fwrite (ms_buf st) (b_buf out) (b_pos out) (ms_fout st) (ms_room st)
      = Some (n, wfile, room)"
    using fwrite_ok[OF g] by (metis prod_cases3)
  note wp = fwrite_Some[OF w]
  have lenb: "NMERGE < length (ms_blocks st)" using len by simp
  show ?thesis
  proof (cases "n = b_pos out")
    case True
    have "merge_out_flush st = Some (True, st\<lparr>ms_fout := wfile, ms_room := room,
        ms_blocks := (ms_blocks st)[NMERGE := out\<lparr>b_pos := 0\<rparr>]\<rparr>)"
      using lenb w True by (simp add: merge_out_flush_def Let_def out_def[symmetric])
    moreover have "wfile = emitted st" using wp(2) True by (simp add: emitted_def Let_def out_def)
    ultimately show ?thesis
      by (intro exI[of _ True] exI[of _ "st\<lparr>ms_fout := wfile, ms_room := room,
        ms_blocks := (ms_blocks st)[NMERGE := out\<lparr>b_pos := 0\<rparr>]\<rparr>"]) simp
  next
    case False
    have "merge_out_flush st = Some (False, st\<lparr>ms_fout := wfile, ms_room := room\<rparr>)"
      using lenb w False by (simp add: merge_out_flush_def Let_def out_def[symmetric])
    then show ?thesis
      by (intro exI[of _ False] exI[of _ "st\<lparr>ms_fout := wfile, ms_room := room\<rparr>"]) simp
  qed
qed

lemma kmerge_merge_blocks_total:
  assumes step: "\<And>s el s'. merge_shape bs m s \<Longrightarrow> I s \<Longrightarrow> round_rel bs m s el s' \<Longrightarrow> I s'"
    and sh: "merge_shape bs m st" and i: "I st"
  shows "\<exists>ok st2. kmerge_merge_blocks st = Some (ok, st2) \<and>
      (ok \<longrightarrow> (\<exists>st'. merge_shape bs m st' \<and> I st' \<and> heap_empty (ms_queue st')
          \<and> mass m st' = mass m st \<and> ms_fout st2 = emitted st'
          \<and> ms_queue st2 = ms_queue st' \<and> length (ms_buf st2) = length (ms_buf st)))"
proof -
  obtain ok st' where lp: "kmerge_merge_blocks_loop st = Some (ok, st')"
    and post: "ok \<longrightarrow> merge_shape bs m st' \<and> I st' \<and> heap_empty (ms_queue st')
            \<and> length (ms_buf st') = length (ms_buf st) \<and> mass m st' = mass m st"
  proof -
    have "\<exists>ok st'. kmerge_merge_blocks_loop st = Some (ok, st') \<and>
      (ok \<longrightarrow> merge_shape bs m st' \<and> I st' \<and> heap_empty (ms_queue st')
            \<and> length (ms_buf st') = length (ms_buf st) \<and> mass m st' = mass m st)"
    proof (rule kmerge_merge_blocks_loop_total[where I=I and bs=bs and m=m and st=st])
      show "I s'" if "merge_shape bs m s" "I s" "round_rel bs m s el s'" for s el s'
        using step that by blast
      show "merge_shape bs m st" by (rule sh)
      show "I st" by (rule i)
    qed
    then show ?thesis using that by blast
  qed
  show ?thesis
  proof (cases ok)
    case False
    then have "kmerge_merge_blocks st = Some (False, st')"
      using lp by (simp add: kmerge_merge_blocks_def)
    then show ?thesis by (intro exI[of _ False] exI[of _ st']) simp
  next
    case True
    note p = post[rule_format, OF True]
    have sh': "merge_shape bs m st'" using p by simp
    have lb: "length (ms_blocks st') = NMERGE + 1"
      and ob: "b_buf (ms_blocks st' ! NMERGE) = NMERGE * bs" "b_pos (ms_blocks st' ! NMERGE) \<le> bs"
      and bf: "(NMERGE + 1) * bs \<le> length (ms_buf st')"
      using sh' by (simp_all add: merge_shape_def less_imp_le)
    show ?thesis
    proof (cases "b_pos (ms_blocks st' ! NMERGE) \<noteq> 0")
      case False
      have "kmerge_merge_blocks st = Some (True, st')"
        using lp True False by (simp add: kmerge_merge_blocks_def)
      moreover have "ms_fout st' = emitted st'"
        using False by (simp add: emitted_def Let_def slice_def)
      ultimately show ?thesis using p by (intro exI[of _ True] exI[of _ st']) auto
    next
      case pos: True
      obtain ok2 st2 where fl: "merge_out_flush st' = Some (ok2, st2)"
        and f2: "ms_queue st2 = ms_queue st'" "ms_buf st2 = ms_buf st'"
          "ok2 \<longrightarrow> ms_fout st2 = emitted st'"
        using merge_out_flush_effect[OF lb ob bf] by blast
      have "kmerge_merge_blocks st = Some (ok2, st2)"
        using lp True pos lb fl by (simp add: kmerge_merge_blocks_def)
      then show ?thesis using p f2 by (intro exI[of _ ok2] exI[of _ st2]) auto
    qed
  qed
qed

text \<open>
  \<open>kmerge_merge_files\<close> on at most \<open>NMERGE\<close> inputs always returns; when it returns
  success, the object is ready for the next group and exactly one file of the directory
  has changed; if no input is empty, that file holds the items of the inputs, and if
  moreover every input is sorted, it is sorted.
\<close>

lemma kmerge_merge_files_total:
  assumes rd: "merge_ready obj" and m: "length fs \<le> NMERGE"
  shows "\<exists>ret obj' d'. kmerge_merge_files obj d fs stage outn = Some (ret, obj', d') \<and>
     (ret \<longrightarrow> merge_ready obj' \<and> m_fcount obj' = m_fcount obj
        \<and> m_buf_nmemb obj' = m_buf_nmemb obj
        \<and> (\<exists>out. d_files d' = (d_files d)((stage + 1, outn) \<mapsto> out)
              \<and> ((\<forall>f \<in> set fs. f \<noteq> []) \<longrightarrow> mset out = mset (concat fs))
              \<and> ((\<forall>f \<in> set fs. sorted f \<and> f \<noteq> []) \<longrightarrow> sorted out)))"
proof -
  define bs where "bs = m_buf_nmemb obj div (NMERGE + 1)"
  define n where "n = length fs"
  define ne where "ne \<longleftrightarrow> (\<forall>f \<in> set fs. f \<noteq> [])"
  define good where "good \<longleftrightarrow> (\<forall>f \<in> set fs. sorted f \<and> f \<noteq> [])"
  define st0 where "st0 = kmerge_blocks_init obj d fs"
  have gn: "good \<Longrightarrow> ne" by (auto simp: good_def ne_def)
  have gne: "ne \<Longrightarrow> \<forall>i < n. fs ! i \<noteq> []" and gso: "good \<Longrightarrow> \<forall>i < n. sorted (fs ! i)"
    by (auto simp: good_def ne_def n_def)
  have ps0: "prime_shape bs n fs 0 st0"
    unfolding bs_def n_def st0_def by (rule kmerge_blocks_init_shape[OF rd m])
  have pc0: "ne \<longrightarrow> prime_content fs 0 st0"
    using ps0 by (simp add: prime_content_def prime_shape_def heap_els_def)
  obtain st1 where pr: "kmerge_prime bs st0 [0..<n] = Some st1" and ps1: "prime_shape bs n fs n st1"
    and pc1: "ne \<longrightarrow> prime_content fs n st1" and l1: "length (ms_buf st1) = length (ms_buf st0)"
  proof -
    have "\<exists>st'. kmerge_prime bs st0 [0..<n] = Some st' \<and> prime_shape bs n fs n st'
        \<and> (ne \<longrightarrow> prime_content fs n st')
        \<and> length (ms_buf st') = length (ms_buf st0) \<and> ms_room st' = ms_room st0"
    proof (rule kmerge_prime_total[where J="\<lambda>k s. ne \<longrightarrow> prime_content fs k s" and bs=bs and m=n
          and F=fs and k=0 and st=st0])
      show "ne \<longrightarrow> prime_content fs (Suc k) s1"
        if "prime_shape bs n fs k s" "ne \<longrightarrow> prime_content fs k s" "prime_rel bs n fs k s s1"
        for k s s1
        using prime_content_step[where m=n and F=fs and bs=bs and k=k and st=s and ?st1.0=s1] gne that
        by blast
      show "prime_shape bs n fs 0 st0" by (rule ps0)
      show "ne \<longrightarrow> prime_content fs 0 st0" by (rule pc0)
    qed
    then show ?thesis using that by blast
  qed
  have sh1: "merge_shape bs n st1" using ps1 by (simp add: prime_shape_def)
  have f1: "ne \<longrightarrow> merge_flow n st1"
    using prime_content_flow(1)[OF ps1] pc1 by blast
  have c1: "good \<longrightarrow> merge_content n st1"
    using prime_content_done[OF ps1] pc1 gne gso gn by blast
  have m1: "ne \<longrightarrow> mass n st1 = mset (concat fs)"
    using prime_content_flow(2)[OF ps1] pc1 sum_nth_concat[of fs] by (simp add: n_def)
  obtain ok st2 where mb: "kmerge_merge_blocks st1 = Some (ok, st2)"
    and post: "ok \<longrightarrow> (\<exists>st'. merge_shape bs n st'
          \<and> ((ne \<longrightarrow> merge_flow n st') \<and> (good \<longrightarrow> merge_content n st'))
          \<and> heap_empty (ms_queue st') \<and> mass n st' = mass n st1 \<and> ms_fout st2 = emitted st'
          \<and> ms_queue st2 = ms_queue st' \<and> length (ms_buf st2) = length (ms_buf st1))"
  proof -
    have "\<exists>ok st2. kmerge_merge_blocks st1 = Some (ok, st2) \<and>
      (ok \<longrightarrow> (\<exists>st'. merge_shape bs n st'
          \<and> ((ne \<longrightarrow> merge_flow n st') \<and> (good \<longrightarrow> merge_content n st'))
          \<and> heap_empty (ms_queue st') \<and> mass n st' = mass n st1 \<and> ms_fout st2 = emitted st'
          \<and> ms_queue st2 = ms_queue st' \<and> length (ms_buf st2) = length (ms_buf st1)))"
    proof (rule kmerge_merge_blocks_total[where
          I="\<lambda>s. (ne \<longrightarrow> merge_flow n s) \<and> (good \<longrightarrow> merge_content n s)" and bs=bs
          and m=n and st=st1])
      show "(ne \<longrightarrow> merge_flow n s') \<and> (good \<longrightarrow> merge_content n s')"
        if "merge_shape bs n s" "(ne \<longrightarrow> merge_flow n s) \<and> (good \<longrightarrow> merge_content n s)"
          "round_rel bs n s el s'" for s el s'
        using merge_content_round[where bs=bs and m=n and st=s and el=el and st'=s']
          merge_flow_round[where bs=bs and m=n and st=s and el=el and st'=s'] that by blast
      show "merge_shape bs n st1" by (rule sh1)
      show "(ne \<longrightarrow> merge_flow n st1) \<and> (good \<longrightarrow> merge_content n st1)" using f1 c1 by blast
    qed
    then show ?thesis using that by blast
  qed
  define obj' where "obj' = obj\<lparr>m_queue := ms_queue st2, m_buf := ms_buf st2\<rparr>"
  define d' where "d' = d\<lparr>d_files := (d_files d)((stage + 1, outn) \<mapsto> ms_fout st2), d_room := ms_room st2\<rparr>"
  have res: "kmerge_merge_files obj d fs stage outn = Some (ok, obj', d')"
    unfolding kmerge_merge_files_def Let_def bs_def[symmetric] n_def[symmetric]
        st0_def[symmetric] obj'_def d'_def
    using pr mb by simp
  have "merge_ready obj' \<and> m_fcount obj' = m_fcount obj \<and> m_buf_nmemb obj' = m_buf_nmemb obj
        \<and> (\<exists>out. d_files d' = (d_files d)((stage + 1, outn) \<mapsto> out)
              \<and> (ne \<longrightarrow> mset out = mset (concat fs)) \<and> (good \<longrightarrow> sorted out))" if okk: ok
  proof -
    obtain st' where sh': "merge_shape bs n st'" and fl': "ne \<longrightarrow> merge_flow n st'"
      and c': "good \<longrightarrow> merge_content n st'"
      and he: "heap_empty (ms_queue st')" and ms: "mass n st' = mass n st1"
      and fo: "ms_fout st2 = emitted st'" and qq: "ms_queue st2 = ms_queue st'"
      and lb: "length (ms_buf st2) = length (ms_buf st1)"
      using post okk by blast
    have wf: "heap_wf (ms_queue st')" "h_capacity (ms_queue st') = NMERGE"
      using sh' by (simp_all add: merge_shape_def)
    have r0: "NMERGE < m_buf_nmemb obj" "length (m_buf obj) = m_buf_nmemb obj"
      using rd by (simp_all add: merge_ready_def)
    have "length (ms_buf st0) = length (m_buf obj)"
      by (simp add: st0_def kmerge_blocks_init_def Let_def)
    then have ready: "merge_ready obj'"
      using wf he r0 lb l1 by (simp add: merge_ready_def obj'_def qq heap_empty_def)
    have cnt: "mset (ms_fout st2) = mset (concat fs)" if g: ne
      using merge_flow_done[OF _ he wf(1), of n] fl' m1 ms fo g by simp
    have srt: "sorted (ms_fout st2)" if g: good
      using merge_content_done(1)[OF _ he wf(1), of n] c' fo g by simp
    show ?thesis
      using ready cnt srt by (auto simp: obj'_def d'_def)
  qed
  then show ?thesis using res unfolding good_def ne_def by blast
qed

subsection \<open>The queue stays within its capacity; the output of a group is sorted\<close>

text \<open>
  Claim C7. In a merge of \<open>m \<le> 16\<close> input streams, with the queue of capacity 16 that
  \<open>kmerge_merge\<close> creates: priming the queue passes every assertion of \<open>heap_insert\<close> and
  reaches the loop in a state of the shape \<open>merge_shape\<close>, in which the elements of the
  queue come from different input streams; in every state of that shape the queue
  holds at most \<open>m\<close> elements, and a round of the loop from such a state returns
  (no assertion of \<open>heap_insert\<close> or \<open>heap_pop\<close> fails, no access leaves the buffer) and,
  unless a write falls short, ends in a state of that shape again; so
  \<open>kmerge_merge_files\<close> always returns.
\<close>

theorem kmerge_queue_within_capacity:
  assumes "merge_ready obj" and "length fs \<le> NMERGE"
  shows "(\<exists>st1. kmerge_prime (m_buf_nmemb obj div (NMERGE + 1)) (kmerge_blocks_init obj d fs)
                  [0..<length fs] = Some st1
              \<and> merge_shape (m_buf_nmemb obj div (NMERGE + 1)) (length fs) st1)
       \<and> (\<forall>st. merge_shape (m_buf_nmemb obj div (NMERGE + 1)) (length fs) st \<longrightarrow>
              distinct (map idx (heap_els (ms_queue st)))
            \<and> h_count (ms_queue st) \<le> length fs
            \<and> h_capacity (ms_queue st) = 16
            \<and> (\<not> heap_empty (ms_queue st) \<longrightarrow>
                 (\<exists>ok st'. kmerge_merge_round st = Some (ok, st')
                    \<and> (ok \<longrightarrow> merge_shape (m_buf_nmemb obj div (NMERGE + 1)) (length fs) st'))))
       \<and> (\<exists>ret obj' d'. kmerge_merge_files obj d fs stage outn = Some (ret, obj', d'))"
proof (intro conjI allI impI)
  define bs where "bs = m_buf_nmemb obj div (NMERGE + 1)"
  have ps0: "prime_shape bs (length fs) fs 0 (kmerge_blocks_init obj d fs)"
    unfolding bs_def by (rule kmerge_blocks_init_shape[OF assms])
  have "\<exists>st'. kmerge_prime bs (kmerge_blocks_init obj d fs) [0..<length fs] = Some st'
      \<and> prime_shape bs (length fs) fs (length fs) st' \<and> True
      \<and> length (ms_buf st') = length (ms_buf (kmerge_blocks_init obj d fs))
      \<and> ms_room st' = ms_room (kmerge_blocks_init obj d fs)"
    by (rule kmerge_prime_total[where J="\<lambda>k s. True" and bs=bs and m="length fs" and F=fs and k=0])
       (simp_all add: ps0)
  then show "\<exists>st1. kmerge_prime (m_buf_nmemb obj div (NMERGE + 1)) (kmerge_blocks_init obj d fs)
                  [0..<length fs] = Some st1
              \<and> merge_shape (m_buf_nmemb obj div (NMERGE + 1)) (length fs) st1"
    unfolding bs_def[symmetric] by (auto simp: prime_shape_def)
next
  fix st assume "merge_shape (m_buf_nmemb obj div (NMERGE + 1)) (length fs) st"
  then show "distinct (map idx (heap_els (ms_queue st)))" "h_capacity (ms_queue st) = 16"
    by (simp_all add: merge_shape_def NMERGE_def)
next
  fix st assume "merge_shape (m_buf_nmemb obj div (NMERGE + 1)) (length fs) st"
  then show "h_count (ms_queue st) \<le> length fs" by (rule merge_shape_count)
next
  fix st assume sh: "merge_shape (m_buf_nmemb obj div (NMERGE + 1)) (length fs) st"
    and ne: "\<not> heap_empty (ms_queue st)"
  obtain ok st' where "kmerge_merge_round st = Some (ok, st')"
      "ok \<longrightarrow> (\<exists>el. round_rel (m_buf_nmemb obj div (NMERGE + 1)) (length fs) st el st')"
    using kmerge_merge_round_effect[OF sh ne] by blast
  then show "\<exists>ok st'. kmerge_merge_round st = Some (ok, st')
      \<and> (ok \<longrightarrow> merge_shape (m_buf_nmemb obj div (NMERGE + 1)) (length fs) st')"
    by (auto simp: round_rel_def)
next
  show "\<exists>ret obj' d'. kmerge_merge_files obj d fs stage outn = Some (ret, obj', d')"
    using kmerge_merge_files_total[OF assms, of d stage outn] by blast
qed

theorem kmerge_queue_within_capacity_witness:
  "\<exists>ret obj' d'.
     kmerge_merge_files
       \<lparr>m_fcount = 2, m_buf = replicate 17 0, m_buf_nmemb = 17,
        m_queue = \<lparr>h_capacity = 16, h_count = 0, h_arr = replicate 16 \<lparr>key = 0, idx = 0\<rparr>\<rparr>\<rparr>
       \<lparr>d_files = Map.empty, d_room = 10\<rparr> [[1, 3], [2]] 0 0 = Some (ret, obj', d')"
proof -
  have r: "merge_ready \<lparr>m_fcount = 2, m_buf = replicate 17 0, m_buf_nmemb = 17,
        m_queue = \<lparr>h_capacity = 16, h_count = 0, h_arr = replicate 16 \<lparr>key = 0, idx = 0\<rparr>\<rparr>\<rparr>"
    by (simp add: merge_ready_def heap_wf_def NMERGE_def)
  have l: "length [[1, 3], [2::int]] \<le> NMERGE" by (simp add: NMERGE_def)
  show ?thesis
    using kmerge_queue_within_capacity[OF r l, of "\<lparr>d_files = Map.empty, d_room = 10\<rparr>" 0 0]
    by blast
qed


lemma kmerge_merge_files_example:
  "map_option (\<lambda>(ret, obj', d'). (ret, d_files d' (1, 0)))
     (kmerge_merge_files
       \<lparr>m_fcount = 2, m_buf = replicate 17 0, m_buf_nmemb = 17,
        m_queue = \<lparr>h_capacity = 16, h_count = 0, h_arr = replicate 16 \<lparr>key = 0, idx = 0\<rparr>\<rparr>\<rparr>
       \<lparr>d_files = Map.empty, d_room = 10\<rparr> [[1, 3], [2]] 0 0)
   = Some (True, Some [1, 2, 3])"
  by code_simp


subsection \<open>Stages and the whole merge\<close>

text \<open>
  \<open>kmerge_copy\<close> with a buffer of at least one cell always returns; when it returns
  success, everything of the source has been appended to the target.
\<close>

lemma kmerge_copy_effect:
  assumes "0 < nmemb" "nmemb \<le> length buf"
  shows "\<exists>ret buf' to' room'. kmerge_copy buf nmemb from to room = Some (ret, buf', to', room')
      \<and> length buf' = length buf \<and> (ret \<longrightarrow> to' = to @ from)"
  using assms
proof (induction "length from" arbitrary: buf "from" to room rule: less_induct)
  case less
  define items where "items = take nmemb from"
  define buf1 where "buf1 = items @ drop (length items) buf"
  have li: "length items \<le> length buf" using less.prems by (simp add: items_def)
  have fr: "fread buf 0 nmemb from = Some (length items, buf1, drop nmemb from)"
    using li by (simp add: fread_def Let_def items_def buf1_def)
  have l1: "length buf1 = length buf" using li by (simp add: buf1_def)
  show ?case
  proof (cases "length items = 0")
    case True
    then have e: "from = []" using less.prems(1) by (cases "from") (auto simp: items_def)
    have "kmerge_copy buf nmemb from to room = Some (True, buf1, to, room)"
      using fr True by (simp add: kmerge_copy.simps[of buf nmemb "from" to room])
    then show ?thesis using l1 e by auto
  next
    case False
    define n where "n = min (length items) room"
    have fw: "fwrite buf1 0 (length items) to room = Some (n, to @ take n buf1, room - n)"
      using li l1 by (simp add: fwrite_def Let_def n_def)
    show ?thesis
    proof (cases "n = length items")
      case True
      have t: "take n buf1 = items" using True by (simp add: buf1_def)
      have sh: "length (drop nmemb from) < length from"
        using False less.prems(1) by (auto simp: items_def)
      have "\<exists>ret buf' to' room'.
          kmerge_copy buf1 nmemb (drop nmemb from) (to @ items) (room - n) = Some (ret, buf', to', room')
          \<and> length buf' = length buf1 \<and> (ret \<longrightarrow> to' = (to @ items) @ drop nmemb from)"
        using less.hyps[OF sh less.prems(1), of buf1 "to @ items" "room - n"] less.prems(2) l1
        by simp
      then obtain ret buf' to' room' where
        r: "kmerge_copy buf1 nmemb (drop nmemb from) (to @ items) (room - n) = Some (ret, buf', to', room')"
          "length buf' = length buf1" "ret \<longrightarrow> to' = (to @ items) @ drop nmemb from"
        by blast
      have "items @ drop nmemb from = from" by (simp add: items_def)
      moreover have "kmerge_copy buf nmemb from to room = Some (ret, buf', to', room')"
        using fr fw True False t r(1)
        by (simp add: kmerge_copy.simps[of buf nmemb "from" to room])
      ultimately show ?thesis using r(2,3) l1 by auto
    next
      case F2: False
      have "kmerge_copy buf nmemb from to room = Some (False, buf1, to @ take n buf1, room - n)"
        using fr fw False F2 by (simp add: kmerge_copy.simps[of buf nmemb "from" to room])
      then show ?thesis using l1 by auto
    qed
  qed
qed

subsection \<open>The files of a stage\<close>

text \<open>
  File \<open>j\<close> of stage \<open>s\<close>; the files \<open>0, \<dots>, n - 1\<close> of stage \<open>s\<close> exist and none is empty;
  the items they hold together; all of them are sorted; no file of the directory is
  empty.
\<close>

definition stage_file :: "disk \<Rightarrow> nat \<Rightarrow> nat \<Rightarrow> int list" where
  "stage_file d s j = (case d_files d (s, j) of None \<Rightarrow> [] | Some c \<Rightarrow> c)"

definition stage_ok :: "disk \<Rightarrow> nat \<Rightarrow> nat \<Rightarrow> bool" where
  "stage_ok d s n \<longleftrightarrow> (\<forall>j < n. \<exists>c. d_files d (s, j) = Some c \<and> c \<noteq> [])"

definition stage_mset :: "disk \<Rightarrow> nat \<Rightarrow> nat \<Rightarrow> int multiset" where
  "stage_mset d s n = (\<Sum>j < n. mset (stage_file d s j))"

definition stage_sorted :: "disk \<Rightarrow> nat \<Rightarrow> nat \<Rightarrow> bool" where
  "stage_sorted d s n \<longleftrightarrow> (\<forall>j < n. sorted (stage_file d s j))"

definition files_nonempty :: "disk \<Rightarrow> bool" where
  "files_nonempty d \<longleftrightarrow> (\<forall>name c. d_files d name = Some c \<longrightarrow> c \<noteq> [])"

text \<open>
  The inputs of group \<open>k\<close> when a stage has \<open>n\<close> files, and what it means that the
  groups \<open>a, \<dots>, b - 1\<close> of stage \<open>s\<close> have been merged on the way from directory \<open>d\<close> to
  directory \<open>d'\<close>: file \<open>k\<close> of stage \<open>s + 1\<close> holds the items of the inputs of group \<open>k\<close>,
  sorted if they are, and no other file has changed.
\<close>

definition group_of :: "nat \<Rightarrow> nat \<Rightarrow> nat set" where
  "group_of n k = {NMERGE * k ..< min (NMERGE * k + NMERGE) n}"

definition groups_done :: "disk \<Rightarrow> disk \<Rightarrow> nat \<Rightarrow> nat \<Rightarrow> nat \<Rightarrow> nat \<Rightarrow> bool" where
  "groups_done d d' s n a b \<longleftrightarrow>
     (\<forall>t k. t \<noteq> s + 1 \<or> k < a \<or> b \<le> k \<longrightarrow> d_files d' (t, k) = d_files d (t, k))
   \<and> (\<forall>k. a \<le> k \<and> k < b \<longrightarrow>
         (\<exists>out. d_files d' (s + 1, k) = Some out
            \<and> mset out = (\<Sum>j \<in> group_of n k. mset (stage_file d s j))
            \<and> ((\<forall>j \<in> group_of n k. sorted (stage_file d s j)) \<longrightarrow> sorted out)))"

lemma groups_done_refl: "groups_done d d s n a a"
  by (auto simp: groups_done_def)

lemma groups_done_stage_file:
  "groups_done d d' s n a b \<Longrightarrow> stage_file d' s j = stage_file d s j"
  by (simp add: groups_done_def stage_file_def)

lemma groups_done_stage_ok:
  "groups_done d d' s n a b \<Longrightarrow> stage_ok d s m \<Longrightarrow> stage_ok d' s m"
  by (simp add: groups_done_def stage_ok_def)

lemma groups_done_trans:
  assumes g1: "groups_done d d1 s n a b" and g2: "groups_done d1 d2 s n b c"
    and ab: "a \<le> b" and bc: "b \<le> c"
  shows "groups_done d d2 s n a c"
  unfolding groups_done_def
proof (intro conjI allI impI)
  fix t k assume h: "t \<noteq> s + 1 \<or> k < a \<or> c \<le> k"
  have "d_files d2 (t, k) = d_files d1 (t, k)"
    using g2 h ab unfolding groups_done_def by (metis less_le_trans)
  moreover have "d_files d1 (t, k) = d_files d (t, k)"
    using g1 h bc unfolding groups_done_def by (metis le_trans)
  ultimately show "d_files d2 (t, k) = d_files d (t, k)" by simp
next
  fix k assume h: "a \<le> k \<and> k < c"
  show "\<exists>out. d_files d2 (s + 1, k) = Some out
            \<and> mset out = (\<Sum>j \<in> group_of n k. mset (stage_file d s j))
            \<and> ((\<forall>j \<in> group_of n k. sorted (stage_file d s j)) \<longrightarrow> sorted out)"
  proof (cases "k < b")
    case True
    have "d_files d2 (s + 1, k) = d_files d1 (s + 1, k)"
      using g2 True unfolding groups_done_def by blast
    then show ?thesis using g1 h True unfolding groups_done_def by simp
  next
    case False
    have "\<exists>out. d_files d2 (s + 1, k) = Some out
            \<and> mset out = (\<Sum>j \<in> group_of n k. mset (stage_file d1 s j))
            \<and> ((\<forall>j \<in> group_of n k. sorted (stage_file d1 s j)) \<longrightarrow> sorted out)"
      using g2 h False unfolding groups_done_def by simp
    then show ?thesis by (simp add: groups_done_stage_file[OF g1])
  qed
qed

lemma mset_concat_upt:
  "mset (concat (map f [a..<b])) = (\<Sum>j \<in> {a..<b}. mset (f j))"
proof (induction b)
  case 0
  then show ?case by simp
next
  case (Suc b)
  show ?case
  proof (cases "a \<le> b")
    case True
    then show ?thesis using Suc by (simp add: sum.atLeastLessThan_Suc)
  next
    case False
    then show ?thesis by simp
  qed
qed

text \<open>What one successful \<open>kmerge_merge_files\<close> on the inputs of group \<open>k\<close> does.\<close>

lemma groups_done_one:
  assumes ok: "stage_ok d s n"
    and fs: "fs = map (stage_file d s) [NMERGE * k ..< min (NMERGE * k + NMERGE) n]"
    and d1: "d_files d1 = (d_files d)((s + 1, k) \<mapsto> out)"
    and ms: "(\<forall>f \<in> set fs. f \<noteq> []) \<longrightarrow> mset out = mset (concat fs)"
    and so: "(\<forall>f \<in> set fs. sorted f \<and> f \<noteq> []) \<longrightarrow> sorted out"
  shows "groups_done d d1 s n k (Suc k)"
proof -
  have ne: "stage_file d s j \<noteq> []" if "j < n" for j
    using ok that by (auto simp: stage_ok_def stage_file_def)
  have sfs: "set fs = stage_file d s ` group_of n k"
    by (simp add: fs group_of_def)
  have n1: "\<forall>f \<in> set fs. f \<noteq> []"
    unfolding sfs using ne by (auto simp: group_of_def)
  have m: "mset out = (\<Sum>j \<in> group_of n k. mset (stage_file d s j))"
    using ms n1 by (simp add: fs mset_concat_upt group_of_def)
  have s: "(\<forall>j \<in> group_of n k. sorted (stage_file d s j)) \<longrightarrow> sorted out"
    using so n1 unfolding sfs by blast
  show ?thesis
    unfolding groups_done_def
  proof (intro conjI allI impI)
    fix t ka assume "t \<noteq> s + 1 \<or> ka < k \<or> Suc k \<le> ka"
    then show "d_files d1 (t, ka) = d_files d (t, ka)" by (auto simp: d1)
  next
    fix ka assume "k \<le> ka \<and> ka < Suc k"
    then have "ka = k" by simp
    then show "\<exists>out. d_files d1 (s + 1, ka) = Some out
            \<and> mset out = (\<Sum>j \<in> group_of n ka. mset (stage_file d s j))
            \<and> ((\<forall>j \<in> group_of n ka. sorted (stage_file d s j)) \<longrightarrow> sorted out)"
      using m s by (simp add: d1)
  qed
qed

text \<open>
  The loop of \<open>kmerge_merge_stage\<close>, started at file \<open>i\<close> with the files of the current
  group read so far: it returns, and on success it has merged every full group from that
  of \<open>i\<close> on and holds the files of the last, partial group.
\<close>

lemma kmerge_merge_stage_loop_effect:
  assumes "merge_ready obj" "stage_ok d s fcount" "i \<le> fcount"
    "fs = map (stage_file d s) [NMERGE * (i div NMERGE) ..< i]"
  shows "\<exists>ret obj' d' fs'. kmerge_merge_stage_loop obj d s fcount i fs = Some (ret, obj', d', fs')
     \<and> (ret \<longrightarrow> merge_ready obj' \<and> m_fcount obj' = m_fcount obj
          \<and> m_buf_nmemb obj' = m_buf_nmemb obj
          \<and> fs' = map (stage_file d s) [NMERGE * (fcount div NMERGE) ..< fcount]
          \<and> groups_done d d' s fcount (i div NMERGE) (fcount div NMERGE))"
  using assms
proof (induction "fcount - i" arbitrary: obj d i fs rule: less_induct)
  case less
  note rd = less.prems(1) and ok = less.prems(2) and le = less.prems(3) and fs = less.prems(4)
  show ?case
  proof (cases "i < fcount")
    case False
    then have "kmerge_merge_stage_loop obj d s fcount i fs = Some (True, obj, d, fs)"
      by (simp add: kmerge_merge_stage_loop.simps[of obj d s fcount i fs])
    moreover have "i = fcount" using False le by simp
    ultimately show ?thesis
      using rd fs groups_done_refl[of d s fcount "fcount div NMERGE"] by auto
  next
    case True
    obtain content where c: "d_files d (s, i) = Some content" "content \<noteq> []"
      using ok True by (auto simp: stage_ok_def)
    have sf: "stage_file d s i = content" by (simp add: stage_file_def c)
    define k where "k = i div NMERGE"
    define fs1 where "fs1 = fs @ [content]"
    have lo: "NMERGE * k \<le> i" by (simp add: k_def)
    have fs1: "fs1 = map (stage_file d s) [NMERGE * k ..< Suc i]"
      using lo by (simp add: fs1_def fs k_def sf)
    define r where "r = i mod NMERGE"
    have ir: "i = NMERGE * k + r" by (simp add: k_def r_def)
    have rl: "r < NMERGE" by (simp add: r_def NMERGE_def)
    have l1: "length fs1 = Suc r"
      unfolding fs1 using ir by simp
    show ?thesis
    proof (cases "length fs1 = NMERGE")
      case full: True
      have e: "Suc i = NMERGE * k + NMERGE"
        using full l1 ir by simp
      have mn: "min (NMERGE * k + NMERGE) fcount = Suc i" using e True by simp
      have "\<exists>ret obj1 d1. kmerge_merge_files obj d fs1 s k = Some (ret, obj1, d1) \<and>
         (ret \<longrightarrow> merge_ready obj1 \<and> m_fcount obj1 = m_fcount obj
            \<and> m_buf_nmemb obj1 = m_buf_nmemb obj
            \<and> (\<exists>out. d_files d1 = (d_files d)((s + 1, k) \<mapsto> out)
                  \<and> ((\<forall>f \<in> set fs1. f \<noteq> []) \<longrightarrow> mset out = mset (concat fs1))
                  \<and> ((\<forall>f \<in> set fs1. sorted f \<and> f \<noteq> []) \<longrightarrow> sorted out)))"
        by (rule kmerge_merge_files_total[OF rd]) (simp add: full)
      then obtain ret obj1 d1 where mf: "kmerge_merge_files obj d fs1 s k = Some (ret, obj1, d1)"
        and post: "ret \<longrightarrow> merge_ready obj1 \<and> m_fcount obj1 = m_fcount obj
            \<and> m_buf_nmemb obj1 = m_buf_nmemb obj
            \<and> (\<exists>out. d_files d1 = (d_files d)((s + 1, k) \<mapsto> out)
                  \<and> ((\<forall>f \<in> set fs1. f \<noteq> []) \<longrightarrow> mset out = mset (concat fs1))
                  \<and> ((\<forall>f \<in> set fs1. sorted f \<and> f \<noteq> []) \<longrightarrow> sorted out))"
        by blast
      show ?thesis
      proof (cases ret)
        case False
        then have "kmerge_merge_stage_loop obj d s fcount i fs = Some (False, obj1, d1, fs1)"
          using c full mf \<open>i < fcount\<close>
          by (simp add: kmerge_merge_stage_loop.simps[of obj d s fcount i fs] fs1_def k_def)
        then show ?thesis by auto
      next
        case True
        then obtain out where rd1: "merge_ready obj1" and f1: "m_fcount obj1 = m_fcount obj"
          and n1: "m_buf_nmemb obj1 = m_buf_nmemb obj"
          and dd: "d_files d1 = (d_files d)((s + 1, k) \<mapsto> out)"
          and ms: "(\<forall>f \<in> set fs1. f \<noteq> []) \<longrightarrow> mset out = mset (concat fs1)"
          and so: "(\<forall>f \<in> set fs1. sorted f \<and> f \<noteq> []) \<longrightarrow> sorted out"
          using post by blast
        have g1: "groups_done d d1 s fcount k (Suc k)"
          by (rule groups_done_one[OF ok _ dd ms so]) (simp add: fs1 mn)
        have ok1: "stage_ok d1 s fcount" by (rule groups_done_stage_ok[OF g1 ok])
        have dv: "Suc i div NMERGE = Suc k" using e by (simp add: NMERGE_def)
        have "\<exists>ret obj' d' fs'.
            kmerge_merge_stage_loop obj1 d1 s fcount (Suc i) [] = Some (ret, obj', d', fs')
          \<and> (ret \<longrightarrow> merge_ready obj' \<and> m_fcount obj' = m_fcount obj1
              \<and> m_buf_nmemb obj' = m_buf_nmemb obj1
              \<and> fs' = map (stage_file d1 s) [NMERGE * (fcount div NMERGE) ..< fcount]
              \<and> groups_done d1 d' s fcount (Suc i div NMERGE) (fcount div NMERGE))"
        proof (rule less.hyps[OF _ rd1 ok1])
          show "fcount - Suc i < fcount - i" using \<open>i < fcount\<close> by simp
          show "Suc i \<le> fcount" using \<open>i < fcount\<close> by simp
          show "[] = map (stage_file d1 s) [NMERGE * (Suc i div NMERGE) ..< Suc i]"
            using e by (simp add: dv)
        qed
        then obtain r2 obj' d' fs' where
          lp: "kmerge_merge_stage_loop obj1 d1 s fcount (Suc i) [] = Some (r2, obj', d', fs')"
          and p2: "r2 \<longrightarrow> merge_ready obj' \<and> m_fcount obj' = m_fcount obj1
              \<and> m_buf_nmemb obj' = m_buf_nmemb obj1
              \<and> fs' = map (stage_file d1 s) [NMERGE * (fcount div NMERGE) ..< fcount]
              \<and> groups_done d1 d' s fcount (Suc k) (fcount div NMERGE)"
          unfolding dv by blast
        have res: "kmerge_merge_stage_loop obj d s fcount i fs = Some (r2, obj', d', fs')"
          using c full mf True lp \<open>i < fcount\<close>
          by (simp add: kmerge_merge_stage_loop.simps[of obj d s fcount i fs] fs1_def k_def)
        have "Suc k * NMERGE \<le> fcount" using e \<open>i < fcount\<close> by (simp add: mult.commute)
        then have kk: "Suc k \<le> fcount div NMERGE"
          by (simp add: less_eq_div_iff_mult_less_eq NMERGE_def)
        have sf1: "stage_file d1 s = stage_file d s"
          using groups_done_stage_file[OF g1] by (rule ext)
        have q1: "r2 \<longrightarrow> merge_ready obj'" using p2 by blast
        have q2: "r2 \<longrightarrow> m_fcount obj' = m_fcount obj" using p2 f1 by simp
        have q3: "r2 \<longrightarrow> m_buf_nmemb obj' = m_buf_nmemb obj" using p2 n1 by simp
        have q4: "r2 \<longrightarrow> fs' = map (stage_file d s) [NMERGE * (fcount div NMERGE) ..< fcount]"
          using p2 unfolding sf1 by blast
        have q5: "r2 \<longrightarrow> groups_done d d' s fcount (i div NMERGE) (fcount div NMERGE)"
        proof
          assume r2
          then have "groups_done d1 d' s fcount (Suc k) (fcount div NMERGE)" using p2 by blast
          then show "groups_done d d' s fcount (i div NMERGE) (fcount div NMERGE)"
            unfolding k_def[symmetric] by (rule groups_done_trans[OF g1 _ _ kk]) simp
        qed
        show ?thesis using res q1 q2 q3 q4 q5 by blast
      qed
    next
      case part: False
      have "Suc r < NMERGE" using part l1 rl by simp
      moreover have "Suc i = Suc r + k * NMERGE" using ir by (simp add: mult.commute)
      ultimately have dv: "Suc i div NMERGE = k" by (simp only: div_mult_self1 div_less)
      have "\<exists>ret obj' d' fs'.
            kmerge_merge_stage_loop obj d s fcount (Suc i) fs1 = Some (ret, obj', d', fs')
          \<and> (ret \<longrightarrow> merge_ready obj' \<and> m_fcount obj' = m_fcount obj
              \<and> m_buf_nmemb obj' = m_buf_nmemb obj
              \<and> fs' = map (stage_file d s) [NMERGE * (fcount div NMERGE) ..< fcount]
              \<and> groups_done d d' s fcount (Suc i div NMERGE) (fcount div NMERGE))"
      proof (rule less.hyps[OF _ rd ok])
        show "fcount - Suc i < fcount - i" using \<open>i < fcount\<close> by simp
        show "Suc i \<le> fcount" using \<open>i < fcount\<close> by simp
        show "fs1 = map (stage_file d s) [NMERGE * (Suc i div NMERGE) ..< Suc i]"
          by (simp only: dv fs1)
      qed
      moreover have "kmerge_merge_stage_loop obj d s fcount i fs
          = kmerge_merge_stage_loop obj d s fcount (Suc i) fs1"
        using c part \<open>i < fcount\<close>
        by (simp add: kmerge_merge_stage_loop.simps[of obj d s fcount i fs] fs1_def)
      ultimately show ?thesis by (simp only: dv k_def)
    qed
  qed
qed

text \<open>
  \<open>kmerge_merge_stage\<close> on \<open>fcount\<close> non-empty files of stage \<open>s\<close> returns, and on success it
  has merged every group, the last, partial one included (copied, when it is a single
  file).
\<close>

lemma ceil_div_NMERGE:
  "ceil_div n NMERGE = (if n mod NMERGE = 0 then n div NMERGE else Suc (n div NMERGE))"
proof -
  define k where "k = n div NMERGE"
  define r where "r = n mod NMERGE"
  have n: "n = r + k * NMERGE" by (simp add: k_def r_def)
  have rl: "r < NMERGE" by (simp add: r_def NMERGE_def)
  show ?thesis
  proof (cases "r = 0")
    case True
    then have "ceil_div n NMERGE = (NMERGE - 1 + k * NMERGE) div NMERGE"
      by (simp add: ceil_div_def n NMERGE_def)
    also have "\<dots> = k" by (simp add: NMERGE_def)
    finally show ?thesis using True by (simp add: k_def r_def)
  next
    case False
    then have "ceil_div n NMERGE = (r - 1 + Suc k * NMERGE) div NMERGE"
      by (simp add: ceil_div_def n NMERGE_def)
    also have "\<dots> = Suc k" using rl by (simp add: NMERGE_def)
    finally show ?thesis using False by (simp add: k_def r_def)
  qed
qed

lemma kmerge_merge_stage_effect:
  assumes rd: "merge_ready obj" and ok: "stage_ok d s fcount"
  shows "\<exists>ret obj' d'. kmerge_merge_stage obj d s fcount = Some (ret, obj', d')
     \<and> (ret \<longrightarrow> merge_ready obj' \<and> m_fcount obj' = m_fcount obj
          \<and> m_buf_nmemb obj' = m_buf_nmemb obj
          \<and> groups_done d d' s fcount 0 (ceil_div fcount NMERGE))"
proof -
  define K where "K = fcount div NMERGE"
  define r where "r = fcount mod NMERGE"
  have n: "fcount = NMERGE * K + r" by (simp add: K_def r_def)
  have rl: "r < NMERGE" by (simp add: r_def NMERGE_def)
  have "\<exists>ret obj' d' fs'. kmerge_merge_stage_loop obj d s fcount 0 [] = Some (ret, obj', d', fs')
     \<and> (ret \<longrightarrow> merge_ready obj' \<and> m_fcount obj' = m_fcount obj
          \<and> m_buf_nmemb obj' = m_buf_nmemb obj
          \<and> fs' = map (stage_file d s) [NMERGE * (fcount div NMERGE) ..< fcount]
          \<and> groups_done d d' s fcount (0 div NMERGE) (fcount div NMERGE))"
    by (rule kmerge_merge_stage_loop_effect[OF rd ok]) simp_all
  then obtain r1 obj1 d1 fs' where
    lp: "kmerge_merge_stage_loop obj d s fcount 0 [] = Some (r1, obj1, d1, fs')"
    and p1: "r1 \<longrightarrow> merge_ready obj1 \<and> m_fcount obj1 = m_fcount obj
          \<and> m_buf_nmemb obj1 = m_buf_nmemb obj
          \<and> fs' = map (stage_file d s) [NMERGE * K ..< fcount]
          \<and> groups_done d d1 s fcount 0 K"
    unfolding K_def by auto
  show ?thesis
  proof (cases r1)
    case False
    then have "kmerge_merge_stage obj d s fcount = Some (False, obj1, d1)"
      using lp by (simp add: kmerge_merge_stage_def)
    then show ?thesis by auto
  next
    case True
    then have rd1: "merge_ready obj1" and f1: "m_fcount obj1 = m_fcount obj"
      and n1: "m_buf_nmemb obj1 = m_buf_nmemb obj"
      and fs': "fs' = map (stage_file d s) [NMERGE * K ..< fcount]"
      and g1: "groups_done d d1 s fcount 0 K"
      using p1 by blast+
    have lf: "length fs' = r" using n by (simp add: fs')
    have ok1: "stage_ok d1 s fcount" by (rule groups_done_stage_ok[OF g1 ok])
    have sf1: "stage_file d1 s = stage_file d s"
      using groups_done_stage_file[OF g1] by (rule ext)
    have fs1: "fs' = map (stage_file d1 s) [NMERGE * K ..< min (NMERGE * K + NMERGE) fcount]"
      using n rl by (simp add: fs' sf1)
    have cd: "ceil_div fcount NMERGE = (if r = 0 then K else Suc K)"
      by (simp add: ceil_div_NMERGE K_def r_def)
    consider (none) "r = 0" | (one) "r = 1" | (more) "1 < r" by arith
    then show ?thesis
    proof cases
      case none
      then have "kmerge_merge_stage obj d s fcount = Some (True, obj1, d1)"
        using lp True lf by (simp add: kmerge_merge_stage_def)
      then show ?thesis using rd1 f1 n1 g1 cd none by auto
    next
      case one
      have bn: "0 < m_buf_nmemb obj1" "m_buf_nmemb obj1 \<le> length (m_buf obj1)"
        using rd1 by (simp_all add: merge_ready_def)
      have "\<exists>ret buf' to' room'.
          kmerge_copy (m_buf obj1) (m_buf_nmemb obj1) (fs' ! 0) [] (d_room d1) = Some (ret, buf', to', room')
          \<and> length buf' = length (m_buf obj1) \<and> (ret \<longrightarrow> to' = [] @ fs' ! 0)"
        by (rule kmerge_copy_effect[OF bn])
      then obtain ret buf' to' room' where
        kc: "kmerge_copy (m_buf obj1) (m_buf_nmemb obj1) (fs' ! 0) [] (d_room d1) = Some (ret, buf', to', room')"
        and lb: "length buf' = length (m_buf obj1)" and tt: "ret \<longrightarrow> to' = fs' ! 0"
        by auto
      define obj' where "obj' = obj1\<lparr>m_buf := buf'\<rparr>"
      define d' where "d' = d1\<lparr>d_files := (d_files d1)((s + 1, K) \<mapsto> to'), d_room := room'\<rparr>"
      have res: "kmerge_merge_stage obj d s fcount = Some (ret, obj', d')"
        using lp True lf one kc by (simp add: kmerge_merge_stage_def obj'_def d'_def K_def)
      have "merge_ready obj' \<and> m_fcount obj' = m_fcount obj \<and> m_buf_nmemb obj' = m_buf_nmemb obj
          \<and> groups_done d d' s fcount 0 (ceil_div fcount NMERGE)" if ret
      proof -
        have one_file: "fs' = [to']" using tt that lf one by (cases fs') auto
        have g2: "groups_done d1 d' s fcount K (Suc K)"
        proof (rule groups_done_one[OF ok1 fs1])
          show "d_files d' = (d_files d1)((s + 1, K) \<mapsto> to')" by (simp add: d'_def)
          show "(\<forall>f\<in>set fs'. f \<noteq> []) \<longrightarrow> mset to' = mset (concat fs')" by (simp add: one_file)
          show "(\<forall>f\<in>set fs'. sorted f \<and> f \<noteq> []) \<longrightarrow> sorted to'" by (simp add: one_file)
        qed
        have "groups_done d d' s fcount 0 (Suc K)"
          by (rule groups_done_trans[OF g1 g2]) simp_all
        moreover have "merge_ready obj'"
          using rd1 lb by (simp add: merge_ready_def obj'_def)
        ultimately show ?thesis using f1 n1 cd one by (simp add: obj'_def)
      qed
      then show ?thesis using res by blast
    next
      case more
      have "\<exists>ret obj' d'. kmerge_merge_files obj1 d1 fs' s K = Some (ret, obj', d') \<and>
         (ret \<longrightarrow> merge_ready obj' \<and> m_fcount obj' = m_fcount obj1
            \<and> m_buf_nmemb obj' = m_buf_nmemb obj1
            \<and> (\<exists>out. d_files d' = (d_files d1)((s + 1, K) \<mapsto> out)
                  \<and> ((\<forall>f \<in> set fs'. f \<noteq> []) \<longrightarrow> mset out = mset (concat fs'))
                  \<and> ((\<forall>f \<in> set fs'. sorted f \<and> f \<noteq> []) \<longrightarrow> sorted out)))"
        by (rule kmerge_merge_files_total[OF rd1]) (use lf rl in simp)
      then obtain ret obj' d' where mf: "kmerge_merge_files obj1 d1 fs' s K = Some (ret, obj', d')"
        and post: "ret \<longrightarrow> merge_ready obj' \<and> m_fcount obj' = m_fcount obj1
            \<and> m_buf_nmemb obj' = m_buf_nmemb obj1
            \<and> (\<exists>out. d_files d' = (d_files d1)((s + 1, K) \<mapsto> out)
                  \<and> ((\<forall>f \<in> set fs'. f \<noteq> []) \<longrightarrow> mset out = mset (concat fs'))
                  \<and> ((\<forall>f \<in> set fs'. sorted f \<and> f \<noteq> []) \<longrightarrow> sorted out))"
        by blast
      have res: "kmerge_merge_stage obj d s fcount = Some (ret, obj', d')"
        using lp True lf more mf by (simp add: kmerge_merge_stage_def K_def)
      have "merge_ready obj' \<and> m_fcount obj' = m_fcount obj \<and> m_buf_nmemb obj' = m_buf_nmemb obj
          \<and> groups_done d d' s fcount 0 (ceil_div fcount NMERGE)" if rt: ret
      proof -
        obtain out where rd': "merge_ready obj'" and f': "m_fcount obj' = m_fcount obj1"
          and n': "m_buf_nmemb obj' = m_buf_nmemb obj1"
          and dd: "d_files d' = (d_files d1)((s + 1, K) \<mapsto> out)"
          and ms: "(\<forall>f \<in> set fs'. f \<noteq> []) \<longrightarrow> mset out = mset (concat fs')"
          and so: "(\<forall>f \<in> set fs'. sorted f \<and> f \<noteq> []) \<longrightarrow> sorted out"
          using post rt by blast
        have g2: "groups_done d1 d' s fcount K (Suc K)"
          by (rule groups_done_one[OF ok1 fs1 dd ms so])
        have "groups_done d d' s fcount 0 (Suc K)"
          by (rule groups_done_trans[OF g1 g2]) simp_all
        then show ?thesis using rd' f' n' f1 n1 cd more by simp
      qed
      then show ?thesis using res by blast
    qed
  qed
qed

text \<open>
  What a merged stage means for the next one: its \<open>\<lceil>n / 16\<rceil>\<close> files exist, none is
  empty, they hold the items of the \<open>n\<close> files of the stage before, and they are sorted
  if those are.
\<close>

lemma sum_group_of:
  fixes f :: "nat \<Rightarrow> 'a::comm_monoid_add"
  shows "(\<Sum>k < K. \<Sum>j \<in> group_of n k. f j) = (\<Sum>j < min (NMERGE * K) n. f j)"
proof (induction K)
  case 0
  then show ?case by simp
next
  case (Suc K)
  show ?case
  proof (cases "NMERGE * K \<le> n")
    case True
    define e where "e = min (NMERGE * K + NMERGE) n"
    have le: "NMERGE * K \<le> e" using True by (simp add: e_def)
    have "(\<Sum>k < Suc K. \<Sum>j \<in> group_of n k. f j)
        = sum f {0..<NMERGE * K} + sum f {NMERGE * K..<e}"
      using Suc True by (simp add: group_of_def e_def lessThan_atLeast0 min_def)
    also have "\<dots> = sum f {0..<e}"
      by (rule sum.atLeastLessThan_concat[OF _ le]) simp
    finally show ?thesis by (simp add: e_def lessThan_atLeast0 add.commute)
  next
    case False
    then show ?thesis using Suc by (simp add: group_of_def min_def)
  qed
qed

lemma groups_done_next_stage:
  assumes g: "groups_done d d' s n 0 (ceil_div n NMERGE)" and ok: "stage_ok d s n"
  shows "stage_ok d' (s + 1) (ceil_div n NMERGE)"
    and "stage_mset d' (s + 1) (ceil_div n NMERGE) = stage_mset d s n"
    and "stage_sorted d s n \<longrightarrow> stage_sorted d' (s + 1) (ceil_div n NMERGE)"
    and "files_nonempty d \<longrightarrow> files_nonempty d'"
    and "\<forall>t k. t \<noteq> s + 1 \<longrightarrow> d_files d' (t, k) = d_files d (t, k)"
proof -
  define K where "K = ceil_div n NMERGE"
  have N: "0 < NMERGE" by (simp add: NMERGE_def)
  have grp: "\<exists>out. d_files d' (s + 1, k) = Some out
            \<and> mset out = (\<Sum>j \<in> group_of n k. mset (stage_file d s j))
            \<and> ((\<forall>j \<in> group_of n k. sorted (stage_file d s j)) \<longrightarrow> sorted out)" if "k < K" for k
    using g that unfolding groups_done_def K_def by simp
  have frame: "d_files d' (t, k) = d_files d (t, k)" if "t \<noteq> s + 1 \<or> K \<le> k" for t k
    using g that unfolding groups_done_def K_def by simp
  have ne: "stage_file d s j \<noteq> []" if "j < n" for j
    using ok that by (auto simp: stage_ok_def stage_file_def)
  have first: "NMERGE * k \<in> group_of n k" if "k < K" for k
  proof -
    have "\<not> n \<le> k * NMERGE" using that ceil_div_le_iff[OF N, of n k] by (simp add: K_def)
    then show ?thesis by (simp add: group_of_def mult.commute N)
  qed
  have sub: "j < n" if "j \<in> group_of n k" for j k
    using that by (simp add: group_of_def)
  have out_ne: "out \<noteq> []"
    if "k < K" "mset out = (\<Sum>j \<in> group_of n k. mset (stage_file d s j))" for k out
  proof
    assume "out = []"
    then have "(\<Sum>j \<in> group_of n k. mset (stage_file d s j)) = {#}" using that by simp
    moreover have "(\<Sum>j \<in> group_of n k. mset (stage_file d s j))
        = mset (stage_file d s (NMERGE * k))
          + (\<Sum>j \<in> group_of n k - {NMERGE * k}. mset (stage_file d s j))"
      by (rule sum.remove[OF _ first[OF that(1)]]) (simp add: group_of_def)
    ultimately have "mset (stage_file d s (NMERGE * k)) = {#}" by simp
    then show False using ne[OF sub[OF first[OF that(1)]]] by simp
  qed
  show "stage_ok d' (s + 1) (ceil_div n NMERGE)"
    unfolding stage_ok_def K_def[symmetric] using grp out_ne by blast
  have sf: "mset (stage_file d' (s + 1) k) = (\<Sum>j \<in> group_of n k. mset (stage_file d s j))"
    if "k < K" for k
    using grp[OF that] by (auto simp: stage_file_def)
  have "stage_mset d' (s + 1) K = (\<Sum>k < K. \<Sum>j \<in> group_of n k. mset (stage_file d s j))"
    unfolding stage_mset_def by (rule sum.cong) (use sf in simp_all)
  also have "\<dots> = (\<Sum>j < min (NMERGE * K) n. mset (stage_file d s j))"
    by (rule sum_group_of)
  also have "min (NMERGE * K) n = n"
    using ceil_div_le_iff[OF N, of n K] by (simp add: K_def mult.commute)
  finally show "stage_mset d' (s + 1) (ceil_div n NMERGE) = stage_mset d s n"
    by (simp add: K_def stage_mset_def)
  show "stage_sorted d s n \<longrightarrow> stage_sorted d' (s + 1) (ceil_div n NMERGE)"
    unfolding K_def[symmetric]
  proof
    assume a: "stage_sorted d s n"
    show "stage_sorted d' (s + 1) K"
      unfolding stage_sorted_def
    proof (intro allI impI)
      fix k assume k: "k < K"
      obtain out where o: "d_files d' (s + 1, k) = Some out"
        "(\<forall>j \<in> group_of n k. sorted (stage_file d s j)) \<longrightarrow> sorted out"
        using grp[OF k] by blast
      have "\<forall>j \<in> group_of n k. sorted (stage_file d s j)"
        using a sub by (auto simp: stage_sorted_def)
      then show "sorted (stage_file d' (s + 1) k)" using o by (simp add: stage_file_def)
    qed
  qed
  show "files_nonempty d \<longrightarrow> files_nonempty d'"
  proof
    assume a: "files_nonempty d"
    show "files_nonempty d'"
      unfolding files_nonempty_def
    proof (intro allI impI)
      fix name c assume c: "d_files d' name = Some c"
      obtain t k where nm: "name = (t, k)" by (cases name)
      show "c \<noteq> []"
      proof (cases "t \<noteq> s + 1 \<or> K \<le> k")
        case True
        then have "d_files d name = Some c" using frame c nm by simp
        then show ?thesis using a unfolding files_nonempty_def by blast
      next
        case False
        then have k: "k < K" and t: "t = s + 1" by simp_all
        then show ?thesis using grp[OF k] out_ne[OF k] c nm by auto
      qed
    qed
  qed
  show "\<forall>t k. t \<noteq> s + 1 \<longrightarrow> d_files d' (t, k) = d_files d (t, k)"
    using frame by blast
qed

text \<open>
  The loop of \<open>kmerge_merge_all\<close> from stage \<open>i\<close> on, and \<open>kmerge_merge\<close>: they return, and on
  success the last stage holds the items of the first, sorted if the files of the first
  stage are, and no file of the directory is empty if none was.
\<close>

lemma kmerge_merge_all_loop_effect:
  assumes "merge_ready obj" "stage_ok d i (kmerge_calc_stage_files (m_fcount obj) i)" "i \<le> stages"
  shows "\<exists>ret obj' d'. kmerge_merge_all_loop obj d stages i = Some (ret, obj', d')
     \<and> (ret \<longrightarrow> merge_ready obj' \<and> m_buf_nmemb obj' = m_buf_nmemb obj
          \<and> stage_ok d' stages (kmerge_calc_stage_files (m_fcount obj) stages)
          \<and> stage_mset d' stages (kmerge_calc_stage_files (m_fcount obj) stages)
              = stage_mset d i (kmerge_calc_stage_files (m_fcount obj) i)
          \<and> (stage_sorted d i (kmerge_calc_stage_files (m_fcount obj) i)
               \<longrightarrow> stage_sorted d' stages (kmerge_calc_stage_files (m_fcount obj) stages))
          \<and> (files_nonempty d \<longrightarrow> files_nonempty d'))"
  using assms
proof (induction "stages - i" arbitrary: obj d i rule: less_induct)
  case less
  note rd = less.prems(1) and ok = less.prems(2) and le = less.prems(3)
  define F where "F = m_fcount obj"
  define n where "n = kmerge_calc_stage_files F i"
  show ?case
  proof (cases "i < stages")
    case False
    then have "kmerge_merge_all_loop obj d stages i = Some (True, obj, d)"
      by (simp add: kmerge_merge_all_loop.simps[of obj d stages i])
    moreover have "i = stages" using False le by simp
    ultimately show ?thesis using rd ok by auto
  next
    case True
    have "\<exists>ret obj' d'. kmerge_merge_stage obj d i n = Some (ret, obj', d')
       \<and> (ret \<longrightarrow> merge_ready obj' \<and> m_fcount obj' = m_fcount obj
          \<and> m_buf_nmemb obj' = m_buf_nmemb obj
          \<and> groups_done d d' i n 0 (ceil_div n NMERGE))"
      using kmerge_merge_stage_effect[OF rd, of d i n] ok by (simp add: n_def F_def)
    then obtain r1 obj1 d1 where st: "kmerge_merge_stage obj d i n = Some (r1, obj1, d1)"
      and p1: "r1 \<longrightarrow> merge_ready obj1 \<and> m_fcount obj1 = m_fcount obj
          \<and> m_buf_nmemb obj1 = m_buf_nmemb obj
          \<and> groups_done d d1 i n 0 (ceil_div n NMERGE)"
      by blast
    show ?thesis
    proof (cases r1)
      case False
      then have "kmerge_merge_all_loop obj d stages i = Some (False, obj1, d1)"
        using st True by (simp add: kmerge_merge_all_loop.simps[of obj d stages i] n_def F_def)
      then show ?thesis by auto
    next
      case r1: True
      then have rd1: "merge_ready obj1" and f1: "m_fcount obj1 = F"
        and n1: "m_buf_nmemb obj1 = m_buf_nmemb obj"
        and g: "groups_done d d1 i n 0 (ceil_div n NMERGE)"
        using p1 by (simp_all add: F_def)
      have okn: "stage_ok d i n" using ok by (simp add: n_def F_def)
      have nx: "kmerge_calc_stage_files F (Suc i) = ceil_div n NMERGE"
        by (simp add: n_def kmerge_calc_stage_files_Suc)
      note gs = groups_done_next_stage[OF g okn]
      have "\<exists>ret obj' d'. kmerge_merge_all_loop obj1 d1 stages (Suc i) = Some (ret, obj', d')
         \<and> (ret \<longrightarrow> merge_ready obj' \<and> m_buf_nmemb obj' = m_buf_nmemb obj1
          \<and> stage_ok d' stages (kmerge_calc_stage_files (m_fcount obj1) stages)
          \<and> stage_mset d' stages (kmerge_calc_stage_files (m_fcount obj1) stages)
              = stage_mset d1 (Suc i) (kmerge_calc_stage_files (m_fcount obj1) (Suc i))
          \<and> (stage_sorted d1 (Suc i) (kmerge_calc_stage_files (m_fcount obj1) (Suc i))
               \<longrightarrow> stage_sorted d' stages (kmerge_calc_stage_files (m_fcount obj1) stages))
          \<and> (files_nonempty d1 \<longrightarrow> files_nonempty d'))"
      proof (rule less.hyps[OF _ rd1])
        show "stages - Suc i < stages - i" using True by simp
        show "stage_ok d1 (Suc i) (kmerge_calc_stage_files (m_fcount obj1) (Suc i))"
          using gs(1) by (simp add: f1 nx)
        show "Suc i \<le> stages" using True by simp
      qed
      then obtain r2 obj' d' where
        lp: "kmerge_merge_all_loop obj1 d1 stages (Suc i) = Some (r2, obj', d')"
        and p2: "r2 \<longrightarrow> merge_ready obj' \<and> m_buf_nmemb obj' = m_buf_nmemb obj1
          \<and> stage_ok d' stages (kmerge_calc_stage_files F stages)
          \<and> stage_mset d' stages (kmerge_calc_stage_files F stages)
              = stage_mset d1 (Suc i) (ceil_div n NMERGE)
          \<and> (stage_sorted d1 (Suc i) (ceil_div n NMERGE)
               \<longrightarrow> stage_sorted d' stages (kmerge_calc_stage_files F stages))
          \<and> (files_nonempty d1 \<longrightarrow> files_nonempty d')"
        unfolding f1 nx by blast
      have res: "kmerge_merge_all_loop obj d stages i = Some (r2, obj', d')"
        using st True r1 lp
        by (simp add: kmerge_merge_all_loop.simps[of obj d stages i] n_def F_def)
      have q1: "r2 \<longrightarrow> merge_ready obj' \<and> m_buf_nmemb obj' = m_buf_nmemb obj"
        using p2 n1 by simp
      have q2: "r2 \<longrightarrow> stage_ok d' stages (kmerge_calc_stage_files F stages)"
        using p2 by blast
      have q3: "r2 \<longrightarrow> stage_mset d' stages (kmerge_calc_stage_files F stages) = stage_mset d i n"
        using p2 gs(2) by simp
      have q4: "r2 \<longrightarrow> (stage_sorted d i n
               \<longrightarrow> stage_sorted d' stages (kmerge_calc_stage_files F stages))"
        using p2 gs(3) by simp
      have q5: "r2 \<longrightarrow> (files_nonempty d \<longrightarrow> files_nonempty d')"
        using p2 gs(4) by simp
      show ?thesis
        unfolding F_def[symmetric] n_def[symmetric]
        using res q1 q2 q3 q4 q5 by blast
    qed
  qed
qed

lemma kmerge_merge_effect:
  assumes fc: "0 < fcount" and nm: "NMERGE < buf_nmemb" and lb: "length buf = buf_nmemb"
    and ok: "stage_ok d 0 fcount"
  shows "\<exists>res out buf' d'. kmerge_merge d fcount buf buf_nmemb = Some (res, out, buf', d')
     \<and> (res \<longrightarrow> length buf' = length buf
          \<and> (\<exists>c. d_files d' out = Some c \<and> c \<noteq> [] \<and> mset c = stage_mset d 0 fcount
                \<and> (stage_sorted d 0 fcount \<longrightarrow> sorted c))
          \<and> (files_nonempty d \<longrightarrow> files_nonempty d'))"
proof -
  define queue where "queue = \<lparr>h_capacity = NMERGE, h_count = 0,
                 h_arr = replicate NMERGE \<lparr>key = 0, idx = 0\<rparr>\<rparr>"
  define obj where "obj = \<lparr>m_fcount = fcount, m_buf = buf, m_buf_nmemb = buf_nmemb, m_queue = queue\<rparr>"
  define S where "S = kmerge_calc_stages fcount"
  have hc: "heap_create NMERGE = Some queue"
    by (simp add: heap_create_def queue_def NMERGE_def)
  have rd: "merge_ready obj"
    using nm lb by (simp add: merge_ready_def obj_def queue_def heap_wf_def)
  have f0: "kmerge_calc_stage_files (m_fcount obj) 0 = fcount"
    by (simp add: obj_def kmerge_calc_stage_files_def)
  have fS: "kmerge_calc_stage_files (m_fcount obj) S = 1"
    using kmerge_last_stage_one_file[of fcount] fc by (simp add: obj_def S_def)
  have "\<exists>ret obj' d'. kmerge_merge_all_loop obj d S 0 = Some (ret, obj', d')
     \<and> (ret \<longrightarrow> merge_ready obj' \<and> m_buf_nmemb obj' = m_buf_nmemb obj
          \<and> stage_ok d' S (kmerge_calc_stage_files (m_fcount obj) S)
          \<and> stage_mset d' S (kmerge_calc_stage_files (m_fcount obj) S)
              = stage_mset d 0 (kmerge_calc_stage_files (m_fcount obj) 0)
          \<and> (stage_sorted d 0 (kmerge_calc_stage_files (m_fcount obj) 0)
               \<longrightarrow> stage_sorted d' S (kmerge_calc_stage_files (m_fcount obj) S))
          \<and> (files_nonempty d \<longrightarrow> files_nonempty d'))"
    by (rule kmerge_merge_all_loop_effect[OF rd]) (simp_all add: f0 ok)
  then obtain ret obj' d' where lp: "kmerge_merge_all_loop obj d S 0 = Some (ret, obj', d')"
    and p: "ret \<longrightarrow> merge_ready obj' \<and> m_buf_nmemb obj' = buf_nmemb
          \<and> stage_ok d' S 1 \<and> stage_mset d' S 1 = stage_mset d 0 fcount
          \<and> (stage_sorted d 0 fcount \<longrightarrow> stage_sorted d' S 1)
          \<and> (files_nonempty d \<longrightarrow> files_nonempty d')"
    unfolding f0 fS by (auto simp: obj_def)
  have res: "kmerge_merge d fcount buf buf_nmemb = Some (ret, (S, 0), m_buf obj', d')"
    using fc nm hc lp
    by (simp add: kmerge_merge_def kmerge_merge_all_def Let_def obj_def[symmetric] S_def[symmetric])
  have "length (m_buf obj') = length buf
          \<and> (\<exists>c. d_files d' (S, 0) = Some c \<and> c \<noteq> [] \<and> mset c = stage_mset d 0 fcount
                \<and> (stage_sorted d 0 fcount \<longrightarrow> sorted c))
          \<and> (files_nonempty d \<longrightarrow> files_nonempty d')" if ret
  proof -
    have a: "merge_ready obj'" "m_buf_nmemb obj' = buf_nmemb" "stage_ok d' S 1"
      "stage_mset d' S 1 = stage_mset d 0 fcount"
      "stage_sorted d 0 fcount \<longrightarrow> stage_sorted d' S 1"
      "files_nonempty d \<longrightarrow> files_nonempty d'"
      using p that by blast+
    obtain c where c: "d_files d' (S, 0) = Some c" "c \<noteq> []"
      using a(3) by (auto simp: stage_ok_def)
    have sf: "stage_file d' S 0 = c" by (simp add: stage_file_def c)
    have "mset c = stage_mset d 0 fcount" using a(4) by (simp add: stage_mset_def sf)
    moreover have "stage_sorted d 0 fcount \<longrightarrow> sorted c"
      using a(5) by (simp add: stage_sorted_def sf)
    moreover have "length (m_buf obj') = length buf"
      using a(1,2) lb by (simp add: merge_ready_def)
    ultimately show ?thesis using c a(6) by blast
  qed
  then show ?thesis using res by blast
qed

section \<open>Properties of the parallel merge sort\<close>


text \<open>
  The merge of two lists as \<open>pmsort_merge\<close> does it: the smaller head first, the left
  one when they are equal.
\<close>

fun merged :: "int list \<Rightarrow> int list \<Rightarrow> int list" where
  "merged [] ys = ys"
| "merged (x # xs) [] = x # xs"
| "merged (x # xs) (y # ys) = (if x \<le> y then x # merged xs (y # ys) else y # merged (x # xs) ys)"

lemma merged_Nil2 [simp]: "merged xs [] = xs"
  by (cases xs) simp_all

lemma mset_merged: "mset (merged xs ys) = mset xs + mset ys"
  by (induction xs ys rule: merged.induct) simp_all

lemma length_merged: "length (merged xs ys) = length xs + length ys"
  by (induction xs ys rule: merged.induct) simp_all

lemma merged_sorted_append: "sorted (xs @ ys) \<Longrightarrow> merged xs ys = xs @ ys"
proof (induction xs)
  case Nil
  then show ?case by simp
next
  case (Cons x xs)
  then show ?case by (cases ys) (simp_all add: sorted_append)
qed

lemma pmsort_merge_rest_effect:
  assumes "i \<le> length src" "left + k + (length src - i) \<le> length arr"
  shows "pmsort_merge_rest arr left src i k
     = (take (left + k) arr @ drop i src @ drop (left + k + (length src - i)) arr,
        k + (length src - i))"
  using assms
proof (induction "length src - i" arbitrary: arr i k rule: less_induct)
  case less
  show ?case
  proof (cases "i < length src")
    case False
    then have "pmsort_merge_rest arr left src i k = (arr, k)"
      by (simp add: pmsort_merge_rest.simps[of arr left src i k])
    moreover have "i = length src" using False less.prems(1) by simp
    ultimately show ?thesis by simp
  next
    case True
    define v where "v = src ! i"
    define arr1 where "arr1 = arr[left + k := v]"
    have lk: "left + k < length arr" using True less.prems(2) by simp
    have step: "pmsort_merge_rest arr left src i k = pmsort_merge_rest arr1 left src (i + 1) (k + 1)"
      using True by (simp add: pmsort_merge_rest.simps[of arr left src i k] arr1_def v_def)
    have ih: "pmsort_merge_rest arr1 left src (i + 1) (k + 1)
        = (take (left + (k + 1)) arr1 @ drop (i + 1) src
          @ drop (left + (k + 1) + (length src - (i + 1))) arr1, (k + 1) + (length src - (i + 1)))"
      by (rule less.hyps) (use True less.prems in \<open>simp_all add: arr1_def\<close>)
    have t1: "take (left + (k + 1)) arr1 = take (left + k) arr @ [v]"
      using lk by (simp add: arr1_def take_Suc_conv_app_nth)
    have ix: "left + (k + 1) + (length src - (i + 1)) = left + k + (length src - i)"
      using True by arith
    have d1: "drop (left + k + (length src - i)) arr1 = drop (left + k + (length src - i)) arr"
      unfolding arr1_def using True by simp
    have kx: "(k + 1) + (length src - (i + 1)) = k + (length src - i)" using True by arith
    have c: "v # drop (Suc i) src = drop i src"
      using True by (simp add: v_def Cons_nth_drop_Suc)
    have "pmsort_merge_rest arr left src i k
        = ((take (left + k) arr @ [v]) @ drop (i + 1) src
            @ drop (left + k + (length src - i)) arr, k + (length src - i))"
      unfolding step ih t1 ix d1 kx by (rule refl)
    then show ?thesis using c by simp
  qed
qed

text \<open>The three loops of \<open>pmsort_merge\<close>, one after the other.\<close>

definition pmsort_merge_loops :: "int list \<Rightarrow> nat \<Rightarrow> int list \<Rightarrow> int list \<Rightarrow> nat \<Rightarrow> nat \<Rightarrow> nat \<Rightarrow> int list" where
  "pmsort_merge_loops arr left left_array right_array i j k =
     (let (arr1, i1, j1, k1) = pmsort_merge_pick arr left left_array right_array i j k;
          (arr2, k2) = pmsort_merge_rest arr1 left left_array i1 k1;
          (arr3, k3) = pmsort_merge_rest arr2 left right_array j1 k2
      in arr3)"

lemma pmsort_merge_loops_effect:
  assumes "i \<le> length A" "j \<le> length B" "k = i + j" "left + length A + length B \<le> length arr"
  shows "pmsort_merge_loops arr left A B i j k
     = take (left + k) arr @ merged (drop i A) (drop j B) @ drop (left + length A + length B) arr"
  using assms
proof (induction "(length A - i) + (length B - j)" arbitrary: arr i j k rule: less_induct)
  case less
  note k = less.prems(3)
  show ?case
  proof (cases "i < length A \<and> j < length B")
    case True
    then have iA: "i < length A" and jB: "j < length B" by simp_all
    have dA: "drop i A = A ! i # drop (Suc i) A" using iA by (simp add: Cons_nth_drop_Suc)
    have dB: "drop j B = B ! j # drop (Suc j) B" using jB by (simp add: Cons_nth_drop_Suc)
    have lk: "left + k < length arr" using iA jB less.prems by simp
    show ?thesis
    proof (cases "A ! i \<le> B ! j")
      case le: True
      define arr1 where "arr1 = arr[left + k := A ! i]"
      have "pmsort_merge_loops arr left A B i j k = pmsort_merge_loops arr1 left A B (i + 1) j (k + 1)"
        using True le
        by (simp add: pmsort_merge_loops_def pmsort_merge_pick.simps[of arr left A B i j k] arr1_def)
      also have "\<dots> = take (left + (k + 1)) arr1 @ merged (drop (i + 1) A) (drop j B)
            @ drop (left + length A + length B) arr1"
        by (rule less.hyps) (use iA jB less.prems in \<open>simp_all add: arr1_def\<close>)
      also have "take (left + (k + 1)) arr1 = take (left + k) arr @ [A ! i]"
        using lk by (simp add: arr1_def take_Suc_conv_app_nth)
      also have "drop (left + length A + length B) arr1 = drop (left + length A + length B) arr"
        using iA jB k by (simp add: arr1_def)
      finally show ?thesis using le by (simp add: dA dB)
    next
      case gt: False
      define arr1 where "arr1 = arr[left + k := B ! j]"
      have "pmsort_merge_loops arr left A B i j k = pmsort_merge_loops arr1 left A B i (j + 1) (k + 1)"
        using True gt
        by (simp add: pmsort_merge_loops_def pmsort_merge_pick.simps[of arr left A B i j k] arr1_def)
      also have "\<dots> = take (left + (k + 1)) arr1 @ merged (drop i A) (drop (j + 1) B)
            @ drop (left + length A + length B) arr1"
        by (rule less.hyps) (use iA jB less.prems in \<open>simp_all add: arr1_def\<close>)
      also have "take (left + (k + 1)) arr1 = take (left + k) arr @ [B ! j]"
        using lk by (simp add: arr1_def take_Suc_conv_app_nth)
      also have "drop (left + length A + length B) arr1 = drop (left + length A + length B) arr"
        using iA jB k by (simp add: arr1_def)
      finally show ?thesis using gt by (simp add: dA dB)
    qed
  next
    case False
    then have ends: "i = length A \<or> j = length B" using less.prems by auto
    define k2 where "k2 = k + (length A - i)"
    define arr2 where "arr2 = take (left + k) arr @ drop i A @ drop (left + k + (length A - i)) arr"
    have pk: "pmsort_merge_pick arr left A B i j k = (arr, i, j, k)"
      by (subst pmsort_merge_pick.simps) (simp only: False if_False)
    have r1: "pmsort_merge_rest arr left A i k = (arr2, k2)"
      unfolding arr2_def k2_def
      by (rule pmsort_merge_rest_effect) (use less.prems in simp_all)
    have l2: "length arr2 = length arr"
      using less.prems by (simp add: arr2_def)
    have r2: "pmsort_merge_rest arr2 left B j k2
        = (take (left + k2) arr2 @ drop j B @ drop (left + k2 + (length B - j)) arr2,
           k2 + (length B - j))"
      by (rule pmsort_merge_rest_effect) (use less.prems l2 in \<open>simp_all add: k2_def\<close>)
    have e: "left + k2 + (length B - j) = left + length A + length B"
      using less.prems by (simp add: k2_def)
    have t: "take (left + k2) arr2 = take (left + k) arr @ drop i A"
      using less.prems by (simp add: arr2_def k2_def)
    have d: "drop (left + length A + length B) arr2 = drop (left + length A + length B) arr"
      using less.prems by (simp add: arr2_def ac_simps)
    have m: "merged (drop i A) (drop j B) = drop i A @ drop j B"
      using ends by auto
    show ?thesis
      by (simp add: pmsort_merge_loops_def pk r1 r2 e t d m)
  qed
qed

text \<open>
  \<open>pmsort_merge\<close> replaces the cells \<open>left, \<dots>, right\<close> by the merge of the cells
  \<open>left, \<dots>, middle\<close> and \<open>middle + 1, \<dots>, right\<close>.
\<close>

lemma pmsort_merge_effect:
  assumes "pmsort_merge arr left middle right = Some arr'"
  shows "left \<le> middle \<and> middle \<le> right \<and> right < length arr
       \<and> arr' = take left arr
                @ merged (slice arr left (middle - left + 1)) (slice arr (middle + 1) (right - middle))
                @ drop (Suc right) arr"
proof -
  have g: "left \<le> middle" "middle \<le> right" "right < length arr"
    using assms by (simp_all add: pmsort_merge_def split: if_splits)
  define A where "A = slice arr left (middle - left + 1)"
  define B where "B = slice arr (middle + 1) (right - middle)"
  have lA: "length A = middle - left + 1" and lB: "length B = right - middle"
    using g by (simp_all add: A_def B_def slice_def)
  have "arr' = pmsort_merge_loops arr left A B 0 0 0"
    using assms g
    by (simp add: pmsort_merge_def pmsort_merge_loops_def Let_def A_def B_def slice_def
        split: prod.splits)
  also have "\<dots> = take (left + 0) arr @ merged (drop 0 A) (drop 0 B)
      @ drop (left + length A + length B) arr"
    by (rule pmsort_merge_loops_effect) (use g lA lB in simp_all)
  also have "left + length A + length B = Suc right" using g lA lB by simp
  finally show ?thesis using g by (simp add: A_def B_def)
qed

text \<open>
  What every step of \<open>pmsort_sort\<close> on the first \<open>len\<close> cells keeps: the length of the
  array, the items in the first \<open>len\<close> cells, the cells after them, and the whole array
  when the first \<open>len\<close> cells are sorted already.
\<close>

definition chunk_kept :: "nat \<Rightarrow> int list \<Rightarrow> int list \<Rightarrow> bool" where
  "chunk_kept len arr arr' \<longleftrightarrow>
     length arr' = length arr \<and> mset (take len arr') = mset (take len arr)
   \<and> drop len arr' = drop len arr \<and> (sorted (take len arr) \<longrightarrow> arr' = arr)"

lemma chunk_kept_refl: "chunk_kept len arr arr"
  by (simp add: chunk_kept_def)

lemma chunk_kept_trans:
  "chunk_kept len a b \<Longrightarrow> chunk_kept len b c \<Longrightarrow> chunk_kept len a c"
  by (auto simp: chunk_kept_def)

lemma take_drop_middle:
  assumes "length P + length X = n" "n \<le> len"
  shows "take len (P @ X @ D) = P @ X @ take (len - n) D"
    and "drop len (P @ X @ D) = drop (len - n) D"
  using assms by auto

lemma pmsort_merge_kept:
  assumes m: "pmsort_merge arr left middle right = Some arr'" and r: "right < len"
  shows "chunk_kept len arr arr'"
proof -
  define A where "A = slice arr left (middle - left + 1)"
  define B where "B = slice arr (middle + 1) (right - middle)"
  define P where "P = take left arr"
  define D where "D = drop (Suc right) arr"
  have g: "left \<le> middle" "middle \<le> right" "right < length arr"
    and a': "arr' = P @ merged A B @ D"
    using pmsort_merge_effect[OF m] by (simp_all add: A_def B_def P_def D_def)
  have AB: "A @ B = slice arr left (Suc right - left)"
  proof -
    have "drop (middle + 1) arr = drop (middle - left + 1) (drop left arr)" using g by simp
    moreover have "Suc right - left = (middle - left + 1) + (right - middle)" using g by simp
    ultimately show ?thesis unfolding A_def B_def slice_def by (simp only: take_add)
  qed
  have a: "arr = P @ (A @ B) @ D"
  proof -
    have "drop left arr = take (Suc right - left) (drop left arr) @ drop (Suc right - left) (drop left arr)"
      by (rule append_take_drop_id[symmetric])
    moreover have "drop (Suc right - left) (drop left arr) = D" using g by (simp add: D_def)
    ultimately have "drop left arr = (A @ B) @ D" by (simp add: AB slice_def)
    then have "take left arr @ drop left arr = P @ (A @ B) @ D" by (simp only: P_def)
    then show ?thesis by simp
  qed
  have lP: "length P = left" using g by (simp add: P_def)
  have lAB: "length (A @ B) = Suc right - left" using g by (simp add: AB slice_def)
  have lM: "length (merged A B) = Suc right - left" using lAB by (simp add: length_merged)
  have fit: "left + (Suc right - left) \<le> len" using g r by simp
  have sM: "length P + length (merged A B) = Suc right" using lP lM g by simp
  have sAB: "length P + length (A @ B) = Suc right" using lP lAB g by simp
  have fit': "Suc right \<le> len" using r by simp
  have t': "take len arr' = P @ merged A B @ take (len - Suc right) D"
    unfolding a' by (rule take_drop_middle(1)[OF sM fit'])
  have t: "take len arr = P @ (A @ B) @ take (len - Suc right) D"
  proof -
    have "take len (P @ (A @ B) @ D) = P @ (A @ B) @ take (len - Suc right) D"
      by (rule take_drop_middle(1)[OF sAB fit'])
    then show ?thesis using a by simp
  qed
  have d': "drop len arr' = drop (len - Suc right) D"
    unfolding a' by (rule take_drop_middle(2)[OF sM fit'])
  have d: "drop len arr = drop (len - Suc right) D"
  proof -
    have "drop len (P @ (A @ B) @ D) = drop (len - Suc right) D"
      by (rule take_drop_middle(2)[OF sAB fit'])
    then show ?thesis using a by simp
  qed
  have same: "arr' = arr" if "sorted (take len arr)"
  proof -
    have "sorted (A @ B)" using that unfolding t by (simp add: sorted_append)
    then have "merged A B = A @ B" by (rule merged_sorted_append)
    then show ?thesis using a a' by simp
  qed
  have "length arr' = length arr"
  proof -
    have "length (P @ merged A B @ D) = length (P @ (A @ B) @ D)" by (simp add: length_merged)
    then show ?thesis using a a' by simp
  qed
  then show ?thesis
    unfolding chunk_kept_def using same by (simp add: t t' d d' mset_merged)
qed

lemma pmsort_merge_sort_kept:
  assumes "pmsort_merge_sort arr left right = Some arr'" "right < len"
  shows "chunk_kept len arr arr'"
  using assms
proof (induction "right - left" arbitrary: arr left right arr' rule: less_induct)
  case less
  show ?case
  proof (cases "left < right")
    case False
    then have "arr' = arr"
      using less.prems(1) by (simp add: pmsort_merge_sort.simps[of arr left right])
    then show ?thesis by (simp add: chunk_kept_refl)
  next
    case True
    define middle where "middle = left + (right - left) div 2"
    have mr: "middle < right" "left \<le> middle" using True by (simp_all add: middle_def)
    obtain arr1 arr2 where s1: "pmsort_merge_sort arr left middle = Some arr1"
      and s2: "pmsort_merge_sort arr1 (middle + 1) right = Some arr2"
      and s3: "pmsort_merge arr2 left middle right = Some arr'"
      using less.prems(1) True
      by (auto simp: pmsort_merge_sort.simps[of arr left right] Let_def middle_def
          split: bind_splits)
    have k1: "chunk_kept len arr arr1"
      by (rule less.hyps[OF _ s1]) (use mr less.prems(2) in simp_all)
    have k2: "chunk_kept len arr1 arr2"
      by (rule less.hyps[OF _ s2]) (use mr less.prems(2) in simp_all)
    have k3: "chunk_kept len arr2 arr'"
      by (rule pmsort_merge_kept[OF s3 less.prems(2)])
    show ?thesis by (rule chunk_kept_trans[OF chunk_kept_trans[OF k1 k2] k3])
  qed
qed

lemma pmsort_thread_merge_sort_kept:
  assumes t: "pmsort_thread_merge_sort obj arr thread_id = Some arr'"
    and o: "p_npt obj = len div T" "p_offset obj = len mod T" "p_num_threads obj = T"
    and T: "0 < T" "T \<le> len" and i: "thread_id < T"
  shows "chunk_kept len arr arr'"
proof -
  define npt where "npt = len div T"
  define left where "left = thread_id * npt"
  define right where "right = (if thread_id = T - 1 then (thread_id + 1) * npt - 1 + len mod T
                                else (thread_id + 1) * npt - 1)"
  define middle where "middle = left + (right - left) div 2"
  have n1: "1 \<le> npt" using T by (simp add: npt_def div_greater_zero_iff Suc_le_eq)
  have len: "len = T * npt + len mod T" by (simp add: npt_def)
  have a: "(thread_id + 1) * npt \<le> T * npt" using i by (intro mult_le_mono1) simp
  have b: "1 \<le> (thread_id + 1) * npt" using n1 by (simp add: Suc_le_eq)
  have rl: "right < len"
  proof (cases "thread_id = T - 1")
    case True
    then have tt: "thread_id + 1 = T" using T by simp
    then have "right = T * npt - 1 + len mod T" using True by (simp add: right_def)
    moreover have "1 \<le> T * npt" using b unfolding tt .
    ultimately show ?thesis using len by linarith
  next
    case False
    then have "right = (thread_id + 1) * npt - 1" by (simp add: right_def)
    then show ?thesis using a b len by linarith
  qed
  have eq: "pmsort_thread_merge_sort obj arr thread_id
      = (if left < right
         then do {
           arr1 \<leftarrow> pmsort_merge_sort arr left right;
           arr2 \<leftarrow> pmsort_merge_sort arr1 (left + 1) right;
           pmsort_merge arr2 left middle right
         }
         else Some arr)"
    unfolding middle_def left_def right_def npt_def using o
    by (simp add: pmsort_thread_merge_sort_def Let_def)
  show ?thesis
  proof (cases "left < right")
    case False
    then have "arr' = arr" using t eq by simp
    then show ?thesis by (simp add: chunk_kept_refl)
  next
    case True
    obtain arr1 arr2 where s1: "pmsort_merge_sort arr left right = Some arr1"
      and s2: "pmsort_merge_sort arr1 (left + 1) right = Some arr2"
      and s3: "pmsort_merge arr2 left middle right = Some arr'"
      using t eq True by (auto split: bind_splits)
    have k1: "chunk_kept len arr arr1" by (rule pmsort_merge_sort_kept[OF s1 rl])
    have k2: "chunk_kept len arr1 arr2" by (rule pmsort_merge_sort_kept[OF s2 rl])
    have k3: "chunk_kept len arr2 arr'" by (rule pmsort_merge_kept[OF s3 rl])
    show ?thesis by (rule chunk_kept_trans[OF chunk_kept_trans[OF k1 k2] k3])
  qed
qed

lemma pmsort_run_threads_kept:
  assumes "pmsort_run_threads obj arr ids = Some arr'"
    and "p_npt obj = len div T" "p_offset obj = len mod T" "p_num_threads obj = T"
    and "0 < T" "T \<le> len" and "\<forall>i \<in> set ids. i < T"
  shows "chunk_kept len arr arr'"
  using assms
proof (induction ids arbitrary: arr)
  case Nil
  then show ?case by (simp add: chunk_kept_refl)
next
  case (Cons i ids)
  obtain arr1 where s1: "pmsort_thread_merge_sort obj arr i = Some arr1"
    and s2: "pmsort_run_threads obj arr1 ids = Some arr'"
    using Cons.prems(1) by (auto split: bind_splits)
  have k1: "chunk_kept len arr arr1"
    by (rule pmsort_thread_merge_sort_kept[OF s1 Cons.prems(2-6)]) (use Cons.prems(7) in simp)
  have k2: "chunk_kept len arr1 arr'"
    by (rule Cons.IH[OF s2 Cons.prems(2-6)]) (use Cons.prems(7) in simp)
  show ?case by (rule chunk_kept_trans[OF k1 k2])
qed

lemma pmsort_sections_loop_kept:
  assumes "pmsort_sections_loop obj arr number aggregation i = Some arr'"
    and "p_len obj = len" "0 < len"
  shows "chunk_kept len arr arr'"
  using assms
proof (induction "number - i" arbitrary: arr i rule: less_induct)
  case less
  show ?case
  proof (cases "i < number")
    case False
    then have "arr' = arr"
      using less.prems(1) by (simp add: pmsort_sections_loop.simps[of obj arr number aggregation i])
    then show ?thesis by (simp add: chunk_kept_refl)
  next
    case True
    define left where "left = i * (p_npt obj * aggregation)"
    define right0 where "right0 = ((i + 2) * p_npt obj * aggregation) - 1"
    define middle where "middle = left + (p_npt obj * aggregation) - 1"
    define right where "right = (if right0 \<ge> len then len - 1 else right0)"
    have rl: "right < len" using less.prems(3) by (simp add: right_def)
    have "pmsort_sections_loop obj arr number aggregation i
        = do { arr1 \<leftarrow> pmsort_merge arr left middle right;
               pmsort_sections_loop obj arr1 number aggregation (i + 2) }"
      unfolding left_def right0_def middle_def right_def
      using True less.prems(2)
      by (subst pmsort_sections_loop.simps) (simp add: Let_def)
    then obtain arr1 where s1: "pmsort_merge arr left middle right = Some arr1"
      and s2: "pmsort_sections_loop obj arr1 number aggregation (i + 2) = Some arr'"
      using less.prems(1) by (auto split: bind_splits)
    have k1: "chunk_kept len arr arr1" by (rule pmsort_merge_kept[OF s1 rl])
    have k2: "chunk_kept len arr1 arr'"
      by (rule less.hyps[OF _ s2 less.prems(2,3)]) (use True in simp)
    show ?thesis by (rule chunk_kept_trans[OF k1 k2])
  qed
qed

lemma pmsort_merge_array_sections_kept:
  assumes "pmsort_merge_array_sections obj arr number aggregation = Some arr'"
    and "p_len obj = len" "0 < len"
  shows "chunk_kept len arr arr'"
  using assms
proof (induction number arbitrary: arr aggregation rule: less_induct)
  case (less number)
  obtain arr1 where s1: "pmsort_sections_loop obj arr number aggregation 0 = Some arr1"
    and s2: "(if number div 2 \<ge> 1
              then pmsort_merge_array_sections obj arr1 (number div 2) (aggregation * 2)
              else Some arr1) = Some arr'"
    using less.prems(1)
    by (auto simp: pmsort_merge_array_sections.simps[of obj arr number aggregation]
        split: bind_splits)
  have k1: "chunk_kept len arr arr1" by (rule pmsort_sections_loop_kept[OF s1 less.prems(2,3)])
  show ?case
  proof (cases "number div 2 \<ge> 1")
    case True
    then have s3: "pmsort_merge_array_sections obj arr1 (number div 2) (aggregation * 2) = Some arr'"
      using s2 by simp
    have "chunk_kept len arr1 arr'"
      by (rule less.IH[OF _ s3 less.prems(2,3)]) (use True in simp)
    then show ?thesis by (rule chunk_kept_trans[OF k1])
  next
    case False
    then show ?thesis using s2 k1 by simp
  qed
qed

text \<open>
  \<open>pmsort_sort\<close>, when it returns, has permuted the first \<open>len\<close> cells among themselves,
  and has changed nothing if they were sorted.
\<close>

lemma pmsort_sort_kept:
  assumes "pmsort_sort arr len num_threads = Some arr'"
  shows "chunk_kept len arr arr'"
proof -
  have g: "0 < len" "0 < num_threads"
    using assms by (simp_all add: pmsort_sort_def split: if_splits)
  show ?thesis
  proof (cases "len = 1")
    case True
    then have "arr' = arr" using assms g by (simp add: pmsort_sort_def)
    then show ?thesis by (simp add: chunk_kept_refl)
  next
    case False
    define T where "T = (if num_threads > len then len else num_threads)"
    define obj where "obj = \<lparr>p_len = len, p_num_threads = T,
                       p_npt = len div T, p_offset = len mod T\<rparr>"
    have T: "0 < T" "T \<le> len" using g by (simp_all add: T_def)
    have "pmsort_sort arr len num_threads
        = do { arr1 \<leftarrow> (if T = 1 then pmsort_thread_merge_sort obj arr 0
                       else pmsort_run_threads obj arr [0..<T]);
               pmsort_merge_array_sections obj arr1 T 1 }"
      unfolding obj_def T_def using g False by (simp add: pmsort_sort_def Let_def)
    then obtain arr1 where s1: "(if T = 1 then pmsort_thread_merge_sort obj arr 0
                       else pmsort_run_threads obj arr [0..<T]) = Some arr1"
      and s2: "pmsort_merge_array_sections obj arr1 T 1 = Some arr'"
      using assms by (auto split: bind_splits)
    have o: "p_npt obj = len div T" "p_offset obj = len mod T" "p_num_threads obj = T"
      "p_len obj = len"
      by (simp_all add: obj_def)
    have k1: "chunk_kept len arr arr1"
    proof (cases "T = 1")
      case True
      then have "pmsort_thread_merge_sort obj arr 0 = Some arr1" using s1 by simp
      then show ?thesis
        by (rule pmsort_thread_merge_sort_kept[OF _ o(1-3) T]) (use T in simp)
    next
      case False
      then have "pmsort_run_threads obj arr [0..<T] = Some arr1" using s1 by simp
      then show ?thesis
        by (rule pmsort_run_threads_kept[OF _ o(1-3) T]) simp
    qed
    have k2: "chunk_kept len arr1 arr'"
      by (rule pmsort_merge_array_sections_kept[OF s2 o(4) g(1)])
    show ?thesis by (rule chunk_kept_trans[OF k1 k2])
  qed
qed

section \<open>Text lines and integers (src/tools.c and the C library)\<close>

text \<open>
  A text file is its sequence of bytes, a \<open>string\<close>. \<open>getline\<close> returns the next line
  with its newline, or the rest of the file when no newline is left, or fails at the
  end of the file; the model returns the line and what is left of the stream. A read
  error is not modelled.
\<close>

definition getline :: "string \<Rightarrow> (string \<times> string) option" where
  "getline stream =
     (if stream = [] then None
      else (let l = takeWhile (\<lambda>c. c \<noteq> CHR 0x0A) stream
            in if length l < length stream
               then Some (l @ [CHR 0x0A], drop (length l + 1) stream)
               else Some (l, [])))"

text \<open>
  A C string ends at its first NUL byte. \<open>chomp\<close> is what \<open>sort_read_chunks\<close> passes to
  \<open>str2int\<close>: the line as a C string, cut at its first newline
  (\<^verbatim>\<open>if ((pos = strchr(line, '\n')) != NULL) *pos = '\0'\<close>).
\<close>

definition cstring :: "string \<Rightarrow> string" where
  "cstring s = takeWhile (\<lambda>c. c \<noteq> CHR 0x00) s"

definition chomp :: "string \<Rightarrow> string" where
  "chomp line = takeWhile (\<lambda>c. c \<noteq> CHR 0x0A) (cstring line)"

definition isspace :: "char \<Rightarrow> bool" where
  "isspace c \<longleftrightarrow> c \<in> set [CHR 0x20, CHR 0x09, CHR 0x0A, CHR 0x0B, CHR 0x0C, CHR 0x0D]"

definition isdigit :: "char \<Rightarrow> bool" where
  "isdigit c \<longleftrightarrow> (48::nat) \<le> of_char c \<and> of_char c \<le> (57::nat)"

definition digit_val :: "char \<Rightarrow> nat" where
  "digit_val c = of_char c - 48"

definition INT_MAX :: int where "INT_MAX = 2147483647"
definition INT_MIN :: int where "INT_MIN = - 2147483648"
definition LONG_MAX :: int where "LONG_MAX = 9223372036854775807"
definition LONG_MIN :: int where "LONG_MIN = - 9223372036854775808"

text \<open>
  \<open>strtol\<close> in base 10 (the only base the program uses), with a 64-bit \<^verbatim>\<open>long\<close>: white
  space, an optional sign, digits. It returns the value, whether \<open>errno\<close> was set to
  \<open>ERANGE\<close> (the value is then clamped), and the part of the string after the number;
  without a digit nothing is converted and that part is the whole string.
\<close>

definition digits_val :: "string \<Rightarrow> nat" where
  "digits_val ds = foldl (\<lambda>acc c. acc * 10 + digit_val c) 0 ds"

definition strtol :: "string \<Rightarrow> int \<times> bool \<times> string" where
  "strtol s =
     (let t = dropWhile isspace s;
          neg = (t \<noteq> [] \<and> hd t = CHR ''-'');
          u = (if t \<noteq> [] \<and> (hd t = CHR ''-'' \<or> hd t = CHR ''+'') then tl t else t);
          ds = takeWhile isdigit u;
          v = (if neg then - int (digits_val ds) else int (digits_val ds))
      in if ds = [] then (0, False, s)
         else if v > LONG_MAX then (LONG_MAX, True, dropWhile isdigit u)
         else if v < LONG_MIN then (LONG_MIN, True, dropWhile isdigit u)
         else (v, False, dropWhile isdigit u))"

text \<open>
  \<open>str2int\<close> with base 10: \<open>None\<close> is a negative return value (\<open>-EINVAL\<close> or
  \<open>-ERANGE\<close>), \<open>Some v\<close> is the return value 0 with \<open>*out = v\<close>.
\<close>

definition str2int :: "string \<Rightarrow> int option" where
  "str2int s =
     (if s = [] \<or> isspace (hd s) then None
      else (let (l, erange, end) = strtol s
            in if l > INT_MAX \<or> (erange \<and> l = LONG_MAX) then None
               else if l < INT_MIN \<or> (erange \<and> l = LONG_MIN) then None
               else if end \<noteq> [] then None
               else Some l))"

text \<open>\<^verbatim>\<open>printf("%d", v)\<close>: the decimal digits, after a minus sign when \<open>v\<close> is negative.\<close>

definition digit_char :: "nat \<Rightarrow> char" where
  "digit_char d = char_of (48 + d)"

fun nat_digits :: "nat \<Rightarrow> string" where
  "nat_digits n = (if n < 10 then [digit_char n] else nat_digits (n div 10) @ [digit_char (n mod 10)])"

declare nat_digits.simps [simp del]

definition printf_d :: "int \<Rightarrow> string" where
  "printf_d v = (if v < 0 then CHR ''-'' # nat_digits (nat (- v)) else nat_digits (nat v))"

text \<open>
  \<^verbatim>\<open>fprintf(fout, "%d\n", v)\<close> on a stream whose device accepts \<open>room\<close> more bytes: the
  line is appended, or, when it does not fit, nothing is written and the error
  indicator of the stream is set. The source does not look at the return value.
\<close>

definition fprintf_line :: "string \<times> nat \<times> bool \<Rightarrow> int \<Rightarrow> string \<times> nat \<times> bool" where
  "fprintf_line st v =
     (case st of (out, room, err) \<Rightarrow>
        (let s = printf_d v @ [CHR 0x0A]
         in if length s \<le> room then (out @ s, room - length s, err) else (out, room, True)))"

section \<open>The sort module (src/sort.c)\<close>

text \<open>
  \<^verbatim>\<open>struct sort\<close> without the two path names. The world around it: the bytes of the
  file at \<open>fpath\<close>, the temporary directory, whether \<open>mkdtemp\<close> succeeds, how many bytes
  the device of \<open>fpath\<close> accepts when the file is rewritten, and the error indicator of
  the stream the result is written to.
\<close>

record sort =
  s_buf :: "int list"
  s_buf_nmemb :: nat
  s_thr_count :: nat
  s_fcount :: nat

record world =
  w_input :: string
  w_tmp :: disk
  w_mkdtemp :: bool
  w_out_room :: nat
  w_out_err :: bool

text \<open>
  \<open>sort_create\<close>: the assertions, and a buffer of \<open>buf_size / 4\<close> cells. What the cells
  hold at first is indeterminate in C; every theorem below is about an arbitrary buffer
  of the right length.
\<close>

definition sort_create :: "nat \<Rightarrow> nat \<Rightarrow> sort option" where
  "sort_create buf_size thr_count =
     (if buf_size > 0 \<and> buf_size mod 4 = 0 \<and> thr_count > 0
      then Some \<lparr>s_buf = replicate (buf_size div 4) 0, s_buf_nmemb = buf_size div 4,
                 s_thr_count = thr_count, s_fcount = 0\<rparr>
      else None)"

text \<open>
  \<open>sort_handle_buf\<close>: sort the first \<open>cnt\<close> cells (\<open>count\<close> in the source) and write them to the file
  \<open>(0, bufn)\<close>. \<^verbatim>\<open>config.h\<close> is not among the sources; the README names the parallel merge
  sort as the sort of a chunk, so the branch without \<^verbatim>\<open>CONFIG_USE_QSORT\<close> is the one
  modelled.
\<close>

definition sort_handle_buf :: "sort \<Rightarrow> disk \<Rightarrow> nat \<Rightarrow> nat \<Rightarrow> (bool \<times> sort \<times> disk) option" where
  "sort_handle_buf obj d bufn cnt =
     do {
       buf \<leftarrow> pmsort_sort (s_buf obj) cnt (s_thr_count obj);
       (res, stream, room) \<leftarrow> fwrite buf 0 cnt [] (d_room d);
       Some (res = cnt, obj\<lparr>s_buf := buf\<rparr>,
             d\<lparr>d_files := (d_files d)((0, bufn) \<mapsto> stream), d_room := room\<rparr>)
     }"

lemma getline_shorter: "getline stream = Some (line, rest) \<Longrightarrow> length rest < length stream"
  by (auto simp: getline_def Let_def split: if_splits)

text \<open>
  The \<^verbatim>\<open>while\<close> loop of \<open>sort_read_chunks\<close>. The result carries \<open>buf_idx\<close> and \<open>bufn\<close>;
  \<open>False\<close> is a \<^verbatim>\<open>goto err\<close> with \<open>ret = false\<close>.
\<close>

function sort_read_loop ::
  "sort \<Rightarrow> disk \<Rightarrow> string \<Rightarrow> nat \<Rightarrow> nat \<Rightarrow> (bool \<times> sort \<times> disk \<times> nat \<times> nat) option" where
  "sort_read_loop obj d stream buf_idx bufn =
     (case getline stream of
        None \<Rightarrow> Some (True, obj, d, buf_idx, bufn)
      | Some (line, rest) \<Rightarrow>
          (case str2int (chomp line) of
             None \<Rightarrow> Some (False, obj, d, buf_idx, bufn)
           | Some val \<Rightarrow>
               (if buf_idx < length (s_buf obj)
                then (let obj1 = obj\<lparr>s_buf := (s_buf obj)[buf_idx := val]\<rparr>;
                          buf_idx1 = buf_idx + 1
                      in if buf_idx1 = s_buf_nmemb obj1
                         then do {
                           (ret, obj2, d2) \<leftarrow> sort_handle_buf obj1 d bufn buf_idx1;
                           if \<not> ret then Some (False, obj2, d2, buf_idx1, bufn)
                           else sort_read_loop obj2 d2 rest 0 (bufn + 1)
                         }
                         else sort_read_loop obj1 d rest buf_idx1 bufn)
                else None)))"
  by pat_completeness auto
termination
  by (relation "measure (\<lambda>(obj, d, stream, buf_idx, bufn). length stream)")
     (auto simp: getline_shorter)

declare sort_read_loop.simps [simp del]

definition sort_read_chunks :: "sort \<Rightarrow> string \<Rightarrow> disk \<Rightarrow> (bool \<times> sort \<times> disk) option" where
  "sort_read_chunks obj input d =
     do {
       (ret, obj1, d1, buf_idx, bufn) \<leftarrow> sort_read_loop obj d input 0 0;
       if \<not> ret then Some (False, obj1, d1)
       else if buf_idx \<noteq> 0
       then do {
         (ret, obj2, d2) \<leftarrow> sort_handle_buf obj1 d1 bufn buf_idx;
         if \<not> ret then Some (False, obj2, d2)
         else Some (True, obj2\<lparr>s_fcount := bufn + 1\<rparr>, d2)
       }
       else Some (True, obj1\<lparr>s_fcount := bufn\<rparr>, d1)
     }"

text \<open>
  The \<^verbatim>\<open>do \<dots> while (n != 0)\<close> loop of \<open>sort_write_output\<close>: read a block of the merged
  file, print its items, stop after a block of no items. The function has no result in
  the source; the model returns the buffer and the output stream.
\<close>

function sort_write_loop ::
  "int list \<Rightarrow> nat \<Rightarrow> int list \<Rightarrow> string \<times> nat \<times> bool \<Rightarrow> (int list \<times> string \<times> nat \<times> bool) option" where
  "sort_write_loop buf buf_nmemb fmerged fout =
     do {
       (n, buf1, fmerged1) \<leftarrow> fread buf 0 buf_nmemb fmerged;
       let fout1 = foldl fprintf_line fout (take n buf1)
       in if n \<noteq> 0 then sort_write_loop buf1 buf_nmemb fmerged1 fout1
          else Some (buf1, fout1)
     }"
  by pat_completeness auto
termination
  by (relation "measure (\<lambda>(buf, buf_nmemb, fmerged, fout). length fmerged)")
     (auto simp: fread_def Let_def split: if_splits)

declare sort_write_loop.simps [simp del]

text \<open>
  \<open>sort_write_output\<close>: \<open>xfopen\<close> of the merged file ends the process if the file does
  not exist; \<open>xfopen\<close> of \<open>fpath\<close> for writing empties the file.
\<close>

definition sort_write_output :: "sort \<Rightarrow> world \<Rightarrow> nat \<times> nat \<Rightarrow> (sort \<times> world) option" where
  "sort_write_output obj w fname_merged =
     (case d_files (w_tmp w) fname_merged of
        None \<Rightarrow> None
      | Some fmerged \<Rightarrow>
          do {
            (buf, out, room, err) \<leftarrow>
              sort_write_loop (s_buf obj) (s_buf_nmemb obj) fmerged ([], w_out_room w, w_out_err w);
            Some (obj\<lparr>s_buf := buf\<rparr>, w\<lparr>w_input := out, w_out_room := room, w_out_err := err\<rparr>)
          })"

text \<open>
  \<open>sort_create_tmp_dir\<close> makes a new, empty directory (or fails);
  \<open>sort_remove_tmp_dir\<close> removes the directory and what is in it.
\<close>

definition sort_create_tmp_dir :: "world \<Rightarrow> bool \<times> world" where
  "sort_create_tmp_dir w =
     (if w_mkdtemp w then (True, w\<lparr>w_tmp := (w_tmp w)\<lparr>d_files := Map.empty\<rparr>\<rparr>) else (False, w))"

definition sort_remove_tmp_dir :: "world \<Rightarrow> world" where
  "sort_remove_tmp_dir w = w\<lparr>w_tmp := (w_tmp w)\<lparr>d_files := Map.empty\<rparr>\<rparr>"

definition sort_sort :: "sort \<Rightarrow> world \<Rightarrow> (bool \<times> sort \<times> world) option" where
  "sort_sort obj w =
     (case sort_create_tmp_dir w of
        (False, w0) \<Rightarrow> Some (False, obj, w0)
      | (True, w0) \<Rightarrow>
          do {
            (res, obj1, d1) \<leftarrow> sort_read_chunks obj (w_input w0) (w_tmp w0);
            if \<not> res then Some (False, obj1, sort_remove_tmp_dir (w0\<lparr>w_tmp := d1\<rparr>))
            else do {
              (res, fname_merged, buf, d2) \<leftarrow>
                kmerge_merge d1 (s_fcount obj1) (s_buf obj1) (s_buf_nmemb obj1);
              if \<not> res
              then Some (False, obj1\<lparr>s_buf := buf\<rparr>, sort_remove_tmp_dir (w0\<lparr>w_tmp := d2\<rparr>))
              else do {
                (obj3, w3) \<leftarrow> sort_write_output (obj1\<lparr>s_buf := buf\<rparr>) (w0\<lparr>w_tmp := d2\<rparr>) fname_merged;
                Some (True, obj3, sort_remove_tmp_dir w3)
              }
            }
          })"

text \<open>
  \<open>main\<close> (src/main.c) after the arguments are parsed and validated: the buffer size is
  given in MiB, and the exit status is \<open>EXIT_SUCCESS\<close> (0) when \<open>sort_sort\<close> returns true
  and \<open>EXIT_FAILURE\<close> (1) otherwise.
\<close>

definition main_exit :: "bool \<Rightarrow> nat" where
  "main_exit res = (if \<not> res then 1 else 0)"

text \<open>
  The file the program writes for a list of integers, one per line: what
  \<^verbatim>\<open>fprintf(fout, "%d\n", v)\<close> prints for each of them in turn.
\<close>

definition text_of :: "int list \<Rightarrow> string" where
  "text_of vs = concat (map (\<lambda>v. printf_d v @ [CHR 0x0A]) vs)"

text \<open>
  What can be observed of a run of \<open>sort_sort\<close>: the result, the bytes of the file at
  \<open>fpath\<close> afterwards, and the error indicator of the stream they were written to.
\<close>

definition observe :: "(bool \<times> sort \<times> world) option \<Rightarrow> (bool \<times> string \<times> bool) option" where
  "observe r = map_option (\<lambda>(res, obj, w). (res, w_input w, w_out_err w)) r"

subsection \<open>Two runs of the sorter\<close>

text \<open>
  Claim C1 says that the file a successful run leaves is in non-decreasing order. The
  run below is \<open>sort_sort\<close> on an object made by \<open>sort_create\<close> for a buffer of 17
  integers (68 bytes) and three threads, on a file of the five lines 5, 4, 3, 2, 1. The
  file fits into one chunk, which \<open>pmsort_sort\<close> leaves as 1, 2, 4, 5, 3; there is one
  run file, so no merge stage runs, and the run file is written back as it is.
\<close>

theorem sort_sort_unsorted_output:
  "observe (sort_sort \<lparr>s_buf = replicate 17 0, s_buf_nmemb = 17, s_thr_count = 3, s_fcount = 0\<rparr>
      \<lparr>w_input = text_of [5, 4, 3, 2, 1], w_tmp = \<lparr>d_files = Map.empty, d_room = 1000\<rparr>,
       w_mkdtemp = True, w_out_room = 1000, w_out_err = False\<rparr>)
   = Some (True, text_of [1, 2, 4, 5, 3], False)"
  by code_simp

text \<open>
  Claim C8 says that a short write during write-back makes \<open>sort_sort\<close> return failure
  and the process exit with a non-zero status. In the run below the device of the
  input file accepts three more bytes: the line of the first integer is written, the
  line of the second is not, the error indicator of the stream is set, and \<open>sort_sort\<close>
  returns true, so that \<open>main\<close> exits with status 0.
\<close>

theorem sort_sort_ignores_short_write:
  "observe (sort_sort \<lparr>s_buf = replicate 17 0, s_buf_nmemb = 17, s_thr_count = 1, s_fcount = 0\<rparr>
      \<lparr>w_input = text_of [2, 1], w_tmp = \<lparr>d_files = Map.empty, d_room = 1000\<rparr>,
       w_mkdtemp = True, w_out_room = 3, w_out_err = False\<rparr>)
   = Some (True, text_of [1], True) \<and> main_exit True = 0"
  by (rule conjI, code_simp, simp add: main_exit_def)

section \<open>Properties of the sort module\<close>

subsection \<open>Reading the chunks\<close>

text \<open>
  The integers of a text file, as the reading loop of \<open>sort_read_chunks\<close> takes them:
  line by line with \<open>getline\<close>, each line cut at its newline and converted by
  \<open>str2int\<close>. \<open>None\<close> when a line is not an integer.
\<close>

function parse_lines :: "string \<Rightarrow> int list option" where
  "parse_lines stream =
     (case getline stream of
        None \<Rightarrow> Some []
      | Some (line, rest) \<Rightarrow>
          (case str2int (chomp line) of
             None \<Rightarrow> None
           | Some val \<Rightarrow> map_option ((#) val) (parse_lines rest)))"
  by pat_completeness auto
termination
  by (relation "measure length") (auto simp: getline_shorter)

declare parse_lines.simps [simp del]

text \<open>
  A successful \<open>sort_handle_buf\<close> on \<open>cnt\<close> cells writes one file that is not empty and
  holds the items of those cells, as they are if they are sorted.
\<close>

lemma sort_handle_buf_effect:
  assumes h: "sort_handle_buf obj d bufn cnt = Some (True, obj', d')"
    and c: "cnt \<le> length (s_buf obj)"
  shows "\<exists>c. d_files d' = (d_files d)((0, bufn) \<mapsto> c) \<and> c \<noteq> []
          \<and> mset c = mset (take cnt (s_buf obj))
          \<and> (sorted (take cnt (s_buf obj)) \<longrightarrow> c = take cnt (s_buf obj))"
    and "length (s_buf obj') = length (s_buf obj)"
    and "s_buf_nmemb obj' = s_buf_nmemb obj" and "s_thr_count obj' = s_thr_count obj"
proof -
  obtain buf where ps: "pmsort_sort (s_buf obj) cnt (s_thr_count obj) = Some buf"
    using h by (auto simp: sort_handle_buf_def split: bind_splits)
  have k: "chunk_kept cnt (s_buf obj) buf" by (rule pmsort_sort_kept[OF ps])
  have pos: "0 < cnt" using ps by (simp add: pmsort_sort_def split: if_splits)
  have lb: "length buf = length (s_buf obj)" using k by (simp add: chunk_kept_def)
  define n where "n = min cnt (d_room d)"
  have fw: "fwrite buf 0 cnt [] (d_room d) = Some (n, take n buf, d_room d - n)"
    using c lb by (simp add: fwrite_def Let_def n_def)
  have r: "n = cnt" "obj' = obj\<lparr>s_buf := buf\<rparr>"
    "d' = d\<lparr>d_files := (d_files d)((0, bufn) \<mapsto> take n buf), d_room := d_room d - n\<rparr>"
    using h ps fw by (auto simp: sort_handle_buf_def)
  show "length (s_buf obj') = length (s_buf obj)" using lb r by simp
  show "s_buf_nmemb obj' = s_buf_nmemb obj" "s_thr_count obj' = s_thr_count obj"
    using r by simp_all
  have "take cnt buf \<noteq> []" using pos c lb by auto
  moreover have "mset (take cnt buf) = mset (take cnt (s_buf obj))"
    using k by (simp add: chunk_kept_def)
  moreover have "sorted (take cnt (s_buf obj)) \<longrightarrow> take cnt buf = take cnt (s_buf obj)"
    using k by (auto simp: chunk_kept_def)
  ultimately show "\<exists>c. d_files d' = (d_files d)((0, bufn) \<mapsto> c) \<and> c \<noteq> []
          \<and> mset c = mset (take cnt (s_buf obj))
          \<and> (sorted (take cnt (s_buf obj)) \<longrightarrow> c = take cnt (s_buf obj))"
    using r by (intro exI[of _ "take cnt buf"]) simp
qed

lemma sort_handle_buf_nmemb:
  "sort_handle_buf obj d bufn cnt = Some (ret, obj', d') \<Longrightarrow> s_buf_nmemb obj' = s_buf_nmemb obj"
  by (auto simp: sort_handle_buf_def split: bind_splits)

text \<open>One round of the reading loop, case by case.\<close>

lemma sort_read_loop_cases:
  assumes "sort_read_loop obj d stream buf_idx bufn = Some (True, obj', d', buf_idx', bufn')"
  obtains (eof) "getline stream = None" "obj' = obj" "d' = d" "buf_idx' = buf_idx" "bufn' = bufn"
  | (full) line rest val obj2 d2 where "getline stream = Some (line, rest)"
      "str2int (chomp line) = Some val" "buf_idx < length (s_buf obj)"
      "buf_idx + 1 = s_buf_nmemb obj"
      "sort_handle_buf (obj\<lparr>s_buf := (s_buf obj)[buf_idx := val]\<rparr>) d bufn (buf_idx + 1)
         = Some (True, obj2, d2)"
      "sort_read_loop obj2 d2 rest 0 (bufn + 1) = Some (True, obj', d', buf_idx', bufn')"
  | (more) line rest val where "getline stream = Some (line, rest)"
      "str2int (chomp line) = Some val" "buf_idx < length (s_buf obj)"
      "buf_idx + 1 \<noteq> s_buf_nmemb obj"
      "sort_read_loop (obj\<lparr>s_buf := (s_buf obj)[buf_idx := val]\<rparr>) d rest (buf_idx + 1) bufn
         = Some (True, obj', d', buf_idx', bufn')"
proof (cases "getline stream")
  case None
  then show ?thesis
    using assms eof by (simp add: sort_read_loop.simps[of obj d stream buf_idx bufn])
next
  case (Some lr)
  obtain line rest where lr: "lr = (line, rest)" by (cases lr)
  note gl = Some[unfolded lr]
  show ?thesis
  proof (cases "str2int (chomp line)")
    case None
    then show ?thesis
      using assms gl by (simp add: sort_read_loop.simps[of obj d stream buf_idx bufn])
  next
    case (Some val)
    have lt: "buf_idx < length (s_buf obj)"
      using assms gl Some
      by (simp add: sort_read_loop.simps[of obj d stream buf_idx bufn] split: if_splits)
    show ?thesis
    proof (cases "buf_idx + 1 = s_buf_nmemb obj")
      case True
      have "sort_read_loop obj d stream buf_idx bufn
          = do {
              (ret, obj2, d2) \<leftarrow>
                sort_handle_buf (obj\<lparr>s_buf := (s_buf obj)[buf_idx := val]\<rparr>) d bufn (buf_idx + 1);
              if \<not> ret then Some (False, obj2, d2, Suc buf_idx, bufn)
              else sort_read_loop obj2 d2 rest 0 (bufn + 1)
            }"
        using gl Some lt
        by (simp add: sort_read_loop.simps[of obj d stream buf_idx bufn] Let_def True[symmetric])
      then obtain ret obj2 d2 where
        hb: "sort_handle_buf (obj\<lparr>s_buf := (s_buf obj)[buf_idx := val]\<rparr>) d bufn (buf_idx + 1)
           = Some (ret, obj2, d2)"
        and rest: "(if \<not> ret then Some (False, obj2, d2, Suc buf_idx, bufn)
                    else sort_read_loop obj2 d2 rest 0 (bufn + 1))
                   = Some (True, obj', d', buf_idx', bufn')"
        using assms by (auto split: bind_splits)
      have ret using rest by (cases ret) simp_all
      then show ?thesis using full[OF gl Some lt True] hb rest by simp
    next
      case False
      then have "sort_read_loop (obj\<lparr>s_buf := (s_buf obj)[buf_idx := val]\<rparr>) d rest (buf_idx + 1) bufn
         = Some (True, obj', d', buf_idx', bufn')"
        using assms gl Some lt
        by (simp add: sort_read_loop.simps[of obj d stream buf_idx bufn] Let_def)
      then show ?thesis using more[OF gl Some lt False] by simp
    qed
  qed
qed

lemma sort_read_loop_nmemb:
  "sort_read_loop obj d stream buf_idx bufn = Some (True, obj', d', buf_idx', bufn')
   \<Longrightarrow> s_buf_nmemb obj' = s_buf_nmemb obj"
proof (induction "length stream" arbitrary: obj d stream buf_idx bufn rule: less_induct)
  case less
  from less.prems show ?case
  proof (cases rule: sort_read_loop_cases)
    case eof
    then show ?thesis by simp
  next
    case (full line rest val obj2 d2)
    have "s_buf_nmemb obj' = s_buf_nmemb obj2"
      by (rule less.hyps[OF getline_shorter[OF full(1)] full(6)])
    then show ?thesis using sort_handle_buf_nmemb[OF full(5)] by simp
  next
    case (more line rest val)
    have "s_buf_nmemb obj' = s_buf_nmemb (obj\<lparr>s_buf := (s_buf obj)[buf_idx := val]\<rparr>)"
      by (rule less.hyps[OF getline_shorter[OF more(1)] more(5)])
    then show ?thesis by simp
  qed
qed

text \<open>
  What a successful run of the reading loop has done, for the integers \<open>vs\<close> of the
  stream it was given: the chunk files from \<open>bufn\<close> on are new and not empty, no other
  file has changed, the new files and the cells in use hold the items that were in the
  cells in use before and \<open>vs\<close>, and the new files are sorted if those items came in
  sorted.
\<close>

definition read_post ::
  "sort \<Rightarrow> disk \<Rightarrow> nat \<Rightarrow> nat \<Rightarrow> int list \<Rightarrow> sort \<Rightarrow> disk \<Rightarrow> nat \<Rightarrow> nat \<Rightarrow> bool" where
  "read_post obj d buf_idx bufn vs obj' d' buf_idx' bufn' \<longleftrightarrow>
     length (s_buf obj') = s_buf_nmemb obj' \<and> s_thr_count obj' = s_thr_count obj
   \<and> buf_idx' < s_buf_nmemb obj \<and> bufn \<le> bufn'
   \<and> (\<forall>t j. t \<noteq> 0 \<or> j < bufn \<or> bufn' \<le> j \<longrightarrow> d_files d' (t, j) = d_files d (t, j))
   \<and> (\<forall>j. bufn \<le> j \<and> j < bufn' \<longrightarrow> (\<exists>c. d_files d' (0, j) = Some c \<and> c \<noteq> []))
   \<and> (\<Sum>j = bufn..<bufn'. mset (stage_file d' 0 j)) + mset (take buf_idx' (s_buf obj'))
       = mset (take buf_idx (s_buf obj)) + mset vs
   \<and> (sorted (take buf_idx (s_buf obj) @ vs) \<longrightarrow>
        (\<forall>j. bufn \<le> j \<and> j < bufn' \<longrightarrow> sorted (stage_file d' 0 j))
        \<and> sorted (take buf_idx' (s_buf obj')))"

lemma sort_read_loop_effect:
  assumes "sort_read_loop obj d stream buf_idx bufn = Some (True, obj', d', buf_idx', bufn')"
    and "length (s_buf obj) = s_buf_nmemb obj" "buf_idx < s_buf_nmemb obj"
  shows "\<exists>vs. parse_lines stream = Some vs \<and> read_post obj d buf_idx bufn vs obj' d' buf_idx' bufn'"
  using assms
proof (induction "length stream" arbitrary: obj d stream buf_idx bufn rule: less_induct)
  case less
  note lb = less.prems(2) and bi = less.prems(3)
  define pending where "pending = take buf_idx (s_buf obj)"
  from less.prems(1) show ?case
  proof (cases rule: sort_read_loop_cases)
    case eof
    have "parse_lines stream = Some []"
      using eof(1) by (simp add: parse_lines.simps[of stream])
    moreover have "read_post obj d buf_idx bufn [] obj d buf_idx bufn"
      using lb bi by (auto simp: read_post_def sorted_wrt_take)
    ultimately show ?thesis using eof by simp
  next
    case (more line rest val)
    define obj1 where "obj1 = obj\<lparr>s_buf := (s_buf obj)[buf_idx := val]\<rparr>"
    have lb1: "length (s_buf obj1) = s_buf_nmemb obj1" using lb by (simp add: obj1_def)
    have bi1: "buf_idx + 1 < s_buf_nmemb obj1" using more(3,4) lb by (simp add: obj1_def)
    have "\<exists>vs. parse_lines rest = Some vs
        \<and> read_post obj1 d (buf_idx + 1) bufn vs obj' d' buf_idx' bufn'"
      by (rule less.hyps[OF getline_shorter[OF more(1)] more(5)[folded obj1_def] lb1 bi1])
    then obtain vs where pv: "parse_lines rest = Some vs"
      and rp: "read_post obj1 d (buf_idx + 1) bufn vs obj' d' buf_idx' bufn'" by blast
    have tk: "take (buf_idx + 1) (s_buf obj1) = pending @ [val]"
      using more(3) by (simp add: obj1_def pending_def take_Suc_conv_app_nth)
    have "parse_lines stream = Some (val # vs)"
      using more(1,2) pv by (simp add: parse_lines.simps[of stream])
    moreover have "read_post obj d buf_idx bufn (val # vs) obj' d' buf_idx' bufn'"
      using rp unfolding read_post_def tk pending_def[symmetric]
      by (simp add: obj1_def)
    ultimately show ?thesis by blast
  next
    case (full line rest val obj2 d2)
    define obj1 where "obj1 = obj\<lparr>s_buf := (s_buf obj)[buf_idx := val]\<rparr>"
    have tk: "take (buf_idx + 1) (s_buf obj1) = pending @ [val]"
      using full(3) by (simp add: obj1_def pending_def take_Suc_conv_app_nth)
    have cl: "buf_idx + 1 \<le> length (s_buf obj1)" using full(3) by (simp add: obj1_def)
    note hb = sort_handle_buf_effect[OF full(5)[folded obj1_def] cl]
    obtain c where c: "d_files d2 = (d_files d)((0, bufn) \<mapsto> c)" "c \<noteq> []"
      "mset c = mset (pending @ [val])" "sorted (pending @ [val]) \<longrightarrow> c = pending @ [val]"
      using hb(1) unfolding tk by blast
    have lb2: "length (s_buf obj2) = s_buf_nmemb obj2"
      using hb(2,3) lb by (simp add: obj1_def)
    have n2: "s_buf_nmemb obj2 = s_buf_nmemb obj" using hb(3) by (simp add: obj1_def)
    have bi2: "0 < s_buf_nmemb obj2" using n2 bi by simp
    have "\<exists>vs. parse_lines rest = Some vs
        \<and> read_post obj2 d2 0 (bufn + 1) vs obj' d' buf_idx' bufn'"
      by (rule less.hyps[OF getline_shorter[OF full(1)] full(6) lb2 bi2])
    then obtain vs where pv: "parse_lines rest = Some vs"
      and rp: "read_post obj2 d2 0 (bufn + 1) vs obj' d' buf_idx' bufn'" by blast
    note rp' = rp[unfolded read_post_def]
    have le: "bufn + 1 \<le> bufn'" using rp' by blast
    have fr: "d_files d' (t, j) = d_files d2 (t, j)" if "t \<noteq> 0 \<or> j < bufn + 1 \<or> bufn' \<le> j" for t :: nat and j
      using rp' that by blast
    have ex: "\<exists>c. d_files d' (0, j) = Some c \<and> c \<noteq> []" if "bufn + 1 \<le> j \<and> j < bufn'" for j
      using rp' that by blast
    have sm: "(\<Sum>j = bufn + 1..<bufn'. mset (stage_file d' 0 j)) + mset (take buf_idx' (s_buf obj'))
        = mset vs"
      using rp' by simp
    have so: "sorted vs \<longrightarrow>
        (\<forall>j. bufn + 1 \<le> j \<and> j < bufn' \<longrightarrow> sorted (stage_file d' 0 j))
        \<and> sorted (take buf_idx' (s_buf obj'))"
      using rp' by simp
    have fb: "d_files d' (0, bufn) = Some c" using fr[of 0 bufn] c(1) by simp
    have sfb: "stage_file d' 0 bufn = c" by (simp add: stage_file_def fb)
    have split: "(\<Sum>j = bufn..<bufn'. mset (stage_file d' 0 j))
        = mset c + (\<Sum>j = bufn + 1..<bufn'. mset (stage_file d' 0 j))"
      using le by (simp add: sum.atLeast_Suc_lessThan sfb)
    have "parse_lines stream = Some (val # vs)"
      using full(1,2) pv by (simp add: parse_lines.simps[of stream])
    moreover have "read_post obj d buf_idx bufn (val # vs) obj' d' buf_idx' bufn'"
      unfolding read_post_def pending_def[symmetric]
    proof (intro conjI allI impI)
      show "length (s_buf obj') = s_buf_nmemb obj'" using rp' by blast
      show "s_thr_count obj' = s_thr_count obj" using rp' hb(4) by (simp add: obj1_def)
      show "buf_idx' < s_buf_nmemb obj" using rp' n2 by simp
      show "bufn \<le> bufn'" using le by simp
    next
      fix t :: nat and j assume a: "t \<noteq> 0 \<or> j < bufn \<or> bufn' \<le> j"
      then have "d_files d' (t, j) = d_files d2 (t, j)" using fr[of t j] by auto
      moreover have "(t, j) \<noteq> (0, bufn)" using a le by auto
      ultimately show "d_files d' (t, j) = d_files d (t, j)" using c(1) by (auto split: if_splits)
    next
      fix j assume a: "bufn \<le> j \<and> j < bufn'"
      show "\<exists>c. d_files d' (0, j) = Some c \<and> c \<noteq> []"
      proof (cases "j = bufn")
        case True
        then show ?thesis using fb c(2) by simp
      next
        case False
        then show ?thesis using ex[of j] a by simp
      qed
    next
      show "(\<Sum>j = bufn..<bufn'. mset (stage_file d' 0 j)) + mset (take buf_idx' (s_buf obj'))
          = mset pending + mset (val # vs)"
        unfolding split using sm c(3) by (simp add: add.assoc)
    next
      fix j assume s: "sorted (pending @ val # vs)" and a: "bufn \<le> j \<and> j < bufn'"
      have s1: "sorted (pending @ [val])" and s2: "sorted vs"
        using s by (simp_all add: sorted_append)
      show "sorted (stage_file d' 0 j)"
      proof (cases "j = bufn")
        case True
        then show ?thesis using sfb c(4) s1 by simp
      next
        case False
        then show ?thesis using so s2 a by simp
      qed
    next
      assume s: "sorted (pending @ val # vs)"
      then have "sorted vs" by (simp add: sorted_append)
      then show "sorted (take buf_idx' (s_buf obj'))" using so by blast
    qed
    ultimately show ?thesis by blast
  qed
qed

text \<open>
  A successful \<open>sort_read_chunks\<close> into an empty directory: the input parses to some
  \<open>vs\<close>, the \<open>fcount\<close> chunk files are the files of the directory, none is empty, they
  hold the items of \<open>vs\<close>, and they are sorted if \<open>vs\<close> is.
\<close>

lemma sort_read_chunks_effect:
  assumes rc: "sort_read_chunks obj input d = Some (True, obj', d')"
    and lb: "length (s_buf obj) = s_buf_nmemb obj" and pos: "0 < s_buf_nmemb obj"
    and em: "d_files d = Map.empty"
  shows "\<exists>vs. parse_lines input = Some vs
      \<and> stage_ok d' 0 (s_fcount obj') \<and> stage_mset d' 0 (s_fcount obj') = mset vs
      \<and> (sorted vs \<longrightarrow> stage_sorted d' 0 (s_fcount obj'))
      \<and> files_nonempty d'
      \<and> (\<forall>t j. d_files d' (t, j) \<noteq> None \<longrightarrow> t = 0 \<and> j < s_fcount obj')
      \<and> length (s_buf obj') = s_buf_nmemb obj' \<and> s_buf_nmemb obj' = s_buf_nmemb obj"
proof -
  obtain ret obj1 d1 buf_idx bufn where
    lp: "sort_read_loop obj d input 0 0 = Some (ret, obj1, d1, buf_idx, bufn)"
    using rc by (auto simp: sort_read_chunks_def split: bind_splits)
  have ret: ret using rc lp by (cases ret) (simp_all add: sort_read_chunks_def)
  note lp = lp[unfolded eqTrueI[OF ret]]
  have "\<exists>vs. parse_lines input = Some vs \<and> read_post obj d 0 0 vs obj1 d1 buf_idx bufn"
    by (rule sort_read_loop_effect[OF lp lb pos])
  then obtain vs where pv: "parse_lines input = Some vs"
    and rp: "read_post obj d 0 0 vs obj1 d1 buf_idx bufn" by blast
  note rp' = rp[unfolded read_post_def]
  have n1: "s_buf_nmemb obj1 = s_buf_nmemb obj" by (rule sort_read_loop_nmemb[OF lp])
  have l1: "length (s_buf obj1) = s_buf_nmemb obj1" using rp' by blast
  have bi: "buf_idx < s_buf_nmemb obj" using rp' by blast
  have fr: "d_files d1 (t, j) = None" if "t \<noteq> 0 \<or> bufn \<le> j" for t :: nat and j
  proof -
    have "d_files d1 (t, j) = d_files d (t, j)" using rp' that by blast
    then show ?thesis using em by simp
  qed
  have ex: "\<exists>c. d_files d1 (0, j) = Some c \<and> c \<noteq> []" if "j < bufn" for j
    using rp' that by simp
  have sm: "(\<Sum>j = 0..<bufn. mset (stage_file d1 0 j)) + mset (take buf_idx (s_buf obj1)) = mset vs"
    using rp' by simp
  have so: "sorted vs \<longrightarrow> (\<forall>j < bufn. sorted (stage_file d1 0 j)) \<and> sorted (take buf_idx (s_buf obj1))"
    using rp' by simp
  show ?thesis
  proof (cases "buf_idx = 0")
    case True
    then have r: "obj' = obj1\<lparr>s_fcount := bufn\<rparr>" "d' = d1"
      using rc lp by (simp_all add: sort_read_chunks_def)
    have "stage_ok d1 0 bufn" using ex by (simp add: stage_ok_def)
    moreover have "stage_mset d1 0 bufn = mset vs"
      using sm True by (simp add: stage_mset_def lessThan_atLeast0)
    moreover have "sorted vs \<longrightarrow> stage_sorted d1 0 bufn" using so by (simp add: stage_sorted_def)
    moreover have "files_nonempty d1"
      unfolding files_nonempty_def
    proof (intro allI impI)
      fix name c assume a: "d_files d1 name = Some c"
      obtain t j where nm: "name = (t, j)" by (cases name)
      have "t = 0 \<and> j < bufn" using fr[of t j] a nm by (cases "t \<noteq> 0 \<or> bufn \<le> j") auto
      then show "c \<noteq> []" using ex[of j] a nm by auto
    qed
    moreover have "\<forall>t j. d_files d1 (t, j) \<noteq> None \<longrightarrow> t = 0 \<and> j < bufn"
      using fr by (metis not_le_imp_less)
    ultimately show ?thesis using pv r l1 n1 by simp
  next
    case False
    obtain r2 obj2 d2 where hb: "sort_handle_buf obj1 d1 bufn buf_idx = Some (r2, obj2, d2)"
      and fin: "(if \<not> r2 then Some (False, obj2, d2) else Some (True, obj2\<lparr>s_fcount := bufn + 1\<rparr>, d2))
                = Some (True, obj', d')"
      using rc lp False by (auto simp: sort_read_chunks_def split: bind_splits)
    have r2: r2 using fin by (cases r2) simp_all
    have r: "obj' = obj2\<lparr>s_fcount := bufn + 1\<rparr>" "d' = d2" using fin r2 by simp_all
    have cl: "buf_idx \<le> length (s_buf obj1)" using bi l1 n1 by simp
    note he = sort_handle_buf_effect[OF hb[unfolded eqTrueI[OF r2]] cl]
    obtain c where c: "d_files d2 = (d_files d1)((0, bufn) \<mapsto> c)" "c \<noteq> []"
      "mset c = mset (take buf_idx (s_buf obj1))"
      "sorted (take buf_idx (s_buf obj1)) \<longrightarrow> c = take buf_idx (s_buf obj1)"
      using he(1) by blast
    have old: "stage_file d2 0 j = stage_file d1 0 j" if "j < bufn" for j
      using that by (simp add: stage_file_def c(1))
    have new: "stage_file d2 0 bufn = c" by (simp add: stage_file_def c(1))
    have "stage_ok d2 0 (bufn + 1)"
      unfolding stage_ok_def
    proof (intro allI impI)
      fix j assume "j < bufn + 1"
      then show "\<exists>c. d_files d2 (0, j) = Some c \<and> c \<noteq> []"
        using ex[of j] c(1,2) by (cases "j = bufn") auto
    qed
    moreover have "stage_mset d2 0 (bufn + 1) = mset vs"
    proof -
      have "(\<Sum>j = 0..<bufn. mset (stage_file d2 0 j)) = (\<Sum>j = 0..<bufn. mset (stage_file d1 0 j))"
        by (rule sum.cong) (simp_all add: old)
      then show ?thesis
        using sm c(3) by (simp add: stage_mset_def lessThan_atLeast0 new)
    qed
    moreover have "sorted vs \<longrightarrow> stage_sorted d2 0 (bufn + 1)"
    proof
      assume s: "sorted vs"
      show "stage_sorted d2 0 (bufn + 1)"
        unfolding stage_sorted_def
      proof (intro allI impI)
        fix j assume j: "j < bufn + 1"
        show "sorted (stage_file d2 0 j)"
        proof (cases "j = bufn")
          case True
          then show ?thesis using new c(4) so s by simp
        next
          case False
          then show ?thesis using old[of j] so s j by simp
        qed
      qed
    qed
    moreover have "files_nonempty d2"
      unfolding files_nonempty_def
    proof (intro allI impI)
      fix name x assume a: "d_files d2 name = Some x"
      obtain t j where nm: "name = (t, j)" by (cases name)
      show "x \<noteq> []"
      proof (cases "(t, j) = (0, bufn)")
        case True
        then show ?thesis using a nm c(1,2) by simp
      next
        case False
        then have a1: "d_files d1 (t, j) = Some x" using a nm c(1) by (auto split: if_splits)
        then have "t = 0 \<and> j < bufn" using fr[of t j] by (cases "t \<noteq> 0 \<or> bufn \<le> j") auto
        then show ?thesis using ex[of j] a1 by auto
      qed
    qed
    moreover have "\<forall>t j. d_files d2 (t, j) \<noteq> None \<longrightarrow> t = 0 \<and> j < bufn + 1"
    proof (intro allI impI)
      fix t j assume a: "d_files d2 (t, j) \<noteq> None"
      show "t = 0 \<and> j < bufn + 1"
      proof (cases "(t, j) = (0, bufn)")
        case True
        then show ?thesis by simp
      next
        case False
        then have "d_files d1 (t, j) \<noteq> None" using a c(1) by (auto split: if_splits)
        then have "t = 0 \<and> j < bufn" using fr[of t j] by (cases "t \<noteq> 0 \<or> bufn \<le> j") auto
        then show ?thesis by simp
      qed
    qed
    moreover have "length (s_buf obj2) = s_buf_nmemb obj2" "s_buf_nmemb obj2 = s_buf_nmemb obj"
      using he(2,3) l1 n1 by simp_all
    ultimately show ?thesis using pv r by simp
  qed
qed

lemma sort_read_chunks_nmemb:
  assumes "sort_read_chunks obj input d = Some (True, obj', d')"
  shows "s_buf_nmemb obj' = s_buf_nmemb obj"
proof -
  obtain ret obj1 d1 buf_idx bufn where
    lp: "sort_read_loop obj d input 0 0 = Some (ret, obj1, d1, buf_idx, bufn)"
    using assms by (auto simp: sort_read_chunks_def split: bind_splits)
  have ret: ret using assms lp by (cases ret) (simp_all add: sort_read_chunks_def)
  have n1: "s_buf_nmemb obj1 = s_buf_nmemb obj"
    by (rule sort_read_loop_nmemb[OF lp[unfolded eqTrueI[OF ret]]])
  show ?thesis
  proof (cases "buf_idx = 0")
    case True
    then show ?thesis using assms lp ret n1 by (auto simp: sort_read_chunks_def)
  next
    case False
    then obtain r2 obj2 d2 where hb: "sort_handle_buf obj1 d1 bufn buf_idx = Some (r2, obj2, d2)"
      and fin: "(if \<not> r2 then Some (False, obj2, d2) else Some (True, obj2\<lparr>s_fcount := bufn + 1\<rparr>, d2))
                = Some (True, obj', d')"
      using assms lp ret by (auto simp: sort_read_chunks_def split: bind_splits)
    have "obj' = obj2\<lparr>s_fcount := bufn + 1\<rparr>" using fin by (cases r2) simp_all
    then show ?thesis using sort_handle_buf_nmemb[OF hb] n1 by simp
  qed
qed

subsection \<open>Writing the result\<close>

lemma text_of_append: "text_of (xs @ ys) = text_of xs @ text_of ys"
  by (simp add: text_of_def)

text \<open>
  Printing a list of items line by line: when the error indicator is clear afterwards,
  it was clear before and every line has been appended.
\<close>

lemma foldl_fprintf_line:
  assumes "foldl fprintf_line (out, room, err) xs = (out', room', err')" "\<not> err'"
  shows "out' = out @ text_of xs \<and> \<not> err"
  using assms
proof (induction xs arbitrary: out room err)
  case Nil
  then show ?case by (simp add: text_of_def)
next
  case (Cons x xs)
  define l where "l = printf_d x @ [CHR 0x0A]"
  show ?case
  proof (cases "length l \<le> room")
    case True
    then have "fprintf_line (out, room, err) x = (out @ l, room - length l, err)"
      by (simp add: fprintf_line_def l_def Let_def)
    then have "foldl fprintf_line (out @ l, room - length l, err) xs = (out', room', err')"
      using Cons.prems(1) by simp
    then have "out' = (out @ l) @ text_of xs \<and> \<not> err" by (rule Cons.IH[OF _ Cons.prems(2)])
    then show ?thesis by (simp add: text_of_def l_def)
  next
    case False
    then have "fprintf_line (out, room, err) x = (out, room, True)"
      by (simp add: fprintf_line_def l_def Let_def)
    then have "foldl fprintf_line (out, room, True) xs = (out', room', err')"
      using Cons.prems(1) by simp
    then have "out' = out @ text_of xs \<and> \<not> True" by (rule Cons.IH[OF _ Cons.prems(2)])
    then show ?thesis by simp
  qed
qed

text \<open>
  The loop of \<open>sort_write_output\<close>: when the error indicator is clear afterwards, the
  output is what was there before and the text of the merged file.
\<close>

lemma sort_write_loop_effect:
  assumes "sort_write_loop buf nmemb fmerged (out, room, err) = Some (buf', out', room', err')"
    and "\<not> err'" "0 < nmemb"
  shows "out' = out @ text_of fmerged \<and> \<not> err"
  using assms
proof (induction "length fmerged" arbitrary: buf fmerged out room err rule: less_induct)
  case less
  define items where "items = take nmemb fmerged"
  define buf1 where "buf1 = items @ drop (length items) buf"
  obtain n b1 f1 where fr0: "fread buf 0 nmemb fmerged = Some (n, b1, f1)"
    using less.prems(1)
    by (auto simp: sort_write_loop.simps[of buf nmemb fmerged "(out, room, err)"] split: bind_splits)
  have li: "length items \<le> length buf"
    using fr0 by (simp add: fread_def Let_def items_def split: if_splits)
  have fr: "fread buf 0 nmemb fmerged = Some (length items, buf1, drop nmemb fmerged)"
    using li by (simp add: fread_def Let_def items_def buf1_def)
  have tk: "take (length items) buf1 = items" by (simp add: buf1_def)
  obtain out1 room1 err1 where f1: "foldl fprintf_line (out, room, err) items = (out1, room1, err1)"
    by (cases "foldl fprintf_line (out, room, err) items") auto
  show ?case
  proof (cases "length items = 0")
    case True
    then have e: "fmerged = []" using less.prems(3) by (cases fmerged) (auto simp: items_def)
    have "sort_write_loop buf nmemb fmerged (out, room, err) = Some (buf1, out, room, err)"
      using fr True by (simp add: sort_write_loop.simps[of buf nmemb fmerged "(out, room, err)"])
    then show ?thesis using less.prems(1,2) e by (simp add: text_of_def)
  next
    case False
    have sh: "length (drop nmemb fmerged) < length fmerged"
      using False less.prems(3) by (auto simp: items_def)
    have "sort_write_loop buf nmemb fmerged (out, room, err)
        = sort_write_loop buf1 nmemb (drop nmemb fmerged) (out1, room1, err1)"
      using fr False tk f1
      by (simp add: sort_write_loop.simps[of buf nmemb fmerged "(out, room, err)"] Let_def)
    then have "sort_write_loop buf1 nmemb (drop nmemb fmerged) (out1, room1, err1)
        = Some (buf', out', room', err')"
      using less.prems(1) by simp
    then have a: "out' = out1 @ text_of (drop nmemb fmerged) \<and> \<not> err1"
      by (rule less.hyps[OF sh _ less.prems(2,3)])
    then have b: "out1 = out @ text_of items \<and> \<not> err"
      using foldl_fprintf_line[OF f1] by simp
    have "text_of items @ text_of (drop nmemb fmerged) = text_of fmerged"
      unfolding text_of_append[symmetric] by (simp add: items_def)
    then show ?thesis using a b by simp
  qed
qed

subsection \<open>The whole run\<close>

text \<open>A successful run of \<open>sort_sort\<close>, step by step.\<close>

lemma sort_sort_success:
  assumes "sort_sort obj w = Some (True, obj', w')"
  obtains obj1 d1 fname buf d2 w3 where
    "sort_read_chunks obj (w_input w) ((w_tmp w)\<lparr>d_files := Map.empty\<rparr>) = Some (True, obj1, d1)"
    "kmerge_merge d1 (s_fcount obj1) (s_buf obj1) (s_buf_nmemb obj1) = Some (True, fname, buf, d2)"
    "sort_write_output (obj1\<lparr>s_buf := buf\<rparr>) (w\<lparr>w_tmp := d2\<rparr>) fname = Some (obj', w3)"
    "w' = sort_remove_tmp_dir w3"
proof -
  define w0 where "w0 = w\<lparr>w_tmp := (w_tmp w)\<lparr>d_files := Map.empty\<rparr>\<rparr>"
  have mk: "w_mkdtemp w"
    using assms by (auto simp: sort_sort_def sort_create_tmp_dir_def split: if_splits)
  then have st: "sort_sort obj w =
      do {
        (res, obj1, d1) \<leftarrow> sort_read_chunks obj (w_input w0) (w_tmp w0);
        if \<not> res then Some (False, obj1, sort_remove_tmp_dir (w0\<lparr>w_tmp := d1\<rparr>))
        else do {
          (res, fname_merged, buf, d2) \<leftarrow>
            kmerge_merge d1 (s_fcount obj1) (s_buf obj1) (s_buf_nmemb obj1);
          if \<not> res
          then Some (False, obj1\<lparr>s_buf := buf\<rparr>, sort_remove_tmp_dir (w0\<lparr>w_tmp := d2\<rparr>))
          else do {
            (obj3, w3) \<leftarrow> sort_write_output (obj1\<lparr>s_buf := buf\<rparr>) (w0\<lparr>w_tmp := d2\<rparr>) fname_merged;
            Some (True, obj3, sort_remove_tmp_dir w3)
          }
        }
      }"
    unfolding w0_def by (simp add: sort_sort_def sort_create_tmp_dir_def)
  obtain res1 obj1 d1 where rc: "sort_read_chunks obj (w_input w0) (w_tmp w0) = Some (res1, obj1, d1)"
    using assms unfolding st by (auto split: bind_splits)
  have r1: res1 using assms rc unfolding st by (cases res1) simp_all
  obtain res2 fname buf d2 where
    km: "kmerge_merge d1 (s_fcount obj1) (s_buf obj1) (s_buf_nmemb obj1) = Some (res2, fname, buf, d2)"
    using assms rc r1 unfolding st by (auto split: bind_splits)
  have r2: res2 using assms rc r1 km unfolding st by (cases res2) simp_all
  obtain w3 where
    wo: "sort_write_output (obj1\<lparr>s_buf := buf\<rparr>) (w0\<lparr>w_tmp := d2\<rparr>) fname = Some (obj', w3)"
    and w': "w' = sort_remove_tmp_dir w3"
    using assms rc r1 km r2 unfolding st by (auto split: bind_splits)
  have "w0\<lparr>w_tmp := d2\<rparr> = w\<lparr>w_tmp := d2\<rparr>" by (simp add: w0_def)
  then show ?thesis
    using that[of obj1 d1 fname buf d2 w3] rc r1 km r2 wo w' by (simp add: w0_def)
qed

text \<open>
  A successful run of \<open>sort_sort\<close> that leaves the error indicator of the output stream
  clear: the input parses to a list \<open>vs\<close> of integers, and the file is left as the text
  of a list with the same items, sorted if \<open>vs\<close> is.
\<close>

lemma sort_sort_effect:
  assumes lb: "length (s_buf obj) = s_buf_nmemb obj"
    and run: "sort_sort obj w = Some (True, obj', w')" and ne: "\<not> w_out_err w'"
  shows "\<exists>vs vs'. parse_lines (w_input w) = Some vs \<and> w_input w' = text_of vs'
          \<and> mset vs' = mset vs \<and> (sorted vs \<longrightarrow> sorted vs')"
proof -
  from run obtain obj1 d1 fname buf d2 w3 where
    rc: "sort_read_chunks obj (w_input w) ((w_tmp w)\<lparr>d_files := Map.empty\<rparr>) = Some (True, obj1, d1)"
    and km: "kmerge_merge d1 (s_fcount obj1) (s_buf obj1) (s_buf_nmemb obj1) = Some (True, fname, buf, d2)"
    and wo: "sort_write_output (obj1\<lparr>s_buf := buf\<rparr>) (w\<lparr>w_tmp := d2\<rparr>) fname = Some (obj', w3)"
    and w': "w' = sort_remove_tmp_dir w3"
    by (rule sort_sort_success)
  have g: "0 < s_fcount obj1" "NMERGE < s_buf_nmemb obj1"
    using km by (simp_all add: kmerge_merge_def split: if_splits)
  have n1: "s_buf_nmemb obj1 = s_buf_nmemb obj" by (rule sort_read_chunks_nmemb[OF rc])
  have pos: "0 < s_buf_nmemb obj" using g(2) n1 by simp
  have "\<exists>vs. parse_lines (w_input w) = Some vs
      \<and> stage_ok d1 0 (s_fcount obj1) \<and> stage_mset d1 0 (s_fcount obj1) = mset vs
      \<and> (sorted vs \<longrightarrow> stage_sorted d1 0 (s_fcount obj1))
      \<and> files_nonempty d1
      \<and> (\<forall>t j. d_files d1 (t, j) \<noteq> None \<longrightarrow> t = 0 \<and> j < s_fcount obj1)
      \<and> length (s_buf obj1) = s_buf_nmemb obj1 \<and> s_buf_nmemb obj1 = s_buf_nmemb obj"
    by (rule sort_read_chunks_effect[OF rc lb pos]) simp
  then obtain vs where pv: "parse_lines (w_input w) = Some vs"
    and ok: "stage_ok d1 0 (s_fcount obj1)" and ms: "stage_mset d1 0 (s_fcount obj1) = mset vs"
    and so: "sorted vs \<longrightarrow> stage_sorted d1 0 (s_fcount obj1)"
    and l1: "length (s_buf obj1) = s_buf_nmemb obj1"
    by blast
  have "\<exists>res out buf' d'.
      kmerge_merge d1 (s_fcount obj1) (s_buf obj1) (s_buf_nmemb obj1) = Some (res, out, buf', d')
     \<and> (res \<longrightarrow> length buf' = length (s_buf obj1)
          \<and> (\<exists>c. d_files d' out = Some c \<and> c \<noteq> [] \<and> mset c = stage_mset d1 0 (s_fcount obj1)
                \<and> (stage_sorted d1 0 (s_fcount obj1) \<longrightarrow> sorted c))
          \<and> (files_nonempty d1 \<longrightarrow> files_nonempty d'))"
    by (rule kmerge_merge_effect[OF g l1 ok])
  then obtain c where c: "d_files d2 fname = Some c" "mset c = mset vs" "sorted vs \<longrightarrow> sorted c"
    using km ms so by auto
  obtain buf3 out room3 err3 where
    wl: "sort_write_loop buf (s_buf_nmemb obj1) c ([], w_out_room w, w_out_err w)
          = Some (buf3, out, room3, err3)"
    and w3: "w3 = w\<lparr>w_tmp := d2, w_input := out, w_out_room := room3, w_out_err := err3\<rparr>"
    using wo c(1) by (auto simp: sort_write_output_def split: bind_splits)
  have "w_input w' = out" "w_out_err w' = err3"
    by (simp_all add: w' w3 sort_remove_tmp_dir_def)
  moreover have "out = [] @ text_of c \<and> \<not> w_out_err w"
    by (rule sort_write_loop_effect[OF wl]) (use ne calculation pos n1 in simp_all)
  ultimately show ?thesis using pv c(2,3) by auto
qed

subsection \<open>Reading back what was printed\<close>

lemma isdigit_digit_char: "d < 10 \<Longrightarrow> isdigit (digit_char d)"
  by (simp add: isdigit_def digit_char_def)

lemma digit_val_digit_char: "d < 10 \<Longrightarrow> digit_val (digit_char d) = d"
  by (simp add: digit_val_def digit_char_def)

lemma isdigit_not_other:
  assumes "isdigit c"
  shows "\<not> isspace c" "c \<noteq> CHR ''-''" "c \<noteq> CHR ''+''" "c \<noteq> CHR 0x0A" "c \<noteq> CHR 0x00"
  using assms by (auto simp: isdigit_def isspace_def)

lemma nat_digits_isdigit: "\<forall>c \<in> set (nat_digits n). isdigit c"
proof (induction n rule: nat_digits.induct)
  case (1 n)
  show ?case
  proof (cases "n < 10")
    case True
    then show ?thesis by (simp add: nat_digits.simps[of n] isdigit_digit_char)
  next
    case False
    then show ?thesis using 1 by (simp add: nat_digits.simps[of n] isdigit_digit_char)
  qed
qed

lemma nat_digits_nonempty: "nat_digits n \<noteq> []"
  by (simp add: nat_digits.simps[of n])

lemma digits_val_snoc: "digits_val (ds @ [c]) = digits_val ds * 10 + digit_val c"
  by (simp add: digits_val_def)

lemma digits_val_nat_digits: "digits_val (nat_digits n) = n"
proof (induction n rule: nat_digits.induct)
  case (1 n)
  show ?case
  proof (cases "n < 10")
    case True
    then show ?thesis
      by (simp add: nat_digits.simps[of n] digits_val_def digit_val_digit_char)
  next
    case False
    then have "digits_val (nat_digits n) = digits_val (nat_digits (n div 10)) * 10
        + digit_val (digit_char (n mod 10))"
      by (simp add: nat_digits.simps[of n] digits_val_snoc)
    then show ?thesis using 1 False by (simp add: digit_val_digit_char)
  qed
qed

text \<open>
  \<open>strtol\<close> on the decimal digits of a natural number, after a minus sign or not: all of
  the string is converted.
\<close>

lemma strtol_printf_d:
  assumes "LONG_MIN \<le> v" "v \<le> LONG_MAX"
  shows "strtol (printf_d v) = (v, False, [])"
proof -
  define ds where "ds = nat_digits (nat \<bar>v\<bar>)"
  have dig: "\<forall>c \<in> set ds. isdigit c" unfolding ds_def by (rule nat_digits_isdigit)
  have ne: "ds \<noteq> []" unfolding ds_def by (rule nat_digits_nonempty)
  have hd: "isdigit (hd ds)" using dig ne by (cases ds) auto
  have tw: "takeWhile isdigit ds = ds" "dropWhile isdigit ds = []" using dig by simp_all
  have val: "int (digits_val ds) = \<bar>v\<bar>" by (simp add: ds_def digits_val_nat_digits)
  show ?thesis
  proof (cases "v < 0")
    case True
    then have p: "printf_d v = CHR ''-'' # ds" by (simp add: printf_d_def ds_def)
    have sp: "\<not> isspace CHR ''-''" by (simp add: isspace_def)
    show ?thesis
      using True assms ne val
      by (simp add: strtol_def p sp tw Let_def)
  next
    case False
    then have p: "printf_d v = ds" by (simp add: printf_d_def ds_def)
    have d0: "dropWhile isspace ds = ds"
      using isdigit_not_other(1)[OF hd] ne by (cases ds) auto
    have h: "hd ds \<noteq> CHR ''-''" "hd ds \<noteq> CHR ''+''"
      using isdigit_not_other[OF hd] by simp_all
    show ?thesis
      using False assms ne val h
      by (simp add: strtol_def p d0 tw Let_def)
  qed
qed

lemma printf_d_chars: "\<forall>c \<in> set (printf_d v). isdigit c \<or> c = CHR ''-''"
proof (cases "v < 0")
  case True
  then show ?thesis using nat_digits_isdigit[of "nat (- v)"] by (simp add: printf_d_def)
next
  case False
  then show ?thesis using nat_digits_isdigit[of "nat v"] by (simp add: printf_d_def)
qed

lemma printf_d_nonempty: "printf_d v \<noteq> []"
  by (simp add: printf_d_def nat_digits_nonempty)

lemma printf_d_plain: "\<forall>c \<in> set (printf_d v). c \<noteq> CHR 0x0A \<and> c \<noteq> CHR 0x00 \<and> \<not> isspace c"
proof
  fix c assume "c \<in> set (printf_d v)"
  then have "isdigit c \<or> c = CHR ''-''" using printf_d_chars by blast
  then show "c \<noteq> CHR 0x0A \<and> c \<noteq> CHR 0x00 \<and> \<not> isspace c"
  proof
    assume "isdigit c"
    then show ?thesis using isdigit_not_other[of c] by blast
  next
    assume "c = CHR ''-''"
    then show ?thesis by (simp add: isspace_def)
  qed
qed

lemma str2int_printf_d:
  assumes "INT_MIN \<le> v" "v \<le> INT_MAX"
  shows "str2int (printf_d v) = Some v"
proof -
  have r: "LONG_MIN \<le> v" "v \<le> LONG_MAX"
    using assms by (simp_all add: INT_MIN_def INT_MAX_def LONG_MIN_def LONG_MAX_def)
  have "hd (printf_d v) \<in> set (printf_d v)" using printf_d_nonempty by simp
  then have sp: "\<not> isspace (hd (printf_d v))" using printf_d_plain by blast
  have a: "\<not> v > INT_MAX" "\<not> v < INT_MIN" using assms by simp_all
  show ?thesis
    unfolding str2int_def strtol_printf_d[OF r]
    using sp printf_d_nonempty a by simp
qed

lemma getline_printf_d:
  "getline (printf_d v @ CHR 0x0A # rest) = Some (printf_d v @ [CHR 0x0A], rest)"
proof -
  have "\<And>c. c \<in> set (printf_d v) \<Longrightarrow> c \<noteq> CHR 0x0A" using printf_d_plain by blast
  then have "takeWhile (\<lambda>c. c \<noteq> CHR 0x0A) (printf_d v @ CHR 0x0A # rest) = printf_d v"
    by (simp add: takeWhile_append2)
  then show ?thesis by (simp add: getline_def Let_def)
qed

lemma chomp_printf_d: "chomp (printf_d v @ [CHR 0x0A]) = printf_d v"
proof -
  have "\<forall>c \<in> set (printf_d v @ [CHR 0x0A]). c \<noteq> CHR 0x00" using printf_d_plain by auto
  then have "cstring (printf_d v @ [CHR 0x0A]) = printf_d v @ [CHR 0x0A]"
    unfolding cstring_def by (rule takeWhile_eq_all_conv[THEN iffD2])
  moreover have "\<And>c. c \<in> set (printf_d v) \<Longrightarrow> c \<noteq> CHR 0x0A" using printf_d_plain by blast
  then have "takeWhile (\<lambda>c. c \<noteq> CHR 0x0A) (printf_d v @ [CHR 0x0A]) = printf_d v"
    by (simp add: takeWhile_append2)
  ultimately show ?thesis by (simp add: chomp_def)
qed

text \<open>
  The file printed for a list of 32-bit integers, one \<^verbatim>\<open>"%d\n"\<close> for each, parses to that
  list.
\<close>

lemma parse_lines_text_of:
  assumes "\<forall>v \<in> set vs. INT_MIN \<le> v \<and> v \<le> INT_MAX"
  shows "parse_lines (text_of vs) = Some vs"
  using assms
proof (induction vs)
  case Nil
  then show ?case by (simp add: parse_lines.simps[of "[]"] text_of_def getline_def)
next
  case (Cons v vs)
  have t: "text_of (v # vs) = printf_d v @ CHR 0x0A # text_of vs" by (simp add: text_of_def)
  have "parse_lines (text_of vs) = Some vs" using Cons by simp
  moreover have "str2int (printf_d v) = Some v" using Cons.prems by (simp add: str2int_printf_d)
  ultimately show ?case
    unfolding t
    by (subst parse_lines.simps) (simp add: getline_printf_d chomp_printf_d)
qed

subsection \<open>The items of the file are kept\<close>


lemma sort_sort_example_two_chunks:
  "observe (sort_sort \<lparr>s_buf = replicate 17 0, s_buf_nmemb = 17, s_thr_count = 2, s_fcount = 0\<rparr>
      \<lparr>w_input = text_of [12, -7, 3, 3, 40, 0, 25, 8, -1, 19, 6, 30, 2, 11, 5, 9, 14, 1, -20],
       w_tmp = \<lparr>d_files = Map.empty, d_room = 1000\<rparr>,
       w_mkdtemp = True, w_out_room = 1000, w_out_err = False\<rparr>)
   = Some (True, text_of [-20, -7, -1, 0, 1, 2, 3, 3, 5, 6, 8, 9, 11, 12, 14, 19, 25, 30, 40], False)"
  by code_simp


subsection \<open>A sorted file\<close>



lemma sort_sort_example_sorted:
  "map_option (\<lambda>(res, obj, w). (res, w_out_err w))
     (sort_sort \<lparr>s_buf = replicate 17 0, s_buf_nmemb = 17, s_thr_count = 2, s_fcount = 0\<rparr>
        \<lparr>w_input = text_of [-20, -7, -1, 0, 1, 2, 3, 3, 5, 6, 8, 9, 11, 12, 14, 19, 25, 30, 40],
         w_tmp = \<lparr>d_files = Map.empty, d_room = 1000\<rparr>,
         w_mkdtemp = True, w_out_room = 1000, w_out_err = False\<rparr>)
   = Some (True, False)"
  by code_simp


section \<open>Every run file holds an item\<close>

subsection \<open>The group merges of a run\<close>

text \<open>
  The calls of \<open>kmerge_merge_files\<close> that \<open>kmerge_merge\<close> makes, each given by the object, the
  directory and the input streams it is called with. The rules follow the functions
  branch by branch: the loop of \<open>kmerge_merge_stage\<close> calls it when the group read so far
  is full, and goes on from the next file, after the call if there was one and it
  succeeded; \<open>kmerge_merge_stage\<close> calls it after the loop for a last group of more than
  one file; the loop of \<open>kmerge_merge_all\<close> runs stage after stage as long as they
  succeed.
\<close>

inductive stage_loop_merges ::
  "merge \<Rightarrow> disk \<Rightarrow> nat \<Rightarrow> nat \<Rightarrow> nat \<Rightarrow> int list list \<Rightarrow> merge \<times> disk \<times> int list list \<Rightarrow> bool" where
  full_group:
    "i < fcount \<Longrightarrow> d_files d (stage, i) = Some content \<Longrightarrow> length (fs @ [content]) = NMERGE
     \<Longrightarrow> stage_loop_merges obj d stage fcount i fs (obj, d, fs @ [content])"
| next_group:
    "i < fcount \<Longrightarrow> d_files d (stage, i) = Some content \<Longrightarrow> length (fs @ [content]) = NMERGE
     \<Longrightarrow> kmerge_merge_files obj d (fs @ [content]) stage (i div NMERGE) = Some (True, obj1, d1)
     \<Longrightarrow> stage_loop_merges obj1 d1 stage fcount (i + 1) [] c
     \<Longrightarrow> stage_loop_merges obj d stage fcount i fs c"
| same_group:
    "i < fcount \<Longrightarrow> d_files d (stage, i) = Some content \<Longrightarrow> length (fs @ [content]) \<noteq> NMERGE
     \<Longrightarrow> stage_loop_merges obj d stage fcount (i + 1) (fs @ [content]) c
     \<Longrightarrow> stage_loop_merges obj d stage fcount i fs c"

inductive stage_merges ::
  "merge \<Rightarrow> disk \<Rightarrow> nat \<Rightarrow> nat \<Rightarrow> merge \<times> disk \<times> int list list \<Rightarrow> bool" where
  in_loop:
    "stage_loop_merges obj d stage fcount 0 [] c \<Longrightarrow> stage_merges obj d stage fcount c"
| last_group:
    "kmerge_merge_stage_loop obj d stage fcount 0 [] = Some (True, obj1, d1, fs)
     \<Longrightarrow> length fs \<noteq> 1 \<Longrightarrow> length fs \<noteq> 0
     \<Longrightarrow> stage_merges obj d stage fcount (obj1, d1, fs)"

inductive all_loop_merges ::
  "merge \<Rightarrow> disk \<Rightarrow> nat \<Rightarrow> nat \<Rightarrow> merge \<times> disk \<times> int list list \<Rightarrow> bool" where
  this_stage:
    "i < stages \<Longrightarrow> stage_merges obj d i (kmerge_calc_stage_files (m_fcount obj) i) c
     \<Longrightarrow> all_loop_merges obj d stages i c"
| later_stage:
    "i < stages
     \<Longrightarrow> kmerge_merge_stage obj d i (kmerge_calc_stage_files (m_fcount obj) i) = Some (True, obj1, d1)
     \<Longrightarrow> all_loop_merges obj1 d1 stages (i + 1) c
     \<Longrightarrow> all_loop_merges obj d stages i c"

code_pred (modes: i \<Rightarrow> i \<Rightarrow> i \<Rightarrow> i \<Rightarrow> i \<Rightarrow> i \<Rightarrow> o \<Rightarrow> bool) stage_loop_merges .

code_pred (modes: i \<Rightarrow> i \<Rightarrow> i \<Rightarrow> i \<Rightarrow> o \<Rightarrow> bool) stage_merges .

code_pred (modes: i \<Rightarrow> i \<Rightarrow> i \<Rightarrow> i \<Rightarrow> o \<Rightarrow> bool) all_loop_merges .

definition kmerge_merges ::
  "disk \<Rightarrow> nat \<Rightarrow> int list \<Rightarrow> nat \<Rightarrow> merge \<times> disk \<times> int list list \<Rightarrow> bool" where
  "kmerge_merges d fcount buf buf_nmemb c \<longleftrightarrow>
     fcount > 0 \<and> buf_nmemb > NMERGE
   \<and> (\<exists>queue. heap_create NMERGE = Some queue
         \<and> all_loop_merges \<lparr>m_fcount = fcount, m_buf = buf, m_buf_nmemb = buf_nmemb, m_queue = queue\<rparr>
              d (kmerge_calc_stages fcount) 0 c)"

text \<open>
  What holds of every such call: the object is as \<open>kmerge_merge_files\<close> expects it, there
  are at most \<open>NMERGE\<close> input streams, and none of them is empty.
\<close>

definition merge_call_ok :: "merge \<times> disk \<times> int list list \<Rightarrow> bool" where
  "merge_call_ok c \<longleftrightarrow>
     (case c of (obj, d, fs) \<Rightarrow> merge_ready obj \<and> length fs \<le> NMERGE \<and> (\<forall>f \<in> set fs. f \<noteq> []))"

lemma stage_files_nonempty:
  assumes "stage_ok d s n" "b \<le> n"
  shows "\<forall>f \<in> set (map (stage_file d s) [a..<b]). f \<noteq> []"
proof -
  have "stage_file d s j \<noteq> []" if jn: "j < n" for j
  proof -
    obtain c where "d_files d (s, j) = Some c" "c \<noteq> []"
      using assms(1) jn unfolding stage_ok_def by blast
    then show ?thesis by (simp add: stage_file_def)
  qed
  then show ?thesis using assms(2) by auto
qed

lemma group_read_next:
  assumes fs: "fs = map (stage_file d s) [NMERGE * (i div NMERGE) ..< i]"
    and c: "d_files d (s, i) = Some content"
  shows "fs @ [content] = map (stage_file d s) [NMERGE * (i div NMERGE) ..< Suc i]"
    and "length (fs @ [content]) = NMERGE \<Longrightarrow> Suc i div NMERGE = Suc (i div NMERGE)"
    and "length (fs @ [content]) = NMERGE \<Longrightarrow> NMERGE * Suc (i div NMERGE) = Suc i"
    and "length (fs @ [content]) \<noteq> NMERGE \<Longrightarrow> Suc i div NMERGE = i div NMERGE"
    and "length (fs @ [content]) \<le> NMERGE"
proof -
  define k where "k = i div NMERGE"
  define r where "r = i mod NMERGE"
  have ir: "i = NMERGE * k + r" by (simp add: k_def r_def)
  have rl: "r < NMERGE" by (simp add: r_def NMERGE_def)
  have sf: "stage_file d s i = content" by (simp add: stage_file_def c)
  have lo: "NMERGE * k \<le> i" by (simp add: k_def)
  show fs1: "fs @ [content] = map (stage_file d s) [NMERGE * (i div NMERGE) ..< Suc i]"
    using lo by (simp add: fs k_def sf)
  have l1: "length (fs @ [content]) = Suc r"
    unfolding fs1 k_def[symmetric] using ir by simp
  show "length (fs @ [content]) \<le> NMERGE" using l1 rl by simp
  {
    assume "length (fs @ [content]) = NMERGE"
    then have e: "Suc i = NMERGE * k + NMERGE" using l1 ir by simp
    then show "NMERGE * Suc (i div NMERGE) = Suc i" by (simp add: k_def)
    show "Suc i div NMERGE = Suc (i div NMERGE)" using e by (simp add: NMERGE_def k_def)
  }
  {
    assume "length (fs @ [content]) \<noteq> NMERGE"
    then have "Suc r < NMERGE" using l1 rl by simp
    moreover have "Suc i = Suc r + k * NMERGE" using ir by (simp add: mult.commute)
    ultimately have "Suc i div NMERGE = k" by (simp only: div_mult_self1 div_less)
    then show "Suc i div NMERGE = i div NMERGE" by (simp add: k_def)
  }
qed

lemma stage_loop_merges_ok:
  assumes "stage_loop_merges obj d s fcount i fs c"
    and "merge_ready obj" "stage_ok d s fcount" "i \<le> fcount"
    and "fs = map (stage_file d s) [NMERGE * (i div NMERGE) ..< i]"
  shows "merge_call_ok c"
  using assms
proof (induction rule: stage_loop_merges.induct)
  case (full_group i fcount d stage content fs obj)
  note g = group_read_next[OF full_group.prems(4) full_group.hyps(2)]
  have "\<forall>f \<in> set (fs @ [content]). f \<noteq> []"
    unfolding g(1) by (rule stage_files_nonempty[OF full_group.prems(2)]) (use full_group.hyps(1) in simp)
  then show ?case
    using full_group.prems(1) full_group.hyps(3) by (simp add: merge_call_ok_def)
next
  case (next_group i fcount d stage content fs obj obj1 d1 c)
  note g = group_read_next[OF next_group.prems(4) next_group.hyps(2)]
  have "\<exists>ret obj' d'. kmerge_merge_files obj d (fs @ [content]) stage (i div NMERGE) = Some (ret, obj', d') \<and>
     (ret \<longrightarrow> merge_ready obj' \<and> m_fcount obj' = m_fcount obj
        \<and> m_buf_nmemb obj' = m_buf_nmemb obj
        \<and> (\<exists>out. d_files d' = (d_files d)((stage + 1, i div NMERGE) \<mapsto> out)
              \<and> ((\<forall>f \<in> set (fs @ [content]). f \<noteq> []) \<longrightarrow> mset out = mset (concat (fs @ [content])))
              \<and> ((\<forall>f \<in> set (fs @ [content]). sorted f \<and> f \<noteq> []) \<longrightarrow> sorted out)))"
    by (rule kmerge_merge_files_total[OF next_group.prems(1) g(5)])
  then obtain out where rd1: "merge_ready obj1"
    and dd: "d_files d1 = (d_files d)((stage + 1, i div NMERGE) \<mapsto> out)"
    using next_group.hyps(4) by auto
  have ok1: "stage_ok d1 stage fcount"
    using next_group.prems(2) by (simp add: stage_ok_def dd)
  show ?case
  proof (rule next_group.IH[OF rd1 ok1])
    show "i + 1 \<le> fcount" using next_group.hyps(1) by simp
    show "[] = map (stage_file d1 stage) [NMERGE * ((i + 1) div NMERGE) ..< i + 1]"
      using g(2,3)[OF next_group.hyps(3)] by simp
  qed
next
  case (same_group i fcount d stage content fs obj c)
  note g = group_read_next[OF same_group.prems(4) same_group.hyps(2)]
  show ?case
  proof (rule same_group.IH[OF same_group.prems(1,2)])
    show "i + 1 \<le> fcount" using same_group.hyps(1) by simp
    show "fs @ [content] = map (stage_file d stage) [NMERGE * ((i + 1) div NMERGE) ..< i + 1]"
      using g(1) g(4)[OF same_group.hyps(3)] by simp
  qed
qed

lemma stage_merges_ok:
  assumes "stage_merges obj d s fcount c" and rd: "merge_ready obj" and ok: "stage_ok d s fcount"
  shows "merge_call_ok c"
  using assms(1)
proof (cases rule: stage_merges.cases)
  case in_loop
  then show ?thesis by (rule stage_loop_merges_ok[OF _ rd ok]) simp_all
next
  case (last_group obj1 d1 fs)
  have "\<exists>ret obj' d' fs'. kmerge_merge_stage_loop obj d s fcount 0 [] = Some (ret, obj', d', fs')
     \<and> (ret \<longrightarrow> merge_ready obj' \<and> m_fcount obj' = m_fcount obj
          \<and> m_buf_nmemb obj' = m_buf_nmemb obj
          \<and> fs' = map (stage_file d s) [NMERGE * (fcount div NMERGE) ..< fcount]
          \<and> groups_done d d' s fcount (0 div NMERGE) (fcount div NMERGE))"
    by (rule kmerge_merge_stage_loop_effect[OF rd ok]) simp_all
  then have rd1: "merge_ready obj1"
    and fs: "fs = map (stage_file d s) [NMERGE * (fcount div NMERGE) ..< fcount]"
    using last_group(2) by auto
  have "length fs = fcount mod NMERGE" unfolding fs by (simp add: minus_mult_div_eq_mod)
  then have "length fs \<le> NMERGE" by (simp add: NMERGE_def)
  moreover have "\<forall>f \<in> set fs. f \<noteq> []"
    unfolding fs by (rule stage_files_nonempty[OF ok]) simp
  ultimately show ?thesis using rd1 last_group(1) by (simp add: merge_call_ok_def)
qed

lemma all_loop_merges_ok:
  assumes "all_loop_merges obj d stages i c"
    and "merge_ready obj" "stage_ok d i (kmerge_calc_stage_files (m_fcount obj) i)"
  shows "merge_call_ok c"
  using assms
proof (induction rule: all_loop_merges.induct)
  case (this_stage i stages obj d c)
  show ?case by (rule stage_merges_ok[OF this_stage.hyps(2) this_stage.prems])
next
  case (later_stage i stages obj d obj1 d1 c)
  define n where "n = kmerge_calc_stage_files (m_fcount obj) i"
  have "\<exists>ret obj' d'. kmerge_merge_stage obj d i n = Some (ret, obj', d')
     \<and> (ret \<longrightarrow> merge_ready obj' \<and> m_fcount obj' = m_fcount obj
          \<and> m_buf_nmemb obj' = m_buf_nmemb obj
          \<and> groups_done d d' i n 0 (ceil_div n NMERGE))"
    by (rule kmerge_merge_stage_effect[OF later_stage.prems(1)])
       (use later_stage.prems(2) in \<open>simp add: n_def\<close>)
  then have rd1: "merge_ready obj1" and f1: "m_fcount obj1 = m_fcount obj"
    and g: "groups_done d d1 i n 0 (ceil_div n NMERGE)"
    using later_stage.hyps(2) by (auto simp: n_def)
  have okn: "stage_ok d i n" using later_stage.prems(2) by (simp add: n_def)
  have "stage_ok d1 (i + 1) (ceil_div n NMERGE)" by (rule groups_done_next_stage(1)[OF g okn])
  then have "stage_ok d1 (i + 1) (kmerge_calc_stage_files (m_fcount obj1) (i + 1))"
    by (simp add: f1 n_def kmerge_calc_stage_files_Suc)
  then show ?case by (rule later_stage.IH[OF rd1])
qed

lemma kmerge_merges_ok:
  assumes "kmerge_merges d fcount buf buf_nmemb c"
    and "length buf = buf_nmemb" "stage_ok d 0 fcount"
  shows "merge_call_ok c"
proof -
  define queue where "queue = \<lparr>h_capacity = NMERGE, h_count = 0,
                 h_arr = replicate NMERGE \<lparr>key = 0, idx = 0\<rparr>\<rparr>"
  define obj where "obj = \<lparr>m_fcount = fcount, m_buf = buf, m_buf_nmemb = buf_nmemb, m_queue = queue\<rparr>"
  have hc: "heap_create NMERGE = Some queue"
    by (simp add: heap_create_def queue_def NMERGE_def)
  have nm: "NMERGE < buf_nmemb" and al: "all_loop_merges obj d (kmerge_calc_stages fcount) 0 c"
    using assms(1) hc by (auto simp: kmerge_merges_def obj_def)
  have rd: "merge_ready obj"
    using nm assms(2) by (simp add: merge_ready_def obj_def queue_def heap_wf_def)
  have "stage_ok d 0 (kmerge_calc_stage_files (m_fcount obj) 0)"
    using assms(3) by (simp add: obj_def kmerge_calc_stage_files_def)
  then show ?thesis by (rule all_loop_merges_ok[OF al rd])
qed

text \<open>
  Priming the queue from input streams none of which is empty: every block is loaded
  with at least one item, and every element pushed is the first item of its stream.
\<close>

lemma kmerge_prime_loaded:
  assumes rd: "merge_ready obj" and m: "length fs \<le> NMERGE" and ne: "\<forall>f \<in> set fs. f \<noteq> []"
  shows "\<exists>st1. kmerge_prime (m_buf_nmemb obj div (NMERGE + 1)) (kmerge_blocks_init obj d fs)
                  [0..<length fs] = Some st1
           \<and> h_count (ms_queue st1) = length fs
           \<and> (\<forall>i < length fs. b_count (ms_blocks st1 ! i) \<noteq> 0)
           \<and> (\<forall>e \<in> set (heap_els (ms_queue st1)). key e = hd (fs ! idx e))"
proof -
  define bs where "bs = m_buf_nmemb obj div (NMERGE + 1)"
  define n where "n = length fs"
  define st0 where "st0 = kmerge_blocks_init obj d fs"
  have gne: "\<forall>i < n. fs ! i \<noteq> []" using ne by (simp add: n_def)
  have ps0: "prime_shape bs n fs 0 st0"
    unfolding bs_def n_def st0_def by (rule kmerge_blocks_init_shape[OF rd m])
  have pc0: "prime_content fs 0 st0"
    using ps0 by (simp add: prime_content_def prime_shape_def heap_els_def)
  have "\<exists>st'. kmerge_prime bs st0 [0..<n] = Some st' \<and> prime_shape bs n fs n st'
        \<and> prime_content fs n st'
        \<and> length (ms_buf st') = length (ms_buf st0) \<and> ms_room st' = ms_room st0"
  proof (rule kmerge_prime_total[where J="\<lambda>k s. prime_content fs k s" and bs=bs and m=n
        and F=fs and k=0 and st=st0])
    show "prime_content fs (Suc k) s1"
      if "prime_shape bs n fs k s" "prime_content fs k s" "prime_rel bs n fs k s s1" for k s s1
      by (rule prime_content_step[OF gne that])
    show "prime_shape bs n fs 0 st0" by (rule ps0)
    show "prime_content fs 0 st0" by (rule pc0)
  qed
  then obtain st1 where pr: "kmerge_prime bs st0 [0..<n] = Some st1"
    and ps1: "prime_shape bs n fs n st1" and pc1: "prime_content fs n st1"
    by blast
  have "h_count (ms_queue st1) = n" using ps1 by (simp add: prime_shape_def)
  moreover have "\<forall>i < n. b_count (ms_blocks st1 ! i) \<noteq> 0"
    using pc1 by (simp add: prime_content_def)
  moreover have "\<forall>e \<in> set (heap_els (ms_queue st1)). key e = hd (fs ! idx e)"
    using pc1 by (simp add: prime_content_def)
  ultimately show ?thesis
    using pr unfolding bs_def n_def st0_def by blast
qed

lemma parse_lines_nonempty:
  assumes "parse_lines input = Some vs" "input \<noteq> []"
  shows "vs \<noteq> []"
proof -
  have "getline input \<noteq> None" using assms(2) by (simp add: getline_def Let_def)
  then obtain line rest where "getline input = Some (line, rest)"
    by (cases "getline input") auto
  then show ?thesis
    using assms(1) by (auto simp: parse_lines.simps[of input] split: option.splits)
qed


lemma sort_read_chunks_example:
  "map_option (\<lambda>(res, obj1, d1). (res, s_fcount obj1, s_buf_nmemb obj1, d_files d1 (0, 0), d_files d1 (0, 1)))
     (sort_read_chunks \<lparr>s_buf = replicate 17 0, s_buf_nmemb = 17, s_thr_count = 2, s_fcount = 0\<rparr>
        (text_of [12, -7, 3, 3, 40, 0, 25, 8, -1, 19, 6, 30, 2, 11, 5, 9, 14, 1, -20])
        \<lparr>d_files = Map.empty, d_room = 1000\<rparr>)
   = Some (True, 2, 17, Some [-7, -1, 0, 2, 3, 3, 5, 6, 8, 9, 11, 12, 14, 19, 25, 30, 40],
           Some [-20, 1])"
  by code_simp


end
